(* ===== verification/Prelude.thy ===== *)
theory Prelude
  imports Main "HOL-Library.Word" "HOL-Library.Sublist"
begin

text \<open>
  Shared vocabulary of the development: bytes, the kinds of \<open>std::io::Error\<close> the code inspects,
  results that are a value, an I/O error or a panic, the state-and-failure type in which every
  operation that touches the file system is written, 64-bit arithmetic, big-endian numbers and
  the generic facts on prefix sums and byte lists that several components use.

  An \<open>io::Error\<close> is represented by its \<open>ErrorKind\<close>. Its message text is written into logs and
  never read back by the code, so it is left out.
\<close>

named_theorems io_simps "unfolding rules of the state-and-failure combinators"
named_theorems offset_simps "exactness of 64-bit arithmetic below the wrap-around"

section \<open>Bytes, error kinds, results\<close>

type_synonym byte = "8 word"

datatype error_kind =
    NotFound | PermissionDenied | AlreadyExists | WouldBlock | InvalidInput | InvalidData
  | UnexpectedEof | WriteZero | Interrupted | Other | OsError nat

text \<open>
  A call returns a value, an \<open>io::Error\<close> (\<open>Err\<close>), unwinds with a panic, or waits for something that
  will never happen (\<open>Hang\<close>).
\<close>

datatype failure = Err error_kind | Panic | Hang

type_synonym 'a res = "failure + 'a"

text \<open>
  An operation on a world \<open>'w\<close> returns its result together with the world it leaves, also when
  it fails: what was written before the failure stays written.
\<close>

type_synonym ('w, 'a) io = "'w \<Rightarrow> 'a res \<times> 'w"

definition io_return :: "'a \<Rightarrow> ('w, 'a) io" where
  "io_return x = (\<lambda>w. (Inr x, w))"

definition io_fail :: "failure \<Rightarrow> ('w, 'a) io" where
  "io_fail e = (\<lambda>w. (Inl e, w))"

definition io_lift :: "'a res \<Rightarrow> ('w, 'a) io" where
  "io_lift r = (\<lambda>w. (r, w))"

text \<open>The sequencing of the \<open>?\<close> operator: the first failure ends the computation.\<close>

definition io_bind :: "('w, 'a) io \<Rightarrow> ('a \<Rightarrow> ('w, 'b) io) \<Rightarrow> ('w, 'b) io" where
  "io_bind m k = (\<lambda>w. case m w of (Inl e, w') \<Rightarrow> (Inl e, w') | (Inr x, w') \<Rightarrow> k x w')"

definition res_bind :: "'a res \<Rightarrow> ('a \<Rightarrow> 'b res) \<Rightarrow> 'b res" where
  "res_bind r k = (case r of Inl e \<Rightarrow> Inl e | Inr x \<Rightarrow> k x)"

lemma io_return_app [io_simps, simp]: "io_return x w = (Inr x, w)"
  by (simp add: io_return_def)

lemma io_fail_app [io_simps, simp]: "io_fail e w = (Inl e, w)"
  by (simp add: io_fail_def)

lemma io_lift_app [io_simps, simp]: "io_lift r w = (r, w)"
  by (simp add: io_lift_def)

lemma io_bind_app [io_simps]:
  "io_bind m k w = (case m w of (Inl e, w') \<Rightarrow> (Inl e, w') | (Inr x, w') \<Rightarrow> k x w')"
  by (simp add: io_bind_def)

lemma io_bind_ok [simp]: "m w = (Inr x, w') \<Longrightarrow> io_bind m k w = k x w'"
  by (simp add: io_bind_def)

lemma io_bind_err [simp]: "m w = (Inl e, w') \<Longrightarrow> io_bind m k w = (Inl e, w')"
  by (simp add: io_bind_def)

lemma io_bind_InrE:
  assumes "io_bind m k w = (Inr y, w'')"
  obtains x w' where "m w = (Inr x, w')" and "k x w' = (Inr y, w'')"
  using assms by (auto simp: io_bind_def split: prod.splits sum.splits)

lemma res_bind_simps [simp]:
  "res_bind (Inl e) k = Inl e"
  "res_bind (Inr x) k = k x"
  by (simp_all add: res_bind_def)

section \<open>64-bit offsets\<close>

text \<open>
  File offsets are \<open>u64\<close>. A release build wraps around on overflow and a debug build panics; the
  model writes the wrap-around out on \<open>nat\<close>, and the lemmas below (collected in
  \<open>offset_simps\<close>) say when it does not happen.
\<close>

definition u64_add :: "nat \<Rightarrow> nat \<Rightarrow> nat" where
  "u64_add a b = (a + b) mod 2 ^ 64"

definition u64_sub :: "nat \<Rightarrow> nat \<Rightarrow> nat" where
  "u64_sub a b = (a + (2 ^ 64 - b)) mod 2 ^ 64"

lemma u64_add_exact [offset_simps]: "a + b < 2 ^ 64 \<Longrightarrow> u64_add a b = a + b"
  by (simp add: u64_add_def)

lemma u64_sub_exact [offset_simps]:
  assumes "b \<le> a" and "a < 2 ^ 64"
  shows "u64_sub a b = a - b"
proof -
  have "a + (2 ^ 64 - b) = (a - b) + 2 ^ 64" using assms by simp
  then have "u64_sub a b = (a - b) mod 2 ^ 64" by (simp add: u64_sub_def)
  then show ?thesis using assms by simp
qed

lemma u64_add_bound: "u64_add a b < 2 ^ 64"
  by (simp add: u64_add_def)

section \<open>Big-endian numbers\<close>

definition be_nat :: "byte list \<Rightarrow> nat" where
  "be_nat bs = foldl (\<lambda>a b. a * 256 + unat b) 0 bs"

definition be_u32 :: "nat \<Rightarrow> byte list" where
  "be_u32 n = [word_of_nat (n div 2 ^ 24), word_of_nat (n div 2 ^ 16),
               word_of_nat (n div 2 ^ 8), word_of_nat n]"

lemma length_be_u32 [simp]: "length (be_u32 n) = 4"
  by (simp add: be_u32_def)

lemma unat_byte_of_nat: "unat (word_of_nat n :: byte) = n mod 256"
  by (simp add: unat_of_nat)

lemma be_nat_be_u32 [simp]:
  assumes "n < 2 ^ 32"
  shows "be_nat (be_u32 n) = n"
proof -
  define q1 q2 q3 where "q1 = n div 256" and "q2 = q1 div 256" and "q3 = q2 div 256"
  have dv: "n div 2 ^ 8 = q1" "n div 2 ^ 16 = q2" "n div 2 ^ 24 = q3"
    by (simp_all add: q1_def q2_def q3_def flip: div_mult2_eq)
  have "q3 < 256" using assms by (simp add: flip: dv)
  then have "be_nat (be_u32 n) = ((q3 * 256 + q2 mod 256) * 256 + q1 mod 256) * 256 + n mod 256"
    by (simp add: be_nat_def be_u32_def unat_byte_of_nat dv del: power_numeral power_numeral_even)
  then show ?thesis by (simp add: q1_def q2_def q3_def)
qed

section \<open>Prefix sums\<close>

text \<open>
  \<open>offsets_from s ns\<close> lists the \<open>N + 1\<close> boundaries of \<open>N\<close> consecutive pieces of sizes \<open>ns\<close> that
  start at \<open>s\<close>.
\<close>

fun offsets_from :: "nat \<Rightarrow> nat list \<Rightarrow> nat list" where
  "offsets_from s [] = [s]"
| "offsets_from s (n # ns) = s # offsets_from (s + n) ns"

lemma length_offsets_from [simp]: "length (offsets_from s ns) = Suc (length ns)"
  by (induction ns arbitrary: s) auto

lemma offsets_from_not_Nil [simp]: "offsets_from s ns \<noteq> []"
  by (cases ns) auto

lemma hd_offsets_from [simp]: "hd (offsets_from s ns) = s"
  by (cases ns) auto

lemma offsets_from_tl [simp]: "s # tl (offsets_from s ns) = offsets_from s ns"
  by (cases ns) auto

lemma last_offsets_from [simp]: "last (offsets_from s ns) = s + sum_list ns"
  by (induction ns arbitrary: s) auto

lemma nth_offsets_from:
  "i \<le> length ns \<Longrightarrow> offsets_from s ns ! i = s + sum_list (take i ns)"
proof (induction ns arbitrary: s i)
  case Nil
  then show ?case by simp
next
  case (Cons n ns)
  then show ?case by (cases i) auto
qed

lemma offsets_from_snoc: "offsets_from s (ns @ [n]) = offsets_from s ns @ [s + sum_list ns + n]"
  by (induction ns arbitrary: s) (auto simp: add.assoc)

lemma sorted_offsets_from: "sorted (offsets_from s ns)"
proof (induction ns arbitrary: s)
  case Nil
  then show ?case by simp
next
  case (Cons n ns)
  have "\<forall>x \<in> set (offsets_from (s + n) ns). s + n \<le> x"
    by (metis Cons.IH hd_offsets_from list.collapse list.set_cases offsets_from_not_Nil
        order_refl set_ConsD sorted_simps(2))
  with Cons.IH show ?case by auto
qed

lemma sorted_last_max:
  assumes "sorted xs" and "x \<in> set xs"
  shows "x \<le> last xs"
  using assms by (induction xs) auto

section \<open>Byte lists\<close>

definition all_zero :: "byte list \<Rightarrow> bool" where
  "all_zero bs = list_all (\<lambda>b. b = 0) bs"

lemma all_zero_simps [simp]:
  "all_zero []"
  "all_zero (b # bs) = (b = 0 \<and> all_zero bs)"
  "all_zero (bs @ cs) = (all_zero bs \<and> all_zero cs)"
  "all_zero (replicate n 0)"
  by (auto simp: all_zero_def list_all_iff)

lemma strict_prefix_take: "n < length xs \<Longrightarrow> strict_prefix (take n xs) xs"
  by (rule strict_prefixI) (auto simp: take_is_prefix dest: arg_cong [of _ _ length])

lemma strict_prefixE_take:
  assumes "strict_prefix p xs"
  shows "p = take (length p) xs" and "length p < length xs"
  using assms by (auto simp: strict_prefix_def prefix_def)

end
