(* ===== verification/Num_Format.thy ===== *)
theory Num_Format
  imports Prelude
begin

text \<open>
  The number formatting of \<open>src/num.rs\<close>: decimal digits padded with zeros and grouped by
  underscores (\<open>format_grouped\<close>, \<open>format_pad_u64\<close>, \<open>format_pad9_u64\<close>), and the decimal reading
  \<open>str::parse::<u64>\<close> of the standard library that \<open>Config::parse_chunk_file_name\<close> uses. The lemmas
  show that the digits of a formatted number are a decimal numeral of it and fix its width.
\<close>

section \<open>Decimal numerals\<close>

definition digit_char :: "nat \<Rightarrow> char" where
  "digit_char d = char_of (48 + d)"

definition is_ascii_digit :: "char \<Rightarrow> bool" where
  "is_ascii_digit c = (48 \<le> (of_char c :: nat) \<and> (of_char c :: nat) \<le> 57)"

definition digit_value :: "char \<Rightarrow> nat" where
  "digit_value c = of_char c - 48"

fun dec_digits :: "nat \<Rightarrow> string" where
  "dec_digits n = (if n < 10 then [digit_char n] else dec_digits (n div 10) @ [digit_char (n mod 10)])"

declare dec_digits.simps [simp del]

definition dec_value :: "string \<Rightarrow> nat" where
  "dec_value s = foldl (\<lambda>a c. 10 * a + digit_value c) 0 s"

text \<open>The padding of \<open>format!("{:0width$}", n)\<close>.\<close>

definition zero_padded :: "nat \<Rightarrow> nat \<Rightarrow> string" where
  "zero_padded n width =
     (let s = dec_digits n in replicate (width - length s) (CHR ''0'') @ s)"

definition format_grouped :: "nat \<Rightarrow> nat \<Rightarrow> string" where
  "format_grouped n min_width =
     (let s = zero_padded n min_width; len = length s
      in foldl (\<lambda>acc (i, c). (if i > 0 \<and> (len - i) mod 3 = 0 then acc @ [CHR ''_''] else acc) @ [c])
           [] (enumerate 0 s))"

definition format_pad_u64 :: "nat \<Rightarrow> string" where
  "format_pad_u64 n = format_grouped n 20"

definition format_pad9_u64 :: "nat \<Rightarrow> string" where
  "format_pad9_u64 n = format_grouped n 9"

text \<open>
  \<open>str::parse::<u64>\<close> on a string that holds digits only: it fails on the empty string and on a
  value that does not fit.
\<close>

datatype parse_int_error = Empty | PosOverflow

definition parse_u64 :: "string \<Rightarrow> parse_int_error + nat" where
  "parse_u64 s =
     (if s = [] then Inl Empty
      else if dec_value s < 2 ^ 64 then Inr (dec_value s) else Inl PosOverflow)"

section \<open>Reading back what was formatted\<close>

lemma of_char_digit_char: "d < 10 \<Longrightarrow> (of_char (digit_char d) :: nat) = 48 + d"
  by (simp add: digit_char_def)

lemma digit_value_digit_char [simp]: "d < 10 \<Longrightarrow> digit_value (digit_char d) = d"
  by (simp add: digit_value_def of_char_digit_char)

lemma is_ascii_digit_digit_char [simp]: "d < 10 \<Longrightarrow> is_ascii_digit (digit_char d)"
  by (simp add: is_ascii_digit_def of_char_digit_char)

lemma is_ascii_digit_zero [simp]: "is_ascii_digit (CHR ''0'')"
  by (simp add: is_ascii_digit_def)

lemma is_ascii_digit_underscore [simp]: "\<not> is_ascii_digit (CHR ''_'')"
  by (simp add: is_ascii_digit_def)

lemma dec_value_snoc [simp]: "dec_value (s @ [c]) = 10 * dec_value s + digit_value c"
  by (simp add: dec_value_def)

lemma dec_value_dec_digits [simp]: "dec_value (dec_digits n) = n"
proof (induction n rule: dec_digits.induct)
  case (1 n)
  show ?case
  proof (cases "n < 10")
    case True
    then show ?thesis by (subst dec_digits.simps) (simp add: dec_value_def)
  next
    case False
    with 1 show ?thesis by (subst dec_digits.simps) simp
  qed
qed

lemma dec_digits_are_digits: "list_all is_ascii_digit (dec_digits n)"
proof (induction n rule: dec_digits.induct)
  case (1 n)
  then show ?case by (cases "n < 10") (simp_all add: dec_digits.simps [of n])
qed

lemma dec_value_pad: "dec_value (replicate k (CHR ''0'') @ s) = dec_value s"
proof -
  have "foldl (\<lambda>a c. 10 * a + digit_value c) 0 (replicate k (CHR ''0'')) = 0"
    by (induction k) (auto simp: digit_value_def)
  then show ?thesis by (simp add: dec_value_def)
qed

lemma length_dec_digits_le: "n < 10 ^ k \<Longrightarrow> 0 < k \<Longrightarrow> length (dec_digits n) \<le> k"
proof (induction n arbitrary: k rule: dec_digits.induct)
  case (1 n)
  show ?case
  proof (cases "n < 10")
    case True
    with 1 show ?thesis by (subst dec_digits.simps) simp
  next
    case False
    obtain j where k: "k = Suc j" using 1 by (cases k) auto
    from False 1 k have "0 < j" by (cases j) auto
    moreover have "n div 10 < 10 ^ j"
      using 1 k by (simp add: less_mult_imp_div_less mult.commute)
    ultimately have "length (dec_digits (n div 10)) \<le> j" using 1 False by blast
    with False k show ?thesis by (subst dec_digits.simps) simp
  qed
qed

lemma zero_padded_are_digits: "list_all is_ascii_digit (zero_padded n w)"
  using dec_digits_are_digits [of n]
  by (auto simp: zero_padded_def Let_def list_all_iff)

lemma dec_value_zero_padded [simp]: "dec_value (zero_padded n w) = n"
  by (simp add: zero_padded_def Let_def dec_value_pad)

lemma length_zero_padded: "n < 10 ^ w \<Longrightarrow> 0 < w \<Longrightarrow> length (zero_padded n w) = w"
  using length_dec_digits_le [of n w] by (simp add: zero_padded_def Let_def)

section \<open>Grouping\<close>

lemma foldl_append_concat: "foldl (\<lambda>acc x. acc @ f x) a xs = a @ concat (map f xs)"
  by (induction xs arbitrary: a) auto

lemma format_grouped_concat:
  "format_grouped n w =
     (let s = zero_padded n w in concat (map (\<lambda>(i, c).
        (if i > 0 \<and> (length s - i) mod 3 = 0 then [CHR ''_'', c] else [c])) (enumerate 0 s)))"
proof -
  define s where "s = zero_padded n w"
  have "(\<lambda>acc (i, c). (if i > 0 \<and> (length s - i) mod 3 = 0 then acc @ [CHR ''_''] else acc) @ [c]) =
        (\<lambda>acc x. acc @ (case x of (i, c) \<Rightarrow>
           if i > 0 \<and> (length s - i) mod 3 = 0 then [CHR ''_'', c] else [c]))"
    by (auto simp: fun_eq_iff)
  then show ?thesis
    by (simp add: format_grouped_def Let_def foldl_append_concat flip: s_def)
qed

lemma filter_grouped:
  assumes "list_all P s" and "\<not> P u"
  shows "filter P (concat (map (\<lambda>(i, c). if g i then [u, c] else [c]) (enumerate k s))) = s"
  using assms by (induction s arbitrary: k) auto

lemma digits_of_format_grouped [simp]:
  "filter is_ascii_digit (format_grouped n w) = zero_padded n w"
  using zero_padded_are_digits [of n w]
  by (simp add: format_grouped_concat Let_def filter_grouped)

lemma length_grouped:
  "length (concat (map (\<lambda>(i, c). if g i then [u, c] else [c]) (enumerate k s))) =
   sum_list (map (\<lambda>i. if g i then 2 else 1) [k..<k + length s])"
proof (induction s arbitrary: k)
  case Nil
  then show ?case by simp
next
  case (Cons c s)
  have "[k..<k + length (c # s)] = k # [Suc k..<Suc k + length s]"
    by (simp add: upt_rec)
  with Cons [of "Suc k"] show ?case by simp
qed

lemma length_format_pad_u64:
  assumes "n < 2 ^ 64"
  shows "length (format_pad_u64 n) = 26"
proof -
  have "length (zero_padded n 20) = 20"
    using assms by (intro length_zero_padded) auto
  then show ?thesis
    by (simp add: format_pad_u64_def format_grouped_concat Let_def length_grouped upt_rec)
qed

lemma digits_of_format_pad_u64 [simp]:
  "filter is_ascii_digit (format_pad_u64 n) = zero_padded n 20"
  by (simp add: format_pad_u64_def)

lemma parse_u64_zero_padded:
  assumes "n < 2 ^ 64" and "0 < w"
  shows "parse_u64 (zero_padded n w) = Inr n"
proof -
  have "dec_digits n \<noteq> []" by (subst dec_digits.simps) simp
  then have "zero_padded n w \<noteq> []" by (simp add: zero_padded_def Let_def)
  then show ?thesis using assms by (simp add: parse_u64_def)
qed

text \<open>Formatted numbers consist of digits and underscores.\<close>

lemma set_format_pad_u64: "set (format_pad_u64 n) \<subseteq> {c. is_ascii_digit c} \<union> {CHR ''_''}"
proof -
  have "set (concat (map (\<lambda>(i, c). if g i then [CHR ''_'', c] else [c]) (enumerate k s)))
      \<subseteq> set s \<union> {CHR ''_''}" for g k and s :: string
    by (auto simp: in_set_enumerate_eq split: if_splits)
  then have "set (format_pad_u64 n) \<subseteq> set (zero_padded n 20) \<union> {CHR ''_''}"
    by (simp add: format_pad_u64_def format_grouped_concat Let_def)
  then show ?thesis
    using zero_padded_are_digits [of n 20] unfolding list_all_iff by blast
qed

end
