(* ===== verification/Config.thy ===== *)
theory Config
  imports Num_Format
begin

text \<open>
  \<open>src/config.rs\<close>, \<open>src/errors.rs\<close> and \<open>src/chunk/chunk_id.rs\<close>: the settings of a WAL with
  their defaults and their validation, chunk identifiers, and the naming of chunk files. The
  lemmas show that a file name determines its chunk (round trip and injectivity), what
  \<open>parse_chunk_file_name\<close> rejects, and that validation accepts exactly the usable settings.
\<close>

section \<open>Chunk identifiers\<close>

datatype chunk_id = ChunkId nat

fun offset :: "chunk_id \<Rightarrow> nat" where
  "offset (ChunkId n) = n"

lemma ChunkId_offset [simp]: "ChunkId (offset c) = c"
  by (cases c) simp

lemma offset_inject [simp]: "offset a = offset b \<longleftrightarrow> a = b"
  by (cases a; cases b) simp

text \<open>The derived order of the struct is the order of its offset.\<close>

instantiation chunk_id :: linorder
begin

definition less_eq_chunk_id :: "chunk_id \<Rightarrow> chunk_id \<Rightarrow> bool" where
  "less_eq_chunk_id a b = (offset a \<le> offset b)"

definition less_chunk_id :: "chunk_id \<Rightarrow> chunk_id \<Rightarrow> bool" where
  "less_chunk_id a b = (offset a < offset b)"

instance
  by standard (auto simp: less_eq_chunk_id_def less_chunk_id_def)

end

definition chunk_id_display :: "chunk_id \<Rightarrow> string" where
  "chunk_id_display c = ''ChunkId('' @ format_pad_u64 (offset c) @ '')''"

section \<open>Settings\<close>

record config =
  dir :: string
  cfg_read_buffer_size :: "nat option"
  cfg_chunk_max_records :: "nat option"
  cfg_chunk_max_size :: "nat option"
  cfg_truncate_incomplete_record :: "bool option"
  cfg_flush_batch_wait :: "nat option"
  cfg_flush_batch_max_items :: "nat option"
  cfg_flush_queue_max_bytes :: "nat option"

text \<open>Durations are nanoseconds, as the differences of the clock are; the default is one millisecond.\<close>

definition DEFAULT_READ_BUFFER_SIZE :: nat where
  "DEFAULT_READ_BUFFER_SIZE = 64 * 1024 * 1024"

definition DEFAULT_FLUSH_BATCH_WAIT :: nat where
  "DEFAULT_FLUSH_BATCH_WAIT = 1000000"

definition DEFAULT_FLUSH_BATCH_MAX_ITEMS :: nat where
  "DEFAULT_FLUSH_BATCH_MAX_ITEMS = 2048"

definition DEFAULT_FLUSH_QUEUE_MAX_BYTES :: nat where
  "DEFAULT_FLUSH_QUEUE_MAX_BYTES = 64 * 1024 * 1024"

definition MAX_READ_BUFFER_SIZE :: nat where
  "MAX_READ_BUFFER_SIZE = 1024 * 1024 * 1024"

definition unwrap_or :: "'a option \<Rightarrow> 'a \<Rightarrow> 'a" where
  "unwrap_or x d = (case x of None \<Rightarrow> d | Some v \<Rightarrow> v)"

definition config_new_full :: "string \<Rightarrow> nat option \<Rightarrow> nat option \<Rightarrow> nat option \<Rightarrow> config" where
  "config_new_full d rbs max_records max_size =
     \<lparr> dir = d, cfg_read_buffer_size = rbs, cfg_chunk_max_records = max_records,
       cfg_chunk_max_size = max_size, cfg_truncate_incomplete_record = None,
       cfg_flush_batch_wait = None, cfg_flush_batch_max_items = None,
       cfg_flush_queue_max_bytes = None \<rparr>"

definition config_new :: "string \<Rightarrow> config" where
  "config_new d =
     \<lparr> dir = d, cfg_read_buffer_size = None, cfg_chunk_max_records = None,
       cfg_chunk_max_size = None, cfg_truncate_incomplete_record = None,
       cfg_flush_batch_wait = None, cfg_flush_batch_max_items = None,
       cfg_flush_queue_max_bytes = None \<rparr>"

definition read_buffer_size :: "config \<Rightarrow> nat" where
  "read_buffer_size c = unwrap_or (cfg_read_buffer_size c) DEFAULT_READ_BUFFER_SIZE"

definition chunk_max_records :: "config \<Rightarrow> nat" where
  "chunk_max_records c = unwrap_or (cfg_chunk_max_records c) (1024 * 1024)"

definition chunk_max_size :: "config \<Rightarrow> nat" where
  "chunk_max_size c = unwrap_or (cfg_chunk_max_size c) (1024 * 1024 * 1024)"

definition truncate_incomplete_record :: "config \<Rightarrow> bool" where
  "truncate_incomplete_record c = unwrap_or (cfg_truncate_incomplete_record c) True"

definition flush_batch_wait :: "config \<Rightarrow> nat" where
  "flush_batch_wait c = unwrap_or (cfg_flush_batch_wait c) DEFAULT_FLUSH_BATCH_WAIT"

definition flush_batch_max_items :: "config \<Rightarrow> nat" where
  "flush_batch_max_items c = unwrap_or (cfg_flush_batch_max_items c) DEFAULT_FLUSH_BATCH_MAX_ITEMS"

definition flush_queue_max_bytes :: "config \<Rightarrow> nat" where
  "flush_queue_max_bytes c = unwrap_or (cfg_flush_queue_max_bytes c) DEFAULT_FLUSH_QUEUE_MAX_BYTES"

definition reject_zero :: "nat option \<Rightarrow> unit res" where
  "reject_zero v = (if v \<noteq> Some 0 then Inr () else Inl (Err InvalidInput))"

definition validate :: "config \<Rightarrow> unit res" where
  "validate c =
     (if dir c = [] then Inl (Err InvalidInput)
      else res_bind (reject_zero (cfg_read_buffer_size c)) (\<lambda>_.
           res_bind (reject_zero (cfg_chunk_max_records c)) (\<lambda>_.
           res_bind (reject_zero (cfg_chunk_max_size c)) (\<lambda>_.
           res_bind (reject_zero (cfg_flush_batch_max_items c)) (\<lambda>_.
           res_bind (reject_zero (cfg_flush_queue_max_bytes c)) (\<lambda>_.
             if read_buffer_size c > MAX_READ_BUFFER_SIZE then Inl (Err InvalidInput)
             else Inr ()))))))"

lemmas getter_defs =
  read_buffer_size_def chunk_max_records_def chunk_max_size_def truncate_incomplete_record_def
  flush_batch_wait_def flush_batch_max_items_def flush_queue_max_bytes_def unwrap_or_def

lemmas default_defs =
  DEFAULT_READ_BUFFER_SIZE_def DEFAULT_FLUSH_BATCH_WAIT_def DEFAULT_FLUSH_BATCH_MAX_ITEMS_def
  DEFAULT_FLUSH_QUEUE_MAX_BYTES_def MAX_READ_BUFFER_SIZE_def

lemma reject_zero_cases: "reject_zero v = (case v of Some 0 \<Rightarrow> Inl (Err InvalidInput) | _ \<Rightarrow> Inr ())"
  by (auto simp: reject_zero_def split: option.split nat.split)

section \<open>Chunk file names\<close>

record invalid_chunk_file_name =
  bad_file_name :: string
  reason :: string

definition strip_suffix :: "string \<Rightarrow> string \<Rightarrow> string option" where
  "strip_suffix suf s =
     (if suffix suf s then Some (take (length s - length suf) s) else None)"

definition strip_prefix :: "string \<Rightarrow> string \<Rightarrow> string option" where
  "strip_prefix pre s = (if prefix pre s then Some (drop (length pre) s) else None)"

definition chunk_file_name :: "chunk_id \<Rightarrow> string" where
  "chunk_file_name cid = ''r-'' @ format_pad_u64 (offset cid) @ ''.wal''"

definition chunk_path :: "config \<Rightarrow> chunk_id \<Rightarrow> string" where
  "chunk_path c cid = dir c @ ''/'' @ chunk_file_name cid"

definition parse_int_error_display :: "parse_int_error \<Rightarrow> string" where
  "parse_int_error_display e =
     (case e of Empty \<Rightarrow> ''cannot parse integer from empty string''
      | PosOverflow \<Rightarrow> ''number too large to fit in target type'')"

definition parse_chunk_file_name :: "string \<Rightarrow> invalid_chunk_file_name + nat" where
  "parse_chunk_file_name file_name =
     (case strip_suffix ''.wal'' file_name of
        None \<Rightarrow> Inl \<lparr> bad_file_name = file_name, reason = ''has no '' @ [CHR 0x27] @ ''.wal'' @ [CHR 0x27] @ '' suffix'' \<rparr>
      | Some without_suffix \<Rightarrow>
         (case strip_prefix ''r-'' without_suffix of
            None \<Rightarrow> Inl \<lparr> bad_file_name = file_name, reason = ''has no '' @ [CHR 0x27] @ ''r-'' @ [CHR 0x27] @ '' prefix'' \<rparr>
          | Some without_prefix \<Rightarrow>
             if length without_prefix \<noteq> 26 then
               Inl \<lparr> bad_file_name = file_name,
                     reason = ''does not have 26 digit after '' @ [CHR 0x27] @ ''r-'' @ [CHR 0x27] @ '' prefix'' \<rparr>
             else
               (let digits = filter is_ascii_digit without_prefix
                in case parse_u64 digits of
                     Inr n \<Rightarrow> Inr n
                   | Inl e \<Rightarrow> Inl \<lparr> bad_file_name = file_name,
                       reason = ''cannot parse as u64: '' @ parse_int_error_display e \<rparr>)))"

lemma strip_suffix_append [simp]: "strip_suffix suf (s @ suf) = Some s"
  by (simp add: strip_suffix_def suffix_def)

lemma strip_prefix_append [simp]: "strip_prefix pre (pre @ s) = Some s"
  by (simp add: strip_prefix_def)

lemma parse_chunk_file_name_wrap:
  "parse_chunk_file_name (''r-'' @ body @ ''.wal'') =
     (if length body \<noteq> 26 then
        Inl \<lparr> bad_file_name = ''r-'' @ body @ ''.wal'',
              reason = ''does not have 26 digit after '' @ [CHR 0x27] @ ''r-'' @ [CHR 0x27] @ '' prefix'' \<rparr>
      else case parse_u64 (filter is_ascii_digit body) of
             Inr n \<Rightarrow> Inr n
           | Inl e \<Rightarrow> Inl \<lparr> bad_file_name = ''r-'' @ body @ ''.wal'',
               reason = ''cannot parse as u64: '' @ parse_int_error_display e \<rparr>)"
  using strip_suffix_append [of "''.wal''" "''r-'' @ body"] strip_prefix_append [of "''r-''" body]
  by (auto simp: parse_chunk_file_name_def Let_def split: sum.splits)

lemma strip_suffix_Some: "strip_suffix suf s = Some t \<longleftrightarrow> s = t @ suf"
  by (auto simp: strip_suffix_def suffix_def)

lemma strip_prefix_Some: "strip_prefix pre s = Some t \<longleftrightarrow> s = pre @ t"
  by (auto simp: strip_prefix_def prefix_def)

lemma parse_generated_name [simp]:
  "offset cid < 2 ^ 64 \<Longrightarrow> parse_chunk_file_name (chunk_file_name cid) = Inr (offset cid)"
  by (simp add: chunk_file_name_def parse_chunk_file_name_wrap length_format_pad_u64
      parse_u64_zero_padded del: append.simps)

lemma slash_not_in_name: "CHR ''/'' \<notin> set (chunk_file_name cid)"
  using set_format_pad_u64 [of "offset cid"] by (auto simp: chunk_file_name_def is_ascii_digit_def)

section \<open>Properties\<close>

text \<open>
  C36. Round trip of chunk file names: parsing the file name that is generated for a chunk
  returns the offset the chunk is identified by, for every 64-bit offset.
\<close>

theorem parse_chunk_file_name_roundtrip:
  assumes "offset cid < 2 ^ 64"
  shows "parse_chunk_file_name (chunk_file_name cid) = Inr (offset cid)"
  using assms by (rule parse_generated_name)

theorem parse_chunk_file_name_roundtrip_witness:
  "parse_chunk_file_name (chunk_file_name (ChunkId 1200000)) = Inr 1200000"
  using parse_chunk_file_name_roundtrip [of "ChunkId 1200000"] by simp

lemma chunk_file_name_inject:
  assumes "offset a < 2 ^ 64" and "offset b < 2 ^ 64" and "chunk_file_name a = chunk_file_name b"
  shows "a = b"
proof -
  have "zero_padded (offset a) 20 = zero_padded (offset b) 20"
    using assms(3) digits_of_format_pad_u64 by (metis append_same_eq chunk_file_name_def same_append_eq)
  then have "offset a = offset b" by (metis dec_value_zero_padded)
  then show ?thesis by simp
qed

lemma chunk_path_eq_iff:
  assumes "offset a < 2 ^ 64" and "offset b < 2 ^ 64"
  shows "chunk_path c a = chunk_path c b \<longleftrightarrow> a = b"
  using assms chunk_file_name_inject [of a b] by (auto simp: chunk_path_def)

text \<open>
  Distinct chunks never share a file: within one directory the path of a chunk determines
  the chunk.
\<close>

theorem chunk_path_injective:
  assumes "offset a < 2 ^ 64" and "offset b < 2 ^ 64"
  shows "chunk_path c a = chunk_path c b \<longleftrightarrow> a = b"
  using assms by (rule chunk_path_eq_iff)

theorem chunk_path_injective_witness:
  "chunk_path (config_new ''wal-dir'') (ChunkId 0) \<noteq> chunk_path (config_new ''wal-dir'') (ChunkId 64)"
  using chunk_path_injective [of "ChunkId 0" "ChunkId 64" "config_new ''wal-dir''"] by simp

text \<open>
  C37. What \<open>parse_chunk_file_name\<close> accepts, exactly: a prefix \<open>r-\<close>, a suffix \<open>.wal\<close> and 26
  bytes in between, whose decimal digits, all other bytes dropped, are a numeral of a 64-bit
  value. Everything else is an \<open>InvalidChunkFileName\<close> that carries the rejected name.
\<close>

theorem parse_chunk_file_name_iff:
  "(parse_chunk_file_name f = Inr n \<longleftrightarrow>
     (\<exists>body. f = ''r-'' @ body @ ''.wal'' \<and> length body = 26 \<and>
        filter is_ascii_digit body \<noteq> [] \<and> n = dec_value (filter is_ascii_digit body) \<and> n < 2 ^ 64))
   \<and> ((\<exists>m. parse_chunk_file_name f = Inr m) \<or>
        (\<exists>e. parse_chunk_file_name f = Inl e \<and> bad_file_name e = f))"
proof (intro conjI)
  show "parse_chunk_file_name f = Inr n \<longleftrightarrow>
     (\<exists>body. f = ''r-'' @ body @ ''.wal'' \<and> length body = 26 \<and>
        filter is_ascii_digit body \<noteq> [] \<and> n = dec_value (filter is_ascii_digit body) \<and> n < 2 ^ 64)"
  proof (cases "\<exists>body. f = ''r-'' @ body @ ''.wal''")
    case True
    then obtain body where f: "f = ''r-'' @ body @ ''.wal''" by blast
    show ?thesis
      unfolding f parse_chunk_file_name_wrap by (auto simp: parse_u64_def split: if_splits)
  next
    case False
    then have "parse_chunk_file_name f \<noteq> Inr n"
      by (auto simp: parse_chunk_file_name_def strip_suffix_Some strip_prefix_Some
          simp del: append.simps split: option.splits)
    with False show ?thesis by blast
  qed
next
  show "(\<exists>m. parse_chunk_file_name f = Inr m) \<or>
        (\<exists>e. parse_chunk_file_name f = Inl e \<and> bad_file_name e = f)"
    by (auto simp: parse_chunk_file_name_def Let_def split: option.splits if_splits sum.splits)
qed

text \<open>
  File names are not canonical: a name with a letter among the 26 bytes is accepted as the
  chunk it would be without the letter, although no chunk is ever stored under it.
\<close>

theorem parse_accepts_foreign_name:
  "parse_chunk_file_name ''r-00_000_000_000_000_000_x00.wal'' = Inr 0 \<and>
   {cid. offset cid < 2 ^ 64 \<and> chunk_file_name cid = ''r-00_000_000_000_000_000_x00.wal''} = {}"
proof (intro conjI)
  have wrap: "''r-00_000_000_000_000_000_x00.wal'' = ''r-'' @ ''00_000_000_000_000_000_x00'' @ ''.wal''"
    by simp
  have digits: "filter is_ascii_digit ''00_000_000_000_000_000_x00'' = replicate 19 (CHR ''0'')"
    by (simp add: is_ascii_digit_def eval_nat_numeral)
  show parse: "parse_chunk_file_name ''r-00_000_000_000_000_000_x00.wal'' = Inr 0"
    unfolding wrap parse_chunk_file_name_wrap digits
    by (simp add: parse_u64_def dec_value_pad [of 19 "[]", simplified] dec_value_def [of "[]"])
  have "False" if "chunk_file_name cid = ''r-00_000_000_000_000_000_x00.wal''" for cid
  proof -
    have "format_pad_u64 (offset cid) = ''00_000_000_000_000_000_x00''"
      using that unfolding chunk_file_name_def wrap by simp
    then have "zero_padded (offset cid) 20 = replicate 19 (CHR ''0'')"
      using digits_of_format_pad_u64 [of "offset cid"] digits by simp
    then have "length (zero_padded (offset cid) 20) = 19" by simp
    then show False by (simp add: zero_padded_def Let_def)
  qed
  then show "{cid. offset cid < 2 ^ 64 \<and> chunk_file_name cid = ''r-00_000_000_000_000_000_x00.wal''} = {}"
    by blast
qed

text \<open>
  C38. Validation accepts exactly the settings that can work: a directory is named, every size and
  count that is in effect is positive, and the read buffer is at most 1 GB. Every rejection is an
  \<open>InvalidInput\<close> error.
\<close>

theorem validate_iff:
  "(validate c = Inr () \<longleftrightarrow>
     dir c \<noteq> [] \<and> 0 < read_buffer_size c \<and> read_buffer_size c \<le> MAX_READ_BUFFER_SIZE \<and>
     0 < chunk_max_records c \<and> 0 < chunk_max_size c \<and>
     0 < flush_batch_max_items c \<and> 0 < flush_queue_max_bytes c)
   \<and> validate c \<in> {Inr (), Inl (Err InvalidInput)}"
proof -
  have pos: "reject_zero v = Inr () \<longleftrightarrow> 0 < unwrap_or v d" if "0 < d" for v d
    using that by (auto simp: reject_zero_def unwrap_or_def split: option.split)
  have cases: "reject_zero v = Inr () \<or> reject_zero v = Inl (Err InvalidInput)" for v
    by (simp add: reject_zero_def)
  have "validate c = Inr () \<longleftrightarrow>
     dir c \<noteq> [] \<and> reject_zero (cfg_read_buffer_size c) = Inr () \<and>
     read_buffer_size c \<le> MAX_READ_BUFFER_SIZE \<and>
     reject_zero (cfg_chunk_max_records c) = Inr () \<and> reject_zero (cfg_chunk_max_size c) = Inr () \<and>
     reject_zero (cfg_flush_batch_max_items c) = Inr () \<and> reject_zero (cfg_flush_queue_max_bytes c) = Inr ()"
    by (auto simp: validate_def res_bind_def split: sum.splits if_splits)
  moreover have "validate c \<in> {Inr (), Inl (Err InvalidInput)}"
    using cases by (auto simp: validate_def res_bind_def reject_zero_def split: sum.splits if_splits)
  ultimately show ?thesis
    using pos [of DEFAULT_READ_BUFFER_SIZE "cfg_read_buffer_size c"]
      pos [of "1024 * 1024" "cfg_chunk_max_records c"] pos [of "1024 * 1024 * 1024" "cfg_chunk_max_size c"]
      pos [of DEFAULT_FLUSH_BATCH_MAX_ITEMS "cfg_flush_batch_max_items c"]
      pos [of DEFAULT_FLUSH_QUEUE_MAX_BYTES "cfg_flush_queue_max_bytes c"]
    by (simp add: read_buffer_size_def chunk_max_records_def chunk_max_size_def
        flush_batch_max_items_def flush_queue_max_bytes_def DEFAULT_READ_BUFFER_SIZE_def
        DEFAULT_FLUSH_BATCH_MAX_ITEMS_def DEFAULT_FLUSH_QUEUE_MAX_BYTES_def)
qed

end
