(* ===== verification/Wal_Record.thy ===== *)
theory Wal_Record
  imports Config
begin

text \<open>
  \<open>src/wal/wal_record.rs\<close> with the type set of \<open>src/api/wal_types.rs\<close>: the two kinds of records
  and their encoding and decoding.

  The codecs of the user's action and checkpoint types and the checksum of the \<open>codeq\<close> crate are
  not part of the repository. They are the parameter \<open>W\<close> of every definition; what the code relies
  on is stated by the locales \<open>codec\<close>, \<open>action_codec\<close> and \<open>checksum\<close>. The locale \<open>record_codec\<close> is
  the interface the chunk components use, and \<open>WALRecord\<close> implements it (\<open>sublocale\<close> below).
\<close>

section \<open>The type set of a WAL\<close>

text \<open>
  \<open>c_encode\<close> returns the bytes handed to the writer and the result: an encoder that fails may have
  written some bytes already. \<open>c_decode\<close> returns the value and the number of bytes it consumed.
\<close>

record 'a codec =
  c_encode :: "'a \<Rightarrow> byte list \<times> (error_kind + nat)"
  c_decode :: "byte list \<Rightarrow> error_kind + ('a \<times> nat)"
  c_type_id :: "'a \<Rightarrow> nat option"

text \<open>
  \<open>ck_write d\<close> is what \<open>write_checksum\<close> emits after the bytes \<open>d\<close> went through the checksum writer;
  \<open>ck_verify d bs\<close> is \<open>verify_checksum\<close> with the input \<open>bs\<close> left, after \<open>d\<close> was read.
\<close>

record checksum_api =
  ck_write :: "byte list \<Rightarrow> byte list \<times> (error_kind + nat)"
  ck_verify :: "byte list \<Rightarrow> byte list \<Rightarrow> error_kind + nat"

record ('a, 'c) wal_types =
  w_action :: "'a codec"
  w_checkpoint :: "'c codec"
  w_checksum :: checksum_api

datatype ('a, 'c) wal_record = Action 'a | Checkpoint 'c

definition CHECKPOINT_RECORD_TYPE :: nat where
  "CHECKPOINT_RECORD_TYPE = 5"

section \<open>Encoding and decoding\<close>

fun wal_encode ::
    "('a, 'c) wal_types \<Rightarrow> ('a, 'c) wal_record \<Rightarrow> byte list \<times> (error_kind + nat)" where
  "wal_encode W (Action action) =
     (case c_type_id (w_action W) action of
        None \<Rightarrow> ([], Inl InvalidInput)
      | Some type_id \<Rightarrow>
          if type_id = CHECKPOINT_RECORD_TYPE then ([], Inl InvalidInput)
          else c_encode (w_action W) action)"
| "wal_encode W (Checkpoint checkpoint) =
     (let h = be_u32 CHECKPOINT_RECORD_TYPE
      in case c_encode (w_checkpoint W) checkpoint of
           (bs, Inl e) \<Rightarrow> (h @ bs, Inl e)
         | (bs, Inr n) \<Rightarrow>
            (case ck_write (w_checksum W) (h @ bs) of
               (cs, Inl e) \<Rightarrow> (h @ bs @ cs, Inl e)
             | (cs, Inr m) \<Rightarrow> (h @ bs @ cs, Inr (4 + n + m))))"

text \<open>
  Decoding reads four bytes, chains them back in front of the reader and hands the chain to the
  decoder of the action: of the underlying reader at least these four bytes are consumed, whatever
  the action's decoder reads.
\<close>

definition wal_decode ::
    "('a, 'c) wal_types \<Rightarrow> byte list \<Rightarrow> error_kind + (('a, 'c) wal_record \<times> nat)" where
  "wal_decode W bs =
     (if length bs < 4 then Inl UnexpectedEof
      else let type_id = be_nat (take 4 bs)
        in if type_id \<noteq> CHECKPOINT_RECORD_TYPE then
             (case c_decode (w_action W) bs of
                Inl e \<Rightarrow> Inl e
              | Inr (action, n) \<Rightarrow>
                 (case c_type_id (w_action W) action of
                    None \<Rightarrow> Inl InvalidData
                  | Some decoded_type_id \<Rightarrow>
                     if decoded_type_id \<noteq> type_id then Inl InvalidData
                     else Inr (Action action, max 4 n)))
           else
             (case c_decode (w_checkpoint W) (drop 4 bs) of
                Inl e \<Rightarrow> Inl e
              | Inr (checkpoint, n) \<Rightarrow>
                 (case ck_verify (w_checksum W) (take (4 + n) bs) (drop (4 + n) bs) of
                    Inl e \<Rightarrow> Inl e
                  | Inr m \<Rightarrow> Inr (Checkpoint checkpoint, 4 + n + m))))"

lemma wal_decode_consumes: "wal_decode W bs = Inr (r, n) \<Longrightarrow> 4 \<le> n \<and> 4 \<le> length bs"
  by (auto simp: wal_decode_def Let_def split: if_splits sum.splits prod.splits option.splits)

text \<open>A record the encoder accepts, and its bytes.\<close>

definition encodable :: "('a, 'c) wal_types \<Rightarrow> ('a, 'c) wal_record \<Rightarrow> bool" where
  "encodable W r = (case snd (wal_encode W r) of Inl _ \<Rightarrow> False | Inr _ \<Rightarrow> True)"

definition bytes_of :: "('a, 'c) wal_types \<Rightarrow> ('a, 'c) wal_record \<Rightarrow> byte list" where
  "bytes_of W r = fst (wal_encode W r)"

definition log_bytes :: "('a, 'c) wal_types \<Rightarrow> ('a, 'c) wal_record list \<Rightarrow> byte list" where
  "log_bytes W rs = concat (map (bytes_of W) rs)"

lemma log_bytes_simps [simp]:
  "log_bytes W [] = []"
  "log_bytes W (r # rs) = bytes_of W r @ log_bytes W rs"
  "log_bytes W (rs @ ss) = log_bytes W rs @ log_bytes W ss"
  by (simp_all add: log_bytes_def)

lemma encodableE:
  assumes "encodable W r"
  obtains n where "wal_encode W r = (bytes_of W r, Inr n)"
  using assms by (cases "wal_encode W r") (auto simp: encodable_def bytes_of_def split: sum.splits)

section \<open>Contracts\<close>

text \<open>What a codec promises: it reads back what it wrote and reports a torn value as such.\<close>

locale codec =
  fixes C :: "'a codec"
  assumes enc_size: "c_encode C x = (bs, Inr n) \<Longrightarrow> n = length bs"
    and enc_dec: "c_encode C x = (bs, Inr n) \<Longrightarrow> c_decode C (bs @ rest) = Inr (x, length bs)"
    and torn: "c_encode C x = (bs, Inr n) \<Longrightarrow> strict_prefix p bs \<Longrightarrow> c_decode C p = Inl UnexpectedEof"
    and consumed: "c_decode C bs = Inr (x, n) \<Longrightarrow> n \<le> length bs"

text \<open>The encoding of an action starts with the type id it reports.\<close>

locale action_codec = codec C for C :: "'a codec" +
  assumes leading_type_id: "c_encode C x = (bs, Inr n) \<Longrightarrow> c_type_id C x = Some t \<Longrightarrow>
    4 \<le> length bs \<and> be_nat (take 4 bs) = t"

locale checksum =
  fixes K :: checksum_api
  assumes write_ok: "\<exists>bs. ck_write K d = (bs, Inr (length bs))"
    and verify_iff: "ck_verify K d bs = Inr m \<longleftrightarrow>
      (\<exists>rest. bs = fst (ck_write K d) @ rest \<and> m = length (fst (ck_write K d)))"
    and verify_torn: "strict_prefix p (fst (ck_write K d)) \<Longrightarrow> ck_verify K d p = Inl UnexpectedEof"

locale wal_types =
  fixes W :: "('a, 'c) wal_types"
  assumes action_law: "action_codec (w_action W)"
    and checkpoint_law: "codec (w_checkpoint W)"
    and checksum_law: "checksum (w_checksum W)"

text \<open>The interface of the records to the chunk components.\<close>

locale record_codec =
  fixes enc :: "'r \<Rightarrow> byte list \<times> (error_kind + nat)"
    and dec :: "byte list \<Rightarrow> error_kind + ('r \<times> nat)"
  assumes rec_size: "enc r = (bs, Inr n) \<Longrightarrow> n = length bs"
    and rec_enc_dec: "enc r = (bs, Inr n) \<Longrightarrow> dec (bs @ rest) = Inr (r, length bs)"
    and rec_torn: "enc r = (bs, Inr n) \<Longrightarrow> strict_prefix p bs \<Longrightarrow> dec p = Inl UnexpectedEof"
    and rec_consumes: "dec bs = Inr (r, n) \<Longrightarrow> 4 \<le> n \<and> n \<le> length bs"
begin

lemma enc_nonempty: "enc r = (bs, Inr n) \<Longrightarrow> 4 \<le> length bs"
  using rec_enc_dec [of r bs n "[]"] rec_consumes by fastforce

text \<open>
  Encodings are prefix free: of two records whose bytes start the same input, both are the same.
\<close>

lemma enc_prefix_free:
  assumes "enc r = (bs, Inr n)" and "enc q = (cs, Inr m)" and "bs @ xs = cs @ ys"
  shows "r = q \<and> bs = cs"
  using rec_enc_dec [OF assms(1), of xs] rec_enc_dec [OF assms(2), of ys] assms(3)
  by (simp add: append_eq_append_conv)

end

section \<open>\<open>WALRecord\<close> meets the contract\<close>

context wal_types
begin

lemmas action_base = action_codec.axioms(1) [OF action_law]

lemma action_enc:
  assumes "wal_encode W (Action a) = (bs, Inr n)"
  obtains t where "c_type_id (w_action W) a = Some t" and "t \<noteq> CHECKPOINT_RECORD_TYPE"
    and "c_encode (w_action W) a = (bs, Inr n)"
  using assms by (auto split: option.splits if_splits)

lemma checkpoint_enc:
  assumes "wal_encode W (Checkpoint c) = (bs, Inr n)"
  obtains ps cs where "c_encode (w_checkpoint W) c = (ps, Inr (length ps))"
    and "ck_write (w_checksum W) (be_u32 CHECKPOINT_RECORD_TYPE @ ps) = (cs, Inr (length cs))"
    and "bs = be_u32 CHECKPOINT_RECORD_TYPE @ ps @ cs" and "n = 4 + length ps + length cs"
proof -
  obtain ps m where ps: "c_encode (w_checkpoint W) c = (ps, Inr m)"
    using assms by (auto simp: Let_def split: prod.splits sum.splits)
  with codec.enc_size [OF checkpoint_law] have m: "m = length ps" by blast
  obtain cs where cs: "ck_write (w_checksum W) (be_u32 CHECKPOINT_RECORD_TYPE @ ps) = (cs, Inr (length cs))"
    using checksum.write_ok [OF checksum_law] by blast
  show thesis using assms ps cs m that by (auto simp: Let_def)
qed

lemma wal_encode_size: "wal_encode W r = (bs, Inr n) \<Longrightarrow> n = length bs"
proof (cases r)
  case (Action a)
  then show "wal_encode W r = (bs, Inr n) \<Longrightarrow> n = length bs"
    using codec.enc_size [OF action_base] by (auto elim: action_enc simp del: wal_encode.simps)
next
  case (Checkpoint c)
  then show "wal_encode W r = (bs, Inr n) \<Longrightarrow> n = length bs"
    by (auto elim: checkpoint_enc simp del: wal_encode.simps)
qed

lemma action_dec:
  assumes "wal_encode W (Action a) = (bs, Inr n)"
  shows "wal_decode W (bs @ rest) = Inr (Action a, length bs)"
proof -
  obtain t where t: "c_type_id (w_action W) a = Some t" "t \<noteq> CHECKPOINT_RECORD_TYPE"
      "c_encode (w_action W) a = (bs, Inr n)"
    using assms by (rule action_enc)
  then have "4 \<le> length bs \<and> be_nat (take 4 bs) = t"
    using action_codec.leading_type_id [OF action_law] by blast
  moreover have "c_decode (w_action W) (bs @ rest) = Inr (a, length bs)"
    by (rule codec.enc_dec [OF action_base t(3)])
  ultimately show ?thesis using t by (simp add: wal_decode_def)
qed

lemma action_torn:
  assumes "wal_encode W (Action a) = (bs, Inr n)" and "strict_prefix p bs"
  shows "wal_decode W p = Inl UnexpectedEof"
proof (cases "length p < 4")
  case True
  then show ?thesis by (simp add: wal_decode_def)
next
  case False
  obtain t where t: "c_type_id (w_action W) a = Some t" "t \<noteq> CHECKPOINT_RECORD_TYPE"
      "c_encode (w_action W) a = (bs, Inr n)"
    using assms(1) by (rule action_enc)
  then have "be_nat (take 4 bs) = t"
    using action_codec.leading_type_id [OF action_law] by blast
  moreover have "take 4 p = take 4 bs"
    using False assms(2) by (auto simp: strict_prefix_def prefix_def)
  moreover have "c_decode (w_action W) p = Inl UnexpectedEof"
    by (rule codec.torn [OF action_base t(3) assms(2)])
  ultimately show ?thesis using t False by (simp add: wal_decode_def)
qed

lemma checkpoint_dec:
  assumes "wal_encode W (Checkpoint c) = (bs, Inr n)"
  shows "wal_decode W (bs @ rest) = Inr (Checkpoint c, length bs)"
proof -
  obtain ps cs where ps: "c_encode (w_checkpoint W) c = (ps, Inr (length ps))"
      and cs: "ck_write (w_checksum W) (be_u32 CHECKPOINT_RECORD_TYPE @ ps) = (cs, Inr (length cs))"
      and bs: "bs = be_u32 CHECKPOINT_RECORD_TYPE @ ps @ cs"
    using assms by (rule checkpoint_enc)
  have d: "c_decode (w_checkpoint W) (ps @ cs @ rest) = Inr (c, length ps)"
    using codec.enc_dec [OF checkpoint_law ps] by simp
  have v: "ck_verify (w_checksum W) (be_u32 CHECKPOINT_RECORD_TYPE @ ps) (cs @ rest) = Inr (length cs)"
    using checksum.verify_iff [OF checksum_law] cs by auto
  show ?thesis
    using d v by (simp add: wal_decode_def bs CHECKPOINT_RECORD_TYPE_def)
qed

lemma checkpoint_torn:
  assumes "wal_encode W (Checkpoint c) = (bs, Inr n)" and "strict_prefix p bs"
  shows "wal_decode W p = Inl UnexpectedEof"
proof (cases "length p < 4")
  case True
  then show ?thesis by (simp add: wal_decode_def)
next
  case False
  let ?h = "be_u32 CHECKPOINT_RECORD_TYPE"
  obtain ps cs where ps: "c_encode (w_checkpoint W) c = (ps, Inr (length ps))"
      and cs: "ck_write (w_checksum W) (?h @ ps) = (cs, Inr (length cs))"
      and bs: "bs = ?h @ ps @ cs"
    using assms(1) by (rule checkpoint_enc)
  define q where "q = drop 4 p"
  have "take 4 bs = take 4 p"
    using assms(2) False by (auto simp: strict_prefix_def prefix_def)
  then have p4: "take 4 p = ?h" by (simp add: bs)
  then have p: "p = ?h @ q" by (metis append_take_drop_id q_def)
  have q: "strict_prefix q (ps @ cs)"
    using assms(2) unfolding bs p by (simp add: strict_prefix_def)
  have hd: "be_nat (take 4 p) = CHECKPOINT_RECORD_TYPE" "length p \<ge> 4"
    by (simp_all add: p CHECKPOINT_RECORD_TYPE_def)
  consider "strict_prefix q ps" | q' where "q = ps @ q'" "strict_prefix q' cs"
  proof (cases "q = ps")
    case True
    then show thesis using q that(2) [of "[]"] by (auto simp: strict_prefix_def)
  next
    case False
    then show thesis using q that by (auto simp: strict_prefix_def prefix_append)
  qed
  then show ?thesis
  proof cases
    case 1
    then have "c_decode (w_checkpoint W) q = Inl UnexpectedEof"
      using codec.torn [OF checkpoint_law ps] by blast
    with hd show ?thesis by (simp add: wal_decode_def p)
  next
    case 2
    have "c_decode (w_checkpoint W) q = Inr (c, length ps)"
      using codec.enc_dec [OF checkpoint_law ps] 2 by simp
    moreover have "ck_verify (w_checksum W) (?h @ ps) q' = Inl UnexpectedEof"
      using checksum.verify_torn [OF checksum_law] cs 2 by simp
    ultimately show ?thesis using hd 2 by (simp add: wal_decode_def p)
  qed
qed

lemma wal_decode_bounds:
  assumes "wal_decode W bs = Inr (r, n)"
  shows "4 \<le> n \<and> n \<le> length bs"
proof -
  have len: "4 \<le> n" "4 \<le> length bs" using wal_decode_consumes [OF assms] by auto
  show ?thesis
  proof (cases r)
    case (Action a)
    then obtain m where "c_decode (w_action W) bs = Inr (a, m)" and "n = max 4 m"
      using assms by (auto simp: wal_decode_def Let_def split: if_splits sum.splits option.splits)
    then show ?thesis
      using len codec.consumed [OF action_base] by fastforce
  next
    case (Checkpoint c)
    then obtain m k where m: "c_decode (w_checkpoint W) (drop 4 bs) = Inr (c, m)"
      and k: "ck_verify (w_checksum W) (take (4 + m) bs) (drop (4 + m) bs) = Inr k"
      and n: "n = 4 + m + k"
      using assms by (auto simp: wal_decode_def Let_def split: if_splits sum.splits option.splits)
    have "k \<le> length (drop (4 + m) bs)"
      using checksum.verify_iff [OF checksum_law, THEN iffD1, OF k]
      by (auto simp del: length_drop)
    moreover have "m \<le> length (drop 4 bs)" using codec.consumed [OF checkpoint_law m] .
    ultimately show ?thesis using len n by simp
  qed
qed

end

sublocale wal_types \<subseteq> rec: record_codec "wal_encode W" "wal_decode W"
proof unfold_locales
  show "n = length bs" if "wal_encode W r = (bs, Inr n)" for r bs n
    using that by (rule wal_encode_size)
  show "wal_decode W (bs @ rest) = Inr (r, length bs)" if "wal_encode W r = (bs, Inr n)" for r bs n rest
    using that by (cases r) (auto intro: action_dec checkpoint_dec simp del: wal_encode.simps)
  show "wal_decode W p = Inl UnexpectedEof"
    if "wal_encode W r = (bs, Inr n)" "strict_prefix p bs" for r bs n p
    using that by (cases r) (auto intro: action_torn checkpoint_torn simp del: wal_encode.simps)
  show "4 \<le> n \<and> n \<le> length bs" if "wal_decode W bs = Inr (r, n)" for bs r n
    using that by (rule wal_decode_bounds)
qed

end
