(* ===== verification/Test_Wal.thy ===== *)
theory Test_Wal
  imports Wal_Record
begin

unbundle bit_operations_syntax

text \<open>
  A concrete type set, the one the repository's own tests run with (\<open>TestWal\<close> in
  \<open>src/tests/common/mod.rs\<close> and in the unit tests of \<open>src/src/wal/wal_record.rs\<close>): an action is a
  type id \<open>1\<close> and a length-prefixed string, a checkpoint a length-prefixed string, and checkpoints
  carry a CRC-32. It interprets the codec contracts and is the instance at which the witnesses of
  the properties are evaluated. A string is the list of its bytes.
\<close>

section \<open>CRC-32\<close>

definition crc_step :: "nat \<Rightarrow> nat" where
  "crc_step c = (if odd c then (c div 2) XOR 0xEDB88320 else c div 2)"

definition crc_byte :: "nat \<Rightarrow> byte \<Rightarrow> nat" where
  "crc_byte c b = crc_step (crc_step (crc_step (crc_step (crc_step (crc_step (crc_step (crc_step
     (c XOR unat b))))))))"

definition crc32 :: "byte list \<Rightarrow> nat" where
  "crc32 bs = foldl crc_byte 0xFFFFFFFF bs XOR 0xFFFFFFFF"

definition crc_checksum_bytes :: "byte list \<Rightarrow> byte list" where
  "crc_checksum_bytes d = [0, 0, 0, 0] @ be_u32 (crc32 d)"

definition test_checksum :: checksum_api where
  "test_checksum =
     \<lparr> ck_write = (\<lambda>d. (crc_checksum_bytes d, Inr 8)),
       ck_verify = (\<lambda>d bs. if length bs < 8 then Inl UnexpectedEof
         else if take 8 bs = crc_checksum_bytes d then Inr 8 else Inl InvalidData) \<rparr>"

section \<open>Length-prefixed strings\<close>

definition str_encode :: "byte list \<Rightarrow> byte list \<times> (error_kind + nat)" where
  "str_encode s = (if length s < 2 ^ 32 then (be_u32 (length s) @ s, Inr (4 + length s))
                   else ([], Inl InvalidInput))"

definition str_decode :: "byte list \<Rightarrow> error_kind + (byte list \<times> nat)" where
  "str_decode bs =
     (if length bs < 4 then Inl UnexpectedEof
      else let n = be_nat (take 4 bs) in
        if length bs < 4 + n then Inl UnexpectedEof else Inr (take n (drop 4 bs), 4 + n))"

definition TEST_ACTION_TYPE :: nat where
  "TEST_ACTION_TYPE = 1"

text \<open>One string fails to encode after its bytes were written, as in the unit tests.\<close>

definition FAILS_TO_ENCODE :: "byte list" where
  "FAILS_TO_ENCODE = [255]"

definition test_action :: "byte list codec" where
  "test_action =
     \<lparr> c_encode = (\<lambda>s. if s = FAILS_TO_ENCODE
         then (be_u32 TEST_ACTION_TYPE @ fst (str_encode s), Inl InvalidInput)
         else case str_encode s of
           (bs, Inl e) \<Rightarrow> (be_u32 TEST_ACTION_TYPE @ bs, Inl e)
         | (bs, Inr n) \<Rightarrow> (be_u32 TEST_ACTION_TYPE @ bs, Inr (4 + n))),
       c_decode = (\<lambda>bs. if length bs < 4 then Inl UnexpectedEof
         else if be_nat (take 4 bs) \<noteq> TEST_ACTION_TYPE then Inl InvalidData
         else case str_decode (drop 4 bs) of
           Inl e \<Rightarrow> Inl e | Inr (s, n) \<Rightarrow> Inr (s, 4 + n)),
       c_type_id = (\<lambda>_. Some TEST_ACTION_TYPE) \<rparr>"

definition test_checkpoint :: "byte list codec" where
  "test_checkpoint = \<lparr> c_encode = str_encode, c_decode = str_decode, c_type_id = (\<lambda>_. None) \<rparr>"

definition test_wal :: "(byte list, byte list) wal_types" where
  "test_wal = \<lparr> w_action = test_action, w_checkpoint = test_checkpoint, w_checksum = test_checksum \<rparr>"

lemmas test_wal_defs =
  test_wal_def test_action_def test_checkpoint_def test_checksum_def str_encode_def str_decode_def
  FAILS_TO_ENCODE_def TEST_ACTION_TYPE_def

section \<open>The contracts hold\<close>

lemma length_crc_checksum_bytes [simp]: "length (crc_checksum_bytes d) = 8"
  by (simp add: crc_checksum_bytes_def)

lemma str_encode_Inr: "str_encode s = (bs, Inr n) \<longleftrightarrow>
    length s < 2 ^ 32 \<and> bs = be_u32 (length s) @ s \<and> n = 4 + length s"
  by (auto simp: str_encode_def)

lemma str_torn:
  assumes "length s < 2 ^ 32" and "strict_prefix p (be_u32 (length s) @ s)"
  shows "str_decode p = Inl UnexpectedEof"
proof (cases "length p < 4")
  case True
  then show ?thesis by (simp add: str_decode_def)
next
  case False
  have len: "length p < 4 + length s" and tk: "p = take (length p) (be_u32 (length s) @ s)"
    using strict_prefixE_take [OF assms(2)] by simp_all
  have "take 4 p = be_u32 (length s)"
    using False by (subst tk) simp
  with len False assms(1) show ?thesis by (simp add: str_decode_def)
qed

interpretation test_str: codec test_checkpoint
  by unfold_locales
     (auto simp: test_checkpoint_def str_encode_Inr str_torn, simp_all add: str_decode_def Let_def split: if_splits)

interpretation test_act: action_codec test_action
proof unfold_locales
  fix s bs n rest p t
  show "n = length bs" if "c_encode test_action s = (bs, Inr n)"
    using that by (auto simp: test_action_def str_encode_def split: if_splits)
  show "c_decode test_action (bs @ rest) = Inr (s, length bs)"
    if "c_encode test_action s = (bs, Inr n)"
    using that test_str.enc_dec [of s]
    by (auto simp: test_action_def test_checkpoint_def TEST_ACTION_TYPE_def split: if_splits prod.splits sum.splits)
  show "n \<le> length bs" if "c_decode test_action bs = Inr (s, n)"
    using that test_str.consumed [of "drop 4 bs" s]
    by (auto simp: test_action_def test_checkpoint_def split: if_splits sum.splits prod.splits)
  show "4 \<le> length bs \<and> be_nat (take 4 bs) = t"
    if "c_encode test_action s = (bs, Inr n)" "c_type_id test_action s = Some t"
    using that by (auto simp: test_action_def TEST_ACTION_TYPE_def split: if_splits prod.splits sum.splits)
  show "c_decode test_action p = Inl UnexpectedEof"
    if enc: "c_encode test_action s = (bs, Inr n)" and pre: "strict_prefix p bs"
  proof (cases "length p < 4")
    case True
    then show ?thesis by (simp add: test_action_def)
  next
    case False
    obtain ss m where ss: "str_encode s = (ss, Inr m)" and bs: "bs = be_u32 1 @ ss"
      using enc by (auto simp: test_action_def TEST_ACTION_TYPE_def split: if_splits prod.splits sum.splits)
    have tk: "p = take (length p) bs" and len: "length p < length bs"
      using strict_prefixE_take [OF pre] by simp_all
    have h: "take 4 p = be_u32 1" using False by (subst tk) (simp add: bs)
    then have p: "p = be_u32 1 @ drop 4 p" by (metis append_take_drop_id)
    have "strict_prefix (drop 4 p) ss"
      using pre unfolding bs by (subst (asm) p) (simp add: strict_prefix_def)
    then have "str_decode (drop 4 p) = Inl UnexpectedEof"
      using test_str.torn [of s ss m] ss by (simp add: test_checkpoint_def)
    then show ?thesis using False h by (simp add: test_action_def TEST_ACTION_TYPE_def)
  qed
qed

interpretation test_ck: checksum test_checksum
proof unfold_locales
  fix d bs p m
  show "\<exists>bs. ck_write test_checksum d = (bs, Inr (length bs))"
    by (simp add: test_checksum_def)
  show "ck_verify test_checksum d p = Inl UnexpectedEof"
    if "strict_prefix p (fst (ck_write test_checksum d))"
    using strict_prefixE_take(2) [OF that] by (simp add: test_checksum_def)
  show "ck_verify test_checksum d bs = Inr m \<longleftrightarrow>
      (\<exists>rest. bs = fst (ck_write test_checksum d) @ rest \<and> m = length (fst (ck_write test_checksum d)))"
    by (auto simp: test_checksum_def) (metis append_take_drop_id)
qed

lemma test_wal_ok [simp]: "wal_types test_wal"
  by (rule wal_types.intro)
     (simp_all add: test_wal_def test_act.action_codec_axioms test_str.codec_axioms test_ck.checksum_axioms)

interpretation test: wal_types test_wal
  by (rule test_wal_ok)

text \<open>
  The byte vectors of the unit tests: the encoding of the action \<open>vote\<close> and of the checkpoint
  \<open>state\<close> with its checksum.
\<close>

lemma test_vector_action:
  "wal_encode test_wal (Action [118, 111, 116, 101]) =
     ([0, 0, 0, 1, 0, 0, 0, 4, 118, 111, 116, 101], Inr 12)"
  by (simp add: test_wal_defs be_u32_def CHECKPOINT_RECORD_TYPE_def)

lemma test_vector_crc: "crc32 [0, 0, 0, 5, 0, 0, 0, 5, 115, 116, 97, 116, 101] = 3693164947"
  by (simp add: crc32_def crc_byte_def crc_step_def)

lemma test_vector_checkpoint:
  "wal_encode test_wal (Checkpoint [115, 116, 97, 116, 101]) =
     ([0, 0, 0, 5, 0, 0, 0, 5, 115, 116, 97, 116, 101, 0, 0, 0, 0, 220, 33, 57, 147], Inr 21)"
  by (simp add: test_wal_defs CHECKPOINT_RECORD_TYPE_def crc_checksum_bytes_def test_vector_crc be_u32_def)

end
