(* ===== verification/Record_Iterator.thy ===== *)
theory Record_Iterator
  imports Test_Wal
begin

text \<open>
  \<open>src/offset_reader.rs\<close> and \<open>src/chunk/record_iterator.rs\<close>: a reader that counts the bytes it
  handed out, and the iterator that decodes one record after the other from it. The main lemma
  (\<open>collect_log\<close>) says what the iterator yields on a file that holds encoded records and some tail.
\<close>

section \<open>Segments\<close>

record segment =
  seg_offset :: nat
  seg_size :: nat

definition Segment :: "nat \<Rightarrow> nat \<Rightarrow> segment" where
  "Segment off sz = \<lparr> seg_offset = off, seg_size = sz \<rparr>"

definition seg_end :: "segment \<Rightarrow> nat" where
  "seg_end s = u64_add (seg_offset s) (seg_size s)"

lemma Segment_sel [simp]: "seg_offset (Segment a b) = a" "seg_size (Segment a b) = b"
  by (simp_all add: Segment_def)

section \<open>The counting reader\<close>

text \<open>The inner reader is the list of the bytes that are left; a read returns what is available.\<close>

record offset_reader =
  inner :: "byte list"
  rd_offset :: nat

definition offset_reader_new :: "byte list \<Rightarrow> offset_reader" where
  "offset_reader_new bs = \<lparr> inner = bs, rd_offset = 0 \<rparr>"

definition offset_reader_read :: "nat \<Rightarrow> offset_reader \<Rightarrow> byte list \<times> offset_reader" where
  "offset_reader_read n r =
     (let buf = take n (inner r)
      in (buf, \<lparr> inner = drop n (inner r), rd_offset = rd_offset r + length buf \<rparr>))"

section \<open>The iterator\<close>

record record_iterator =
  reader :: offset_reader
  total_size :: nat
  it_chunk_id :: chunk_id
  it_error :: "error_kind option"

definition record_iterator_new :: "byte list \<Rightarrow> nat \<Rightarrow> chunk_id \<Rightarrow> record_iterator" where
  "record_iterator_new bs sz cid =
     \<lparr> reader = offset_reader_new bs, total_size = sz, it_chunk_id = cid, it_error = None \<rparr>"

definition iter_next :: "('a, 'c) wal_types \<Rightarrow> record_iterator \<Rightarrow>
    (error_kind + (segment \<times> ('a, 'c) wal_record)) option \<times> record_iterator" where
  "iter_next W it =
     (if it_error it \<noteq> None then (None, it)
      else let start = rd_offset (reader it)
        in if start = total_size it then (None, it)
           else case wal_decode W (inner (reader it)) of
                  Inl e \<Rightarrow> (Some (Inl e), it\<lparr>it_error := Some e\<rparr>)
                | Inr (r, n) \<Rightarrow>
                   (let rd = snd (offset_reader_read n (reader it))
                    in (Some (Inr (Segment start (rd_offset rd - start), r)), it\<lparr>reader := rd\<rparr>)))"

lemma iter_next_decreases:
  assumes "iter_next W it = (Some x, it')"
  shows "length (inner (reader it')) + (if it_error it' = None then 1 else 0) <
         length (inner (reader it)) + (if it_error it = None then 1 else (0::nat))"
proof (cases "wal_decode W (inner (reader it))")
  case (Inl e)
  then show ?thesis using assms
    by (auto simp: iter_next_def Let_def split: if_splits)
next
  case (Inr p)
  obtain r n where p: "p = (r, n)" by (cases p)
  then have "4 \<le> n" "4 \<le> length (inner (reader it))"
    using wal_decode_consumes Inr by blast+
  then show ?thesis using assms Inr p
    by (auto simp: iter_next_def Let_def offset_reader_read_def split: if_splits)
qed

text \<open>
  Running the iterator to its end. It stops: every record consumes at least four bytes, and after
  an error there is no next item.
\<close>

function iter_collect :: "('a, 'c) wal_types \<Rightarrow> record_iterator \<Rightarrow>
    (error_kind + (segment \<times> ('a, 'c) wal_record)) list" where
  "iter_collect W it =
     (case iter_next W it of (None, _) \<Rightarrow> [] | (Some x, it') \<Rightarrow> x # iter_collect W it')"
  by pat_completeness auto

termination
proof (relation "measure (\<lambda>(W, it). length (inner (reader it)) + (if it_error it = None then 1 else 0))",
    goal_cases)
  case 1
  then show ?case by simp
next
  case (2 W it x y x2)
  then have "iter_next W it = (Some x2, y)" by simp
  from iter_next_decreases [OF this] show ?case by (simp only: in_measure prod.case)
qed

declare iter_collect.simps [simp del]

section \<open>What it yields\<close>

text \<open>The records of a log with the segments they occupy from a start offset on.\<close>

fun located :: "('a, 'c) wal_types \<Rightarrow> nat \<Rightarrow> ('a, 'c) wal_record list \<Rightarrow>
    (segment \<times> ('a, 'c) wal_record) list" where
  "located W off [] = []"
| "located W off (r # rs) =
     (Segment off (length (bytes_of W r)), r) # located W (off + length (bytes_of W r)) rs"

definition iter_at :: "byte list \<Rightarrow> nat \<Rightarrow> nat \<Rightarrow> chunk_id \<Rightarrow> record_iterator" where
  "iter_at bs off tot cid =
     \<lparr> reader = \<lparr> inner = bs, rd_offset = off \<rparr>, total_size = tot, it_chunk_id = cid, it_error = None \<rparr>"

lemma record_iterator_new_at: "record_iterator_new bs sz cid = iter_at bs 0 sz cid"
  by (simp add: record_iterator_new_def iter_at_def offset_reader_new_def)

lemma map_snd_located [simp]: "map snd (located W off rs) = rs"
  by (induction rs arbitrary: off) auto

lemma length_located [simp]: "length (located W off rs) = length rs"
  by (induction rs arbitrary: off) auto

lemma collect_error_end: "it_error it = Some e \<Longrightarrow> iter_collect W it = []"
  by (subst iter_collect.simps) (simp add: iter_next_def)

lemma collect_done: "iter_collect W (iter_at bs off off cid) = []"
  by (subst iter_collect.simps) (simp add: iter_next_def iter_at_def)

lemma collect_bad:
  assumes "wal_decode W bs = Inl e" and "off \<noteq> tot"
  shows "iter_collect W (iter_at bs off tot cid) = [Inl e]"
  using assms
  by (subst iter_collect.simps) (simp add: iter_next_def iter_at_def collect_error_end)

context wal_types
begin

lemma bytes_of_decode:
  assumes "encodable W r"
  shows "wal_decode W (bytes_of W r @ rest) = Inr (r, length (bytes_of W r))"
    and "4 \<le> length (bytes_of W r)"
    and "wal_encode W r = (bytes_of W r, Inr (length (bytes_of W r)))"
proof -
  obtain n where enc: "wal_encode W r = (bytes_of W r, Inr n)" using assms by (rule encodableE)
  show "wal_decode W (bytes_of W r @ rest) = Inr (r, length (bytes_of W r))"
    by (rule rec.rec_enc_dec [OF enc])
  show "4 \<le> length (bytes_of W r)" by (rule rec.enc_nonempty [OF enc])
  show "wal_encode W r = (bytes_of W r, Inr (length (bytes_of W r)))"
    using enc rec.rec_size [OF enc] by simp
qed

lemma bytes_of_torn:
  "encodable W r \<Longrightarrow> strict_prefix p (bytes_of W r) \<Longrightarrow> wal_decode W p = Inl UnexpectedEof"
  using bytes_of_decode(3) rec.rec_torn by blast

lemma collect_record:
  assumes "encodable W r" and "off + length (bytes_of W r) \<le> tot"
  shows "iter_collect W (iter_at (bytes_of W r @ rest) off tot cid) =
    Inr (Segment off (length (bytes_of W r)), r)
      # iter_collect W (iter_at rest (off + length (bytes_of W r)) tot cid)"
  using assms bytes_of_decode [OF assms(1)]
  by (subst iter_collect.simps) (auto simp: iter_next_def iter_at_def Let_def offset_reader_read_def)

lemma collect_log:
  assumes "list_all (encodable W) rs" and "off + length (log_bytes W rs) \<le> tot"
  shows "iter_collect W (iter_at (log_bytes W rs @ tail) off tot cid) =
    map Inr (located W off rs) @ iter_collect W (iter_at tail (off + length (log_bytes W rs)) tot cid)"
  using assms
proof (induction rs arbitrary: off)
  case Nil
  then show ?case by simp
next
  case (Cons r rs)
  then show ?case
    using collect_record [of r off tot "log_bytes W rs @ tail" cid] by (simp add: add.assoc)
qed

text \<open>A file that holds whole records only, and one that ends in bytes no record decodes from.\<close>

lemma collect_whole:
  assumes "list_all (encodable W) rs"
  shows "iter_collect W (record_iterator_new (log_bytes W rs) (length (log_bytes W rs)) cid) =
    map Inr (located W 0 rs)"
  using collect_log [OF assms, of 0 "length (log_bytes W rs)" "[]" cid]
  by (simp add: record_iterator_new_at collect_done)

lemma collect_damaged:
  assumes "list_all (encodable W) rs" and "tail \<noteq> []" and "wal_decode W tail = Inl e"
  shows "iter_collect W (record_iterator_new (log_bytes W rs @ tail) (length (log_bytes W rs @ tail)) cid) =
    map Inr (located W 0 rs) @ [Inl e]"
  using collect_log [OF assms(1), of 0 "length (log_bytes W rs @ tail)" tail cid] assms(2,3)
  by (simp add: record_iterator_new_at collect_bad)

end

section \<open>The iterator ends\<close>

lemma iter_next_step:
  assumes "iter_next W it = (Some x, it')"
  shows "it_error it = None"
    and "case x of Inl e \<Rightarrow> it_error it' \<noteq> None
         | Inr _ \<Rightarrow> it_error it' = None \<and> length (inner (reader it')) + 4 \<le> length (inner (reader it))"
proof -
  show none: "it_error it = None" using assms by (auto simp: iter_next_def split: if_splits)
  show "case x of Inl e \<Rightarrow> it_error it' \<noteq> None
         | Inr _ \<Rightarrow> it_error it' = None \<and> length (inner (reader it')) + 4 \<le> length (inner (reader it))"
  proof (cases "wal_decode W (inner (reader it))")
    case (Inl e)
    then show ?thesis using assms none by (auto simp: iter_next_def Let_def split: if_splits)
  next
    case (Inr p)
    obtain r n where p: "p = (r, n)" by (cases p)
    then have "4 \<le> n" "4 \<le> length (inner (reader it))" using wal_decode_consumes Inr by blast+
    then show ?thesis using assms Inr p none
      by (auto simp: iter_next_def Let_def offset_reader_read_def split: if_splits)
  qed
qed

lemma iter_collect_bound:
  "4 * length (iter_collect W it) \<le> length (inner (reader it)) + (if it_error it = None then 4 else 0)"
proof (induction W it rule: iter_collect.induct)
  case (1 W it)
  show ?case
  proof (cases "iter_next W it")
    case (Pair r it')
    show ?thesis
    proof (cases r)
      case None
      then show ?thesis using Pair by (simp add: iter_collect.simps [of W it])
    next
      case (Some x)
      note st = iter_next_step [OF Pair [unfolded Some]]
      have "4 * length (iter_collect W it') \<le> length (inner (reader it')) + (if it_error it' = None then 4 else 0)"
        by (rule "1.IH" [OF Pair [symmetric] Some])
      moreover have "iter_collect W it = x # iter_collect W it'"
        using Pair Some by (simp add: iter_collect.simps [of W it])
      moreover have "iter_collect W it' = []" if "it_error it' \<noteq> None"
        using that collect_error_end by blast
      ultimately show ?thesis using st by (cases x) auto
    qed
  qed
qed

lemma iter_collect_errors_last:
  "list_all (\<lambda>x. \<exists>y. x = Inr y) (butlast (iter_collect W it))"
proof (induction W it rule: iter_collect.induct)
  case (1 W it)
  show ?case
  proof (cases "iter_next W it")
    case (Pair r it')
    show ?thesis
    proof (cases r)
      case (Some x)
      note st = iter_next_step [OF Pair [unfolded Some]]
      have it: "iter_collect W it = x # iter_collect W it'"
        using Pair Some by (simp add: iter_collect.simps [of W it])
      show ?thesis
      proof (cases x)
        case (Inl e)
        then have "iter_collect W it' = []" using st(2) collect_error_end by auto
        then show ?thesis using it by simp
      next
        case (Inr y)
        then show ?thesis using it "1.IH" [OF Pair [symmetric] Some] by simp
      qed
    qed (use Pair in \<open>simp add: iter_collect.simps [of W it]\<close>)
  qed
qed

section \<open>Properties of the records\<close>

text \<open>
  C15. Round trip of records: whatever follows it, an encoded record decodes to itself and to
  nothing more than its own bytes, and the size the encoder reports is the number of bytes it
  wrote, at least four.
\<close>

theorem wal_record_roundtrip:
  assumes "wal_types W" and "encodable W r"
  shows "wal_decode W (bytes_of W r @ rest) = Inr (r, length (bytes_of W r)) \<and>
    wal_encode W r = (bytes_of W r, Inr (length (bytes_of W r))) \<and> 4 \<le> length (bytes_of W r)"
  using wal_types.bytes_of_decode [OF assms] by simp

lemma encodable_vote: "encodable test_wal (Action [118, 111, 116, 101])"
  by (simp add: encodable_def test_vector_action del: wal_encode.simps)

lemma encodable_state: "encodable test_wal (Checkpoint [115, 116, 97, 116, 101])"
  by (simp add: encodable_def test_vector_checkpoint del: wal_encode.simps)

theorem wal_record_roundtrip_witness:
  "wal_decode test_wal ([0, 0, 0, 1, 0, 0, 0, 4, 118, 111, 116, 101] @ [0, 0]) =
     Inr (Action [118, 111, 116, 101], 12)"
  using wal_record_roundtrip [OF test_wal_ok encodable_vote, of "[0, 0]"]
  by (simp add: bytes_of_def test_vector_action del: wal_encode.simps)

text \<open>
  C16. A torn record is recognised: every proper prefix of an encoded record, of a checkpoint as of
  an action, is reported as \<open>UnexpectedEof\<close>, the one error kind that recovery truncates at.
\<close>

theorem wal_record_torn:
  assumes "wal_types W" and "encodable W r" and "strict_prefix p (bytes_of W r)"
  shows "wal_decode W p = Inl UnexpectedEof"
  using assms by (rule wal_types.bytes_of_torn)

theorem wal_record_torn_witness:
  "wal_decode test_wal (take 20 [0, 0, 0, 5, 0, 0, 0, 5, 115, 116, 97, 116, 101, 0, 0, 0, 0, 220, 33, 57, 147]) =
     Inl UnexpectedEof"
proof -
  let ?b = "[0, 0, 0, 5, 0, 0, 0, 5, 115, 116, 97, 116, 101, 0, 0, 0, 0, 220, 33, 57, 147] :: byte list"
  have b: "bytes_of test_wal (Checkpoint [115, 116, 97, 116, 101]) = ?b"
    by (simp add: bytes_of_def test_vector_checkpoint del: wal_encode.simps)
  have "strict_prefix (take 20 ?b) ?b" by (rule strict_prefix_take) simp
  then show ?thesis by (rule wal_record_torn [OF test_wal_ok encodable_state, unfolded b])
qed

text \<open>
  C32. Checkpoint integrity: bytes are accepted as a checkpoint only when they start with the
  reserved type and the checksum behind the payload is the checksum of type and payload.
\<close>

theorem checkpoint_integrity:
  assumes "wal_types W" and "wal_decode W bs = Inr (Checkpoint c, n)"
  shows "\<exists>k. be_nat (take 4 bs) = CHECKPOINT_RECORD_TYPE \<and>
    c_decode (w_checkpoint W) (drop 4 bs) = Inr (c, k) \<and>
    take n bs = take (4 + k) bs @ fst (ck_write (w_checksum W) (take (4 + k) bs))"
proof -
  have ck: "checksum (w_checksum W)" using assms(1) by (rule wal_types.checksum_law)
  obtain k m where ty: "be_nat (take 4 bs) = CHECKPOINT_RECORD_TYPE"
    and k: "c_decode (w_checkpoint W) (drop 4 bs) = Inr (c, k)"
    and m: "ck_verify (w_checksum W) (take (4 + k) bs) (drop (4 + k) bs) = Inr m"
    and n: "n = 4 + k + m"
    using assms(2) by (auto simp: wal_decode_def Let_def split: if_splits sum.splits option.splits)
  have "take m (drop (4 + k) bs) = fst (ck_write (w_checksum W) (take (4 + k) bs))"
    using checksum.verify_iff [OF ck, THEN iffD1, OF m] by auto
  then show ?thesis using ty k n by (auto simp: take_add)
qed

theorem checkpoint_integrity_witness:
  "\<exists>k. c_decode test_checkpoint [0, 0, 0, 5, 115, 116, 97, 116, 101, 0, 0, 0, 0, 220, 33, 57, 147] =
     Inr ([115, 116, 97, 116, 101], k)"
proof -
  let ?b = "[0, 0, 0, 5, 0, 0, 0, 5, 115, 116, 97, 116, 101, 0, 0, 0, 0, 220, 33, 57, 147] :: byte list"
  have "wal_decode test_wal ?b = Inr (Checkpoint [115, 116, 97, 116, 101], 21)"
    using test.bytes_of_decode(1) [OF encodable_state, of "[]"]
    by (simp add: bytes_of_def test_vector_checkpoint del: wal_encode.simps)
  from checkpoint_integrity [OF test_wal_ok this] show ?thesis
    by (auto simp: test_wal_def)
qed

text \<open>
  C33. The reserved record type separates the two kinds of records on disk: the first four bytes of
  an encoded record are the checkpoint type exactly for checkpoints, and decoding returns a
  checkpoint exactly from input that starts with that type; an action is only returned when it
  reports the type id its bytes start with.
\<close>

theorem record_type_separates:
  assumes "wal_types W" and "encodable W r" and "wal_decode W bs = Inr (q, n)"
  shows "(be_nat (take 4 (bytes_of W r)) = CHECKPOINT_RECORD_TYPE \<longleftrightarrow> (\<exists>c. r = Checkpoint c)) \<and>
    (case q of Checkpoint c \<Rightarrow> be_nat (take 4 bs) = CHECKPOINT_RECORD_TYPE
     | Action a \<Rightarrow> be_nat (take 4 bs) \<noteq> CHECKPOINT_RECORD_TYPE \<and>
         c_type_id (w_action W) a = Some (be_nat (take 4 bs)))"
proof
  have "wal_decode W (bytes_of W r @ []) = Inr (r, length (bytes_of W r))"
    by (rule wal_types.bytes_of_decode(1) [OF assms(1,2)])
  then show "be_nat (take 4 (bytes_of W r)) = CHECKPOINT_RECORD_TYPE \<longleftrightarrow> (\<exists>c. r = Checkpoint c)"
    by (auto simp: wal_decode_def Let_def split: if_splits sum.splits option.splits)
  show "case q of Checkpoint c \<Rightarrow> be_nat (take 4 bs) = CHECKPOINT_RECORD_TYPE
     | Action a \<Rightarrow> be_nat (take 4 bs) \<noteq> CHECKPOINT_RECORD_TYPE \<and>
         c_type_id (w_action W) a = Some (be_nat (take 4 bs))"
    using assms(3)
    by (auto simp: wal_decode_def Let_def split: if_splits sum.splits option.splits)
qed

theorem record_type_separates_witness:
  "be_nat (take 4 (bytes_of test_wal (Action [118, 111, 116, 101]))) \<noteq> CHECKPOINT_RECORD_TYPE"
  using record_type_separates [OF test_wal_ok encodable_vote
      test.bytes_of_decode(1) [OF encodable_vote, of "[]"]] by simp

text \<open>
  C34. Iterating over the records of a file ends, whatever bytes the file has: there are at most a quarter
  as many records as bytes, and at most one error, which is the last item.
\<close>

theorem iterator_terminates:
  "length (iter_collect W (record_iterator_new bs n cid)) \<le> length bs div 4 + 1 \<and>
   list_all (\<lambda>x. \<exists>y. x = Inr y) (butlast (iter_collect W (record_iterator_new bs n cid)))"
proof -
  have "4 * length (iter_collect W (record_iterator_new bs n cid)) \<le> length bs + 4"
    using iter_collect_bound [of W "record_iterator_new bs n cid"]
    by (simp add: record_iterator_new_def offset_reader_new_def)
  then show ?thesis using iter_collect_errors_last by auto
qed


end
