(* ===== verification/File_System.thy ===== *)
theory File_System
  imports Config
begin

text \<open>
  The part of \<open>std::fs\<close> the code uses: files opened in append mode, positional reads, \<open>set_len\<close>,
  \<open>sync_data\<close>/\<open>sync_all\<close>, directory listing, unlinking and the synchronisation of the directory.

  Every file keeps the bytes the kernel has (\<open>content\<close>) and the bytes that are on stable storage
  (\<open>synced\<close>); the directory likewise has its current and its committed entries. A file handle is
  an inode number, so a handle stays usable after the file is unlinked.

  What the kernel answers is not determined by the program: \<open>script\<close> lists the answers to the next
  system calls (\<open>Done\<close>, a short write, an error); once it is empty every call succeeds. Statements
  over an arbitrary script therefore cover every I/O error at every call.
\<close>

section \<open>State\<close>

record inode_data =
  content :: "byte list"
  synced :: "byte list"

datatype sys_outcome = Done | Short nat | Fault error_kind

record fs =
  inodes :: "nat \<rightharpoonup> inode_data"
  next_ino :: nat
  entries :: "(string \<times> nat) list"
  synced_entries :: "(string \<times> nat) list"
  dirs :: "string list"
  held_locks :: "string list"
  script :: "sys_outcome list"

definition inode :: "'z fs_scheme \<Rightarrow> nat \<Rightarrow> inode_data" where
  "inode s i = (case inodes s i of None \<Rightarrow> \<lparr>content = [], synced = []\<rparr> | Some d \<Rightarrow> d)"

abbreviation content_of :: "'z fs_scheme \<Rightarrow> nat \<Rightarrow> byte list" where
  "content_of s i \<equiv> content (inode s i)"

abbreviation synced_of :: "'z fs_scheme \<Rightarrow> nat \<Rightarrow> byte list" where
  "synced_of s i \<equiv> synced (inode s i)"

abbreviation lookup :: "'z fs_scheme \<Rightarrow> string \<Rightarrow> nat option" where
  "lookup s path \<equiv> map_of (entries s) path"

definition set_inode :: "nat \<Rightarrow> inode_data \<Rightarrow> 'z fs_scheme \<Rightarrow> 'z fs_scheme" where
  "set_inode i d s = s\<lparr>inodes := (inodes s)(i \<mapsto> d)\<rparr>"

definition append_content :: "nat \<Rightarrow> byte list \<Rightarrow> 'z fs_scheme \<Rightarrow> 'z fs_scheme" where
  "append_content i w s = set_inode i ((inode s i)\<lparr>content := content_of s i @ w\<rparr>) s"

section \<open>System calls\<close>

definition syscall :: "('z fs_scheme, 'a) io \<Rightarrow> ('z fs_scheme, 'a) io" where
  "syscall m = (\<lambda>s. case script s of
       [] \<Rightarrow> m s
     | Fault k # sc \<Rightarrow> (Inl (Err k), s\<lparr>script := sc\<rparr>)
     | _ # sc \<Rightarrow> m (s\<lparr>script := sc\<rparr>))"

definition parent_exists :: "'z fs_scheme \<Rightarrow> string \<Rightarrow> bool" where
  "parent_exists s path = list_ex (\<lambda>d. prefix (d @ ''/'') path) (dirs s)"

definition open_existing :: "string \<Rightarrow> ('z fs_scheme, nat) io" where
  "open_existing path = syscall (\<lambda>s. case lookup s path of
       None \<Rightarrow> (Inl (Err NotFound), s) | Some i \<Rightarrow> (Inr i, s))"

definition new_file :: "string \<Rightarrow> 'z fs_scheme \<Rightarrow> 'z fs_scheme" where
  "new_file path s =
     (set_inode (next_ino s) \<lparr>content = [], synced = []\<rparr> s)
       \<lparr>next_ino := Suc (next_ino s), entries := entries s @ [(path, next_ino s)]\<rparr>"

definition open_create_new :: "string \<Rightarrow> ('z fs_scheme, nat) io" where
  "open_create_new path = syscall (\<lambda>s.
     if lookup s path \<noteq> None then (Inl (Err AlreadyExists), s)
     else if \<not> parent_exists s path then (Inl (Err NotFound), s)
     else (Inr (next_ino s), new_file path s))"

definition open_create_truncate :: "string \<Rightarrow> ('z fs_scheme, nat) io" where
  "open_create_truncate path = syscall (\<lambda>s.
     case lookup s path of
       Some i \<Rightarrow> (Inr i, set_inode i ((inode s i)\<lparr>content := []\<rparr>) s)
     | None \<Rightarrow> if parent_exists s path then (Inr (next_ino s), new_file path s)
               else (Inl (Err NotFound), s))"

definition file_len :: "nat \<Rightarrow> ('z fs_scheme, nat) io" where
  "file_len i = syscall (\<lambda>s. (Inr (length (content_of s i)), s))"

definition set_len :: "nat \<Rightarrow> nat \<Rightarrow> ('z fs_scheme, unit) io" where
  "set_len i n = syscall (\<lambda>s. (Inr (),
     set_inode i ((inode s i)\<lparr>content := take n (content_of s i)
       @ replicate (n - length (content_of s i)) 0\<rparr>) s))"

definition sync_file :: "nat \<Rightarrow> ('z fs_scheme, unit) io" where
  "sync_file i = syscall (\<lambda>s. (Inr (), set_inode i ((inode s i)\<lparr>synced := content_of s i\<rparr>) s))"

definition remove_file :: "string \<Rightarrow> ('z fs_scheme, unit) io" where
  "remove_file path = syscall (\<lambda>s.
     if lookup s path = None then (Inl (Err NotFound), s)
     else (Inr (), s\<lparr>entries := filter (\<lambda>e. fst e \<noteq> path) (entries s)\<rparr>))"

definition sync_dir :: "config \<Rightarrow> ('z fs_scheme, unit) io" where
  "sync_dir cfg =
     io_bind (syscall (\<lambda>s. if dir cfg \<in> set (dirs s) then (Inr (), s) else (Inl (Err NotFound), s)))
       (\<lambda>_. syscall (\<lambda>s. (Inr (), s\<lparr>synced_entries := entries s\<rparr>)))"

text \<open>The names of the files directly in a directory, in the order the kernel keeps them.\<close>

definition dir_names :: "string \<Rightarrow> 'z fs_scheme \<Rightarrow> string list" where
  "dir_names d s =
     [n. (p, _) \<leftarrow> entries s, prefix (d @ ''/'') p,
         n \<leftarrow> [drop (length d + 1) p], CHR ''/'' \<notin> set n]"

definition read_dir :: "string \<Rightarrow> ('z fs_scheme, string list) io" where
  "read_dir d = syscall (\<lambda>s.
     if d \<in> set (dirs s) then (Inr (dir_names d s), s) else (Inl (Err NotFound), s))"

text \<open>\<open>read_exact_at\<close>: the bytes at a position, or \<open>UnexpectedEof\<close> when the file is too short.\<close>

definition read_exact_at :: "nat \<Rightarrow> nat \<Rightarrow> nat \<Rightarrow> ('z fs_scheme, byte list) io" where
  "read_exact_at i n pos = syscall (\<lambda>s.
     if pos + n \<le> length (content_of s i) \<or> n = 0 then (Inr (take n (drop pos (content_of s i))), s)
     else (Inl (Err UnexpectedEof), s))"

text \<open>
  \<open>write_all\<close>: repeats \<open>write\<close> until every byte is written, over short writes and interrupted
  calls; the bytes that reached the file before an error are returned too.
\<close>

fun write_all_script ::
    "sys_outcome list \<Rightarrow> byte list \<Rightarrow> unit res \<times> byte list \<times> sys_outcome list" where
  "write_all_script sc [] = (Inr (), [], sc)"
| "write_all_script [] bs = (Inr (), bs, [])"
| "write_all_script (Done # sc) bs = (Inr (), bs, sc)"
| "write_all_script (Short n # sc) bs =
     (if n = 0 then (Inl (Err WriteZero), [], sc)
      else case write_all_script sc (drop n bs) of (r, w, sc') \<Rightarrow> (r, take n bs @ w, sc'))"
| "write_all_script (Fault k # sc) bs =
     (if k = Interrupted then write_all_script sc bs else (Inl (Err k), [], sc))"

definition write_all :: "nat \<Rightarrow> byte list \<Rightarrow> ('z fs_scheme, unit) io" where
  "write_all i bs = (\<lambda>s. case write_all_script (script s) bs of
     (r, w, sc') \<Rightarrow> (r, append_content i w (s\<lparr>script := sc'\<rparr>)))"

section \<open>Facts\<close>

lemma inode_set_inode [simp]: "inode (set_inode i d s) j = (if j = i then d else inode s j)"
  by (simp add: inode_def set_inode_def)

lemma set_inode_twice [simp]: "set_inode i d (set_inode i d' s) = set_inode i d s"
  by (simp add: set_inode_def)

lemma inode_data_both [simp]:
  "(d :: inode_data)\<lparr>content := a, synced := b\<rparr> = \<lparr>content = a, synced = b\<rparr>"
  by (cases d) simp

lemma set_inode_frame [simp]:
  "next_ino (set_inode i d s) = next_ino s" "entries (set_inode i d s) = entries s"
  "synced_entries (set_inode i d s) = synced_entries s" "dirs (set_inode i d s) = dirs s"
  "held_locks (set_inode i d s) = held_locks s" "script (set_inode i d s) = script s"
  by (simp_all add: set_inode_def)

lemma inode_update_frame [simp]:
  "inode (s\<lparr>next_ino := a\<rparr>) i = inode s i" "inode (s\<lparr>entries := b\<rparr>) i = inode s i"
  "inode (s\<lparr>synced_entries := b\<rparr>) i = inode s i" "inode (s\<lparr>script := c\<rparr>) i = inode s i"
  "inode (s\<lparr>held_locks := e\<rparr>) i = inode s i"
  by (simp_all add: inode_def)

lemma append_content_frame [simp]:
  "next_ino (append_content i w s) = next_ino s" "entries (append_content i w s) = entries s"
  "synced_entries (append_content i w s) = synced_entries s" "dirs (append_content i w s) = dirs s"
  "held_locks (append_content i w s) = held_locks s" "script (append_content i w s) = script s"
  by (simp_all add: append_content_def)

lemma content_append_content [simp]:
  "content_of (append_content i w s) j = (if j = i then content_of s i @ w else content_of s j)"
  by (simp add: append_content_def)

lemma synced_append_content [simp]: "synced_of (append_content i w s) j = synced_of s j"
  by (simp add: append_content_def)

lemma syscall_calm [simp]: "script s = [] \<Longrightarrow> syscall m s = m s"
  by (simp add: syscall_def)

text \<open>A system call either answers from the script, leaving everything else alone, or runs.\<close>

lemma syscall_cases:
  obtains k sc where "script s = Fault k # sc" "syscall m s = (Inl (Err k), s\<lparr>script := sc\<rparr>)"
  | "script s = []" "syscall m s = m s"
  | sc x where "script s = x # sc" "syscall m s = m (s\<lparr>script := sc\<rparr>)"
  by (cases "script s" rule: list.exhaust; cases "hd (script s)") (auto simp: syscall_def)

lemma write_all_script_ok:
  "write_all_script sc bs = (Inr (), w, sc') \<Longrightarrow> w = bs"
  by (induction sc bs arbitrary: w rule: write_all_script.induct)
     (auto split: prod.splits if_splits)

lemma write_all_script_prefix: "write_all_script sc bs = (r, w, sc') \<Longrightarrow> prefix w bs"
proof (induction sc bs arbitrary: w rule: write_all_script.induct)
  case (4 n sc b bs)
  then show ?case
    by (auto split: prod.splits if_splits simp: prefix_def)
       (metis append.assoc append_take_drop_id)
qed (auto split: prod.splits if_splits)

lemma write_all_script_calm [simp]: "write_all_script [] bs = (Inr (), bs, [])"
  by (cases bs) auto

lemma write_all_calm [simp]:
  "script s = [] \<Longrightarrow> write_all i bs s = (Inr (), append_content i bs (s\<lparr>script := []\<rparr>))"
  by (simp add: write_all_def)

lemma fs_script_idem [simp]: "script s = [] \<Longrightarrow> s\<lparr>script := []\<rparr> = s"
  by (cases s) simp

lemma lookup_new_file [simp]:
  "lookup s path = None \<Longrightarrow>
   lookup (new_file path s) q = (if q = path then Some (next_ino s) else lookup s q)"
  by (auto simp: new_file_def map_add_def split: option.splits)

lemma inode_new_file [simp]:
  "inode (new_file path s) i = (if i = next_ino s then \<lparr>content = [], synced = []\<rparr> else inode s i)"
  by (simp add: new_file_def)

lemma new_file_frame [simp]:
  "entries (new_file path s) = entries s @ [(path, next_ino s)]"
  "synced_entries (new_file path s) = synced_entries s" "dirs (new_file path s) = dirs s"
  "script (new_file path s) = script s" "held_locks (new_file path s) = held_locks s"
  "next_ino (new_file path s) = Suc (next_ino s)"
  by (simp_all add: new_file_def)

lemma lookup_removed [simp]:
  "map_of (filter (\<lambda>e. fst e \<noteq> path) es) q = (if q = path then None else map_of es q)"
  by (induction es) auto

text \<open>
  Well-formed file systems: no path is listed twice, no file has two names, and every listed inode
  lies below the next fresh number.
\<close>

lemma distinct_map_snd_inject:
  "distinct (map snd es) \<Longrightarrow> (p, i) \<in> set es \<Longrightarrow> (q, i) \<in> set es \<Longrightarrow> p = q"
  by (induction es) (auto simp: image_iff)

definition wf_fs :: "'z fs_scheme \<Rightarrow> bool" where
  "wf_fs s = (distinct (map fst (entries s)) \<and> distinct (map snd (entries s)) \<and>
     (\<forall>i \<in> snd ` set (entries s). i < next_ino s))"

lemma wf_fs_new_file: "wf_fs s \<Longrightarrow> lookup s path = None \<Longrightarrow> wf_fs (new_file path s)"
  by (auto simp: wf_fs_def map_of_eq_None_iff)

lemma wf_fs_lookup_inject:
  "wf_fs s \<Longrightarrow> lookup s p = Some i \<Longrightarrow> lookup s q = Some i \<Longrightarrow> p = q"
  by (auto simp: wf_fs_def dest!: map_of_SomeD dest: distinct_map_snd_inject)

lemma wf_fs_lookup_bound: "wf_fs s \<Longrightarrow> lookup s path = Some i \<Longrightarrow> i < next_ino s"
  by (force simp: wf_fs_def dest: map_of_SomeD)

text \<open>Two states that differ at most in the files' bytes and the script.\<close>

definition same_dir :: "'z fs_scheme \<Rightarrow> 'z fs_scheme \<Rightarrow> bool" where
  "same_dir s s' = (entries s' = entries s \<and> synced_entries s' = synced_entries s \<and> dirs s' = dirs s \<and>
     held_locks s' = held_locks s \<and> next_ino s' = next_ino s \<and> fs.more s' = fs.more s)"

lemma same_dir_refl [simp]: "same_dir s s"
  by (simp add: same_dir_def)

lemma same_dir_trans: "same_dir s s' \<Longrightarrow> same_dir s' s'' \<Longrightarrow> same_dir s s''"
  by (simp add: same_dir_def)

lemma more_set_inode [simp]: "fs.more (set_inode i d s) = fs.more s"
  by (simp add: set_inode_def)

lemma same_dir_steps [simp]:
  "same_dir s (set_inode i d s)" "same_dir s (s\<lparr>script := sc\<rparr>)" "same_dir s (append_content i b s)"
  by (simp_all add: same_dir_def append_content_def)

lemma same_dir_script [simp]: "same_dir (s\<lparr>script := sc\<rparr>) s' = same_dir s s'"
  by (simp add: same_dir_def)

lemma same_dir_syscall:
  assumes "syscall m s = (r, s')" and "\<And>t. same_dir t (snd (m t))"
  shows "same_dir s s'"
  using assms(1) assms(2) [of s] assms(2) [of "s\<lparr>script := tl (script s)\<rparr>"]
  by (auto simp: syscall_def split: list.splits sys_outcome.splits)

end
