(* ===== verification/Chunk.thy ===== *)
theory Chunk
  imports Record_Iterator File_System
begin

text \<open>
  \<open>src/chunk/mod.rs\<close>: a chunk is a file and the global offsets of its records. The theory holds
  the queries on the offsets, loading a chunk with the truncation of an incomplete tail
  (\<open>open_with_truncate\<close>, \<open>handle_record_error\<close>, \<open>verify_trailing_zeros\<close>), dumping it and reading
  one record. The record index is specified by the locale \<open>record_index\<close>, which the offsets of a
  chunk implement; loading is characterised for intact, torn and zero-filled files.
\<close>

section \<open>State and queries\<close>

record chunk =
  chunk_file :: nat
  global_offsets :: "nat list"
  truncated :: "nat option"

text \<open>
  Every constructor of a chunk puts its start offset first, so the offsets are never empty and
  the first and the last one are read directly; an index that can be out of range is a panic.
\<close>

definition records_count :: "chunk \<Rightarrow> nat" where
  "records_count c = length (global_offsets c) - 1"

definition get_chunk_id :: "chunk \<Rightarrow> chunk_id" where
  "get_chunk_id c = ChunkId (hd (global_offsets c))"

definition last_segment :: "chunk \<Rightarrow> segment res" where
  "last_segment c =
     (let offsets = global_offsets c; l = length offsets
      in if l < 2 then Inl Panic
         else let start = offsets ! (l - 2); fin = offsets ! (l - 1)
              in Inr (Segment start (u64_sub fin start)))"

definition global_start :: "chunk \<Rightarrow> nat" where
  "global_start c = hd (global_offsets c)"

definition global_end :: "chunk \<Rightarrow> nat" where
  "global_end c = last (global_offsets c)"

definition end_offset :: "chunk \<Rightarrow> nat" where
  "end_offset c = u64_sub (last (global_offsets c)) (hd (global_offsets c))"

definition chunk_size :: "chunk \<Rightarrow> nat" where
  "chunk_size c = end_offset c"

definition record_segment :: "chunk \<Rightarrow> nat \<Rightarrow> segment res" where
  "record_segment c index =
     (if index + 1 < length (global_offsets c)
      then let start = global_offsets c ! index; fin = global_offsets c ! (index + 1)
           in Inr (Segment start (u64_sub fin start))
      else Inl Panic)"

definition is_truncated :: "chunk \<Rightarrow> bool" where
  "is_truncated c = (truncated c \<noteq> None)"

definition truncated_file_size :: "chunk \<Rightarrow> nat option" where
  "truncated_file_size c = truncated c"

definition append_record_size :: "chunk \<Rightarrow> nat \<Rightarrow> chunk" where
  "append_record_size c sz =
     c\<lparr>global_offsets := global_offsets c @ [u64_add (last (global_offsets c)) sz]\<rparr>"

section \<open>Loading\<close>

definition open_chunk_file :: "config \<Rightarrow> chunk_id \<Rightarrow> ('z fs_scheme, nat) io" where
  "open_chunk_file cfg cid = open_existing (chunk_path cfg cid)"

text \<open>
  The iterator reads through a \<open>BufReader\<close>, whose capacity does not change what is read. The file
  size is taken before the first read.
\<close>

definition load_records_iter :: "nat \<Rightarrow> chunk_id \<Rightarrow> ('z fs_scheme, record_iterator) io" where
  "load_records_iter f cid =
     io_bind (file_len f) (\<lambda>file_size s. (Inr (record_iterator_new (content_of s f) file_size cid), s))"

definition READ_CHUNK_SIZE :: nat where
  "READ_CHUNK_SIZE = 1024"

definition read_at :: "nat \<Rightarrow> nat \<Rightarrow> ('z fs_scheme, byte list) io" where
  "read_at f start = syscall (\<lambda>s. (Inr (take READ_CHUNK_SIZE (drop start (content_of s f))), s))"

lemma read_at_InrD:
  assumes "read_at f start s = (Inr buf, s')"
  shows "buf = take READ_CHUNK_SIZE (drop start (content_of s f))" and "inode s' = inode s"
  using assms
  by (auto simp: read_at_def syscall_def fun_eq_iff split: list.splits sys_outcome.splits)

function zeros_loop :: "nat \<Rightarrow> nat \<Rightarrow> ('z fs_scheme, bool) io" where
  "zeros_loop f start s =
     (case read_at f start s of
        (Inl e, s') \<Rightarrow> (Inl e, s')
      | (Inr buffer, s') \<Rightarrow>
          if length buffer = 0 then (Inr True, s')
          else if list_ex (\<lambda>byt. byt \<noteq> 0) buffer then (Inr False, s')
          else zeros_loop f (start + length buffer) s')"
  by pat_completeness auto
termination
proof (relation "measure (\<lambda>(f, start, s). length (content_of s f) - start)", goal_cases)
  case 1
  then show ?case by simp
next
  case (2 f start s r s' buffer)
  then have "read_at f start s = (Inr buffer, s')" by simp
  from read_at_InrD [OF this] 2 show ?case by (auto simp: READ_CHUNK_SIZE_def)
qed

declare zeros_loop.simps [simp del]

definition verify_trailing_zeros :: "nat \<Rightarrow> nat \<Rightarrow> ('z fs_scheme, bool) io" where
  "verify_trailing_zeros f start_offset =
     io_bind (file_len f) (\<lambda>file_size.
       if start_offset > file_size then io_fail (Err InvalidInput)
       else if file_size = start_offset then io_return True
       else zeros_loop f start_offset)"

definition handle_record_error ::
    "error_kind \<Rightarrow> nat \<Rightarrow> nat \<Rightarrow> chunk_id \<Rightarrow> config \<Rightarrow> bool \<Rightarrow> ('z fs_scheme, bool) io" where
  "handle_record_error io_err f global_offset cid cfg allow_truncate =
     (let can_truncate = truncate_incomplete_record cfg \<and> allow_truncate
      in if io_err = UnexpectedEof then
           (if can_truncate then io_return True else io_fail (Err io_err))
         else
           io_bind (verify_trailing_zeros f (u64_sub global_offset (offset cid))) (\<lambda>all_zero.
             if all_zero \<and> can_truncate then io_return True else io_fail (Err io_err)))"

text \<open>The loop over the iterator: offsets and records so far, and whether to truncate.\<close>

fun load_loop :: "nat \<Rightarrow> chunk_id \<Rightarrow> config \<Rightarrow> bool \<Rightarrow>
    (error_kind + (segment \<times> ('a, 'c) wal_record)) list \<Rightarrow> nat list \<Rightarrow> ('a, 'c) wal_record list \<Rightarrow>
    ('z fs_scheme, nat list \<times> ('a, 'c) wal_record list \<times> bool) io" where
  "load_loop f cid cfg allow [] offs recs = io_return (offs, recs, False)"
| "load_loop f cid cfg allow (Inr (seg, r) # items) offs recs =
     load_loop f cid cfg allow items (offs @ [u64_add (offset cid) (seg_end seg)]) (recs @ [r])"
| "load_loop f cid cfg allow (Inl io_err # items) offs recs =
     io_bind (handle_record_error io_err f (last offs) cid cfg allow)
       (\<lambda>truncate. io_return (offs, recs, truncate))"

definition open_with_truncate :: "('a, 'c) wal_types \<Rightarrow> config \<Rightarrow> chunk_id \<Rightarrow> bool \<Rightarrow>
    ('z fs_scheme, chunk \<times> ('a, 'c) wal_record list) io" where
  "open_with_truncate W cfg cid allow_truncate =
     io_bind (open_chunk_file cfg cid) (\<lambda>f.
     io_bind (file_len f) (\<lambda>file_size.
     io_bind (load_records_iter f cid) (\<lambda>it.
     io_bind (load_loop f cid cfg allow_truncate (iter_collect W it) [offset cid] [])
       (\<lambda>(record_offsets, records, truncate).
     io_bind
       (if truncate then
          io_bind (set_len f (u64_sub (last record_offsets) (offset cid))) (\<lambda>_.
          io_bind (sync_file f) (\<lambda>_. io_return (Some file_size)))
        else io_return None)
       (\<lambda>trunc. io_return
          (\<lparr> chunk_file = f, global_offsets = record_offsets, truncated = trunc \<rparr>, records))))))"

definition dump :: "('a, 'c) wal_types \<Rightarrow> config \<Rightarrow> chunk_id \<Rightarrow>
    ('z fs_scheme, (error_kind + (segment \<times> ('a, 'c) wal_record)) list) io" where
  "dump W cfg cid =
     io_bind (open_chunk_file cfg cid) (\<lambda>f.
     io_bind (load_records_iter f cid) (\<lambda>it. io_return (iter_collect W it)))"

definition read_record :: "('a, 'c) wal_types \<Rightarrow> chunk \<Rightarrow> segment \<Rightarrow>
    ('z fs_scheme, ('a, 'c) wal_record) io" where
  "read_record W c seg =
     (let off = u64_sub (seg_offset seg) (global_start c); sz = seg_size seg
      in io_bind (read_exact_at (chunk_file c) sz off) (\<lambda>buf.
           case wal_decode W buf of Inl e \<Rightarrow> io_fail (Err e) | Inr (r, _) \<Rightarrow> io_return r))"

text \<open>The check that debug builds make before a record is read.\<close>

definition valid_segment :: "chunk \<Rightarrow> segment \<Rightarrow> bool" where
  "valid_segment c seg =
     list_ex (\<lambda>i. global_offsets c ! i = seg_offset seg \<and> i + 1 < length (global_offsets c) \<and>
         global_offsets c ! (i + 1) = seg_end seg) [0..<length (global_offsets c)]"

lemmas chunk_query_defs =
  records_count_def get_chunk_id_def last_segment_def global_start_def global_end_def end_offset_def
  chunk_size_def record_segment_def is_truncated_def truncated_file_size_def

section \<open>The record index\<close>

text \<open>
  What the users of a chunk rely on: a pushed size becomes the segment behind the last record, and
  earlier segments keep their place.
\<close>

locale record_index =
  fixes count :: "'c \<Rightarrow> nat" and seg_at :: "'c \<Rightarrow> nat \<Rightarrow> segment res" and fin :: "'c \<Rightarrow> nat"
    and push :: "'c \<Rightarrow> nat \<Rightarrow> 'c" and inv :: "'c \<Rightarrow> bool"
  assumes inv_push: "inv c \<Longrightarrow> fin c + n < 2 ^ 64 \<Longrightarrow> inv (push c n)"
    and count_push: "inv c \<Longrightarrow> count (push c n) = Suc (count c)"
    and fin_push: "inv c \<Longrightarrow> fin c + n < 2 ^ 64 \<Longrightarrow> fin (push c n) = fin c + n"
    and seg_old: "inv c \<Longrightarrow> i < count c \<Longrightarrow> seg_at (push c n) i = seg_at c i"
    and seg_new: "inv c \<Longrightarrow> fin c + n < 2 ^ 64 \<Longrightarrow> seg_at (push c n) (count c) = Inr (Segment (fin c) n)"
begin

lemma push_all:
  assumes "inv c" and "fin c + sum_list ns < 2 ^ 64"
  shows "inv (foldl push c ns)" and "count (foldl push c ns) = count c + length ns"
    and "fin (foldl push c ns) = fin c + sum_list ns"
  using assms by (induction ns arbitrary: c) (simp_all add: inv_push count_push fin_push)

lemma seg_push_all_old:
  assumes "inv c" and "fin c + sum_list ns < 2 ^ 64" and "i < count c"
  shows "seg_at (foldl push c ns) i = seg_at c i"
  using assms by (induction ns arbitrary: c) (simp_all add: inv_push count_push fin_push seg_old)

lemma seg_push_all_new:
  assumes "inv c" and "fin c + sum_list ns < 2 ^ 64" and "i < length ns"
  shows "seg_at (foldl push c ns) (count c + i) = Inr (Segment (fin c + sum_list (take i ns)) (ns ! i))"
  using assms
proof (induction ns arbitrary: c i)
  case Nil
  then show ?case by simp
next
  case (Cons n ns)
  then have inv: "inv (push c n)" and fin: "fin (push c n) = fin c + n"
    and cnt: "count (push c n) = Suc (count c)" and room: "fin (push c n) + sum_list ns < 2 ^ 64"
    by (simp_all add: inv_push count_push fin_push)
  show ?case
  proof (cases i)
    case 0
    have "seg_at (foldl push (push c n) ns) (count c) = seg_at (push c n) (count c)"
      using inv room cnt by (intro seg_push_all_old) simp_all
    then show ?thesis using 0 Cons.prems seg_new [of c n] by simp
  next
    case (Suc j)
    then show ?thesis using Cons.IH [OF inv room, of j] Cons.prems cnt fin by (simp add: add.assoc)
  qed
qed

end

definition wf_chunk :: "chunk \<Rightarrow> bool" where
  "wf_chunk c = (global_offsets c \<noteq> [] \<and> sorted (global_offsets c) \<and> global_end c < 2 ^ 64)"

lemma wf_chunk_append: "wf_chunk c \<Longrightarrow> global_end c + n < 2 ^ 64 \<Longrightarrow> wf_chunk (append_record_size c n)"
  by (auto simp: wf_chunk_def append_record_size_def global_end_def sorted_append offset_simps
      dest: sorted_last_max intro: trans_le_add1)

interpretation chunk_ix: record_index records_count record_segment global_end append_record_size wf_chunk
proof unfold_locales
  fix c :: chunk and n i :: nat
  assume wf: "wf_chunk c"
  then have ne: "global_offsets c \<noteq> []" by (simp add: wf_chunk_def)
  show "records_count (append_record_size c n) = Suc (records_count c)"
    using ne by (simp add: records_count_def append_record_size_def)
  show "record_segment (append_record_size c n) i = record_segment c i" if "i < records_count c"
    using that by (auto simp: record_segment_def records_count_def append_record_size_def nth_append)
  assume room: "global_end c + n < 2 ^ 64"
  show "wf_chunk (append_record_size c n)" using wf room by (rule wf_chunk_append)
  show "global_end (append_record_size c n) = global_end c + n"
    using room by (simp add: global_end_def append_record_size_def offset_simps)
  have "global_offsets c ! (length (global_offsets c) - 1) = global_end c"
    using ne by (simp add: global_end_def last_conv_nth)
  then show "record_segment (append_record_size c n) (records_count c) = Inr (Segment (global_end c) n)"
    using ne room
    by (simp add: record_segment_def records_count_def append_record_size_def nth_append global_end_def
        offset_simps)
qed

lemma last_segment_record_segment:
  "1 \<le> records_count c \<Longrightarrow> last_segment c = record_segment c (records_count c - 1)"
  by (auto simp: last_segment_def record_segment_def records_count_def Let_def numeral_2_eq_2
      less_Suc_eq Suc_diff_Suc)

lemma last_segment_append:
  assumes "wf_chunk c" and "global_end c + n < 2 ^ 64"
  shows "last_segment (append_record_size c n) = Inr (Segment (global_end c) n)"
  using chunk_ix.count_push [OF assms(1), of n] chunk_ix.seg_new [OF assms]
  by (simp add: last_segment_record_segment)

end
