(* ===== verification/Chunk_Load.thy ===== *)
theory Chunk_Load
  imports Chunk
begin

text \<open>
  Correctness of loading a chunk: the trailing-zero scan against its specification, the records and
  offsets that \<open>open_with_truncate\<close> returns for an intact, a torn and a zero-filled file, when it
  refuses, and reading back single records.
\<close>

section \<open>The trailing-zero scan\<close>

lemma list_ex_nonzero: "list_ex (\<lambda>b. b \<noteq> 0) bs \<longleftrightarrow> \<not> all_zero bs"
  by (auto simp: all_zero_def list_ex_iff list_all_iff)

lemma zeros_loop_sound:
  "zeros_loop f start s = (Inr b, s') \<Longrightarrow>
   b = all_zero (drop start (content_of s f)) \<and> inode s' = inode s"
proof (induction f start s rule: zeros_loop.induct)
  case (1 f start s)
  obtain r s1 where rd: "read_at f start s = (r, s1)" by (cases "read_at f start s")
  then obtain buf where r: "r = Inr buf"
    using "1.prems" by (cases r) (simp_all add: zeros_loop.simps [of f start s])
  note rd = rd [unfolded r]
  have buf: "buf = take READ_CHUNK_SIZE (drop start (content_of s f))" and ino: "inode s1 = inode s"
    using read_at_InrD [OF rd] by auto
  have split: "all_zero (drop start (content_of s f)) \<longleftrightarrow>
      all_zero buf \<and> all_zero (drop (start + length buf) (content_of s f))"
  proof (cases "length buf = READ_CHUNK_SIZE")
    case True
    then show ?thesis unfolding buf
      by (metis append_take_drop_id all_zero_simps(3) drop_drop add.commute)
  next
    case False
    then have "buf = drop start (content_of s f)" by (simp add: buf)
    then show ?thesis by simp
  qed
  show ?case
  proof (cases "length buf = 0 \<or> \<not> all_zero buf")
    case True
    then show ?thesis
      using "1.prems" rd split ino
      by (auto simp: zeros_loop.simps [of f start s] list_ex_nonzero buf READ_CHUNK_SIZE_def split: if_splits)
  next
    case False
    then have "zeros_loop f (start + length buf) s1 = (Inr b, s')"
      using "1.prems" rd by (simp add: zeros_loop.simps [of f start s] list_ex_nonzero)
    with "1.IH" [OF rd [symmetric] refl] False split ino show ?thesis
      by (auto simp: list_ex_nonzero)
  qed
qed

lemma zeros_loop_calm:
  "script s = [] \<Longrightarrow> zeros_loop f start s = (Inr (all_zero (drop start (content_of s f))), s)"
proof (induction f start s rule: zeros_loop.induct)
  case (1 f start s)
  define buf where "buf = take READ_CHUNK_SIZE (drop start (content_of s f))"
  have rd: "read_at f start s = (Inr buf, s)"
    using "1.prems" by (simp add: read_at_def buf_def)
  have ex: "\<exists>b. zeros_loop f start s = (Inr b, s)"
  proof (cases "length buf = 0 \<or> \<not> all_zero buf")
    case True
    then show ?thesis using rd by (auto simp: zeros_loop.simps [of f start s] list_ex_nonzero)
  next
    case False
    then show ?thesis
      using "1.IH" [OF rd [symmetric] refl] rd "1.prems"
      by (auto simp: zeros_loop.simps [of f start s] list_ex_nonzero)
  qed
  then show ?case using zeros_loop_sound by blast
qed

lemma file_len_calm [simp]: "script s = [] \<Longrightarrow> file_len f s = (Inr (length (content_of s f)), s)"
  by (simp add: file_len_def)

lemma file_len_InrD:
  assumes "file_len f s = (Inr n, s')"
  shows "n = length (content_of s f)" and "inode s' = inode s"
  using assms by (auto simp: file_len_def syscall_def fun_eq_iff split: list.splits sys_outcome.splits)

lemma verify_trailing_zeros_calm:
  assumes "script s = []" and "start \<le> length (content_of s f)"
  shows "verify_trailing_zeros f start s = (Inr (all_zero (drop start (content_of s f))), s)"
  using assms by (simp add: verify_trailing_zeros_def zeros_loop_calm)

section \<open>Loading\<close>

definition rec_sizes :: "('a, 'c) wal_types \<Rightarrow> ('a, 'c) wal_record list \<Rightarrow> nat list" where
  "rec_sizes W rs = map (\<lambda>r. length (bytes_of W r)) rs"

lemma rec_sizes_simps [simp]:
  "rec_sizes W [] = []"
  "rec_sizes W (r # rs) = length (bytes_of W r) # rec_sizes W rs"
  "rec_sizes W (rs @ ss) = rec_sizes W rs @ rec_sizes W ss"
  "length (rec_sizes W rs) = length rs"
  "sum_list (rec_sizes W rs) = length (log_bytes W rs)"
  by (simp_all add: rec_sizes_def log_bytes_def length_concat comp_def)

lemma take_rec_sizes: "sum_list (take i (rec_sizes W rs)) = length (log_bytes W (take i rs))"
  by (simp add: rec_sizes_def take_map log_bytes_def length_concat comp_def)

lemma load_loop_located:
  assumes "offset cid + off + length (log_bytes W rs) < 2 ^ 64"
  shows "load_loop f cid cfg allow (map Inr (located W off rs) @ items) offs recs =
    load_loop f cid cfg allow items (offs @ tl (offsets_from (offset cid + off) (rec_sizes W rs))) (recs @ rs)"
  using assms
proof (induction rs arbitrary: off offs recs)
  case Nil
  then show ?case by simp
next
  case (Cons r rs)
  then show ?case
    by (simp add: seg_end_def offset_simps add.assoc)
qed

text \<open>The state a chunk file has when loading starts, on a file system that raises no errors.\<close>

definition chunk_on_disk :: "config \<Rightarrow> chunk_id \<Rightarrow> nat \<Rightarrow> byte list \<Rightarrow> 'z fs_scheme \<Rightarrow> bool" where
  "chunk_on_disk cfg cid f bs s =
     (script s = [] \<and> lookup s (chunk_path cfg cid) = Some f \<and> content_of s f = bs \<and>
      offset cid + length bs < 2 ^ 64)"

definition loaded :: "('a, 'c) wal_types \<Rightarrow> chunk_id \<Rightarrow> nat \<Rightarrow> ('a, 'c) wal_record list \<Rightarrow> nat option \<Rightarrow> chunk" where
  "loaded W cid f rs trunc =
     \<lparr> chunk_file = f, global_offsets = offsets_from (offset cid) (rec_sizes W rs), truncated = trunc \<rparr>"

text \<open>An error at \<open>tail\<close> is a torn write when it ends the file early or the rest is zeros.\<close>

definition torn_tail :: "error_kind \<Rightarrow> byte list \<Rightarrow> bool" where
  "torn_tail e tail = (e = UnexpectedEof \<or> all_zero tail)"

definition truncated_fs :: "nat \<Rightarrow> byte list \<Rightarrow> 'z fs_scheme \<Rightarrow> 'z fs_scheme" where
  "truncated_fs f bs s = set_inode f \<lparr> content = bs, synced = bs \<rparr> s"

lemma load_records_iter_calm:
  "script s = [] \<Longrightarrow> load_records_iter f cid s =
     (Inr (record_iterator_new (content_of s f) (length (content_of s f)) cid), s)"
  by (simp add: load_records_iter_def)

lemma open_chunk_file_calm:
  "script s = [] \<Longrightarrow> open_chunk_file cfg cid s =
     (case lookup s (chunk_path cfg cid) of None \<Rightarrow> (Inl (Err NotFound), s) | Some f \<Rightarrow> (Inr f, s))"
  by (simp add: open_chunk_file_def open_existing_def)

lemma handle_record_error_calm:
  assumes "chunk_on_disk cfg cid f (good @ tail) s"
  shows "handle_record_error e f (offset cid + length good) cid cfg allow s =
    (if torn_tail e tail \<and> truncate_incomplete_record cfg \<and> allow then (Inr True, s) else (Inl (Err e), s))"
  using assms verify_trailing_zeros_calm [of s "length good" f]
  by (auto simp: handle_record_error_def chunk_on_disk_def torn_tail_def offset_simps Let_def)

lemma open_with_truncate_prefix:
  assumes "chunk_on_disk cfg cid f (log_bytes W rs @ tail) s"
    and "iter_collect W (record_iterator_new (log_bytes W rs @ tail) (length (log_bytes W rs @ tail)) cid) =
         map Inr (located W 0 rs) @ items"
  shows "open_with_truncate W cfg cid allow s =
    io_bind (load_loop f cid cfg allow items (offsets_from (offset cid) (rec_sizes W rs)) rs)
      (\<lambda>(record_offsets, records, truncate).
        io_bind
          (if truncate then
             io_bind (set_len f (u64_sub (last record_offsets) (offset cid))) (\<lambda>_.
             io_bind (sync_file f) (\<lambda>_. io_return (Some (length (log_bytes W rs) + length tail))))
           else io_return None)
          (\<lambda>trunc. io_return
            (\<lparr> chunk_file = f, global_offsets = record_offsets, truncated = trunc \<rparr>, records))) s"
proof -
  have "load_loop f cid cfg allow (map Inr (located W 0 rs) @ items) [offset cid] [] s =
      load_loop f cid cfg allow items (offsets_from (offset cid) (rec_sizes W rs)) rs s"
    using assms(1) by (subst load_loop_located) (simp_all add: chunk_on_disk_def)
  with assms show ?thesis
    by (simp add: open_with_truncate_def chunk_on_disk_def open_chunk_file_calm load_records_iter_calm
        io_bind_app)
qed

context wal_types
begin

lemma open_intact:
  assumes "chunk_on_disk cfg cid f (log_bytes W rs) s" and "list_all (encodable W) rs"
  shows "open_with_truncate W cfg cid allow s = (Inr (loaded W cid f rs None, rs), s)"
  using open_with_truncate_prefix [of cfg cid f W rs "[]" s "[]"] assms collect_whole [OF assms(2)]
  by (simp add: loaded_def)

lemma open_damaged:
  assumes disk: "chunk_on_disk cfg cid f (log_bytes W rs @ tail) s" and enc: "list_all (encodable W) rs"
    and tail: "tail \<noteq> []" "wal_decode W tail = Inl e"
  shows "open_with_truncate W cfg cid allow s =
    (if torn_tail e tail \<and> truncate_incomplete_record cfg \<and> allow
     then (Inr (loaded W cid f rs (Some (length (log_bytes W rs @ tail))), rs),
           truncated_fs f (log_bytes W rs) s)
     else (Inl (Err e), s))"
proof -
  have calm: "script s = []" and content: "content_of s f = log_bytes W rs @ tail"
    and room: "offset cid + length (log_bytes W rs) < 2 ^ 64"
    using disk by (auto simp: chunk_on_disk_def)
  have n: "u64_sub (offset cid + length (log_bytes W rs)) (offset cid) = length (log_bytes W rs)"
    using room by (simp add: offset_simps)
  show ?thesis
    using open_with_truncate_prefix [OF disk collect_damaged [OF enc tail], of allow]
      handle_record_error_calm [OF disk, of e allow] calm content
    by (auto simp: n loaded_def truncated_fs_def set_len_def sync_file_def
        io_bind_app split: prod.splits)
qed

end

section \<open>Files cut at an arbitrary byte\<close>

text \<open>The records that lie completely within the first \<open>k\<close> bytes of a log.\<close>

fun records_within :: "('a, 'c) wal_types \<Rightarrow> ('a, 'c) wal_record list \<Rightarrow> nat \<Rightarrow> ('a, 'c) wal_record list" where
  "records_within W [] k = []"
| "records_within W (r # rs) k =
     (if length (bytes_of W r) \<le> k then r # records_within W rs (k - length (bytes_of W r)) else [])"

lemma records_within_prefix: "prefix (records_within W rs k) rs"
  by (induction rs arbitrary: k) auto

lemma records_within_encodable:
  "list_all P rs \<Longrightarrow> list_all P (records_within W rs k)"
  using set_mono_prefix [OF records_within_prefix] by (fastforce simp: list_all_iff)

lemma records_within_cut:
  obtains (whole) "take k (log_bytes W rs) = log_bytes W (records_within W rs k)"
  | (torn) r p where "r \<in> set rs" and "p \<noteq> []" and "strict_prefix p (bytes_of W r)"
      and "take k (log_bytes W rs) = log_bytes W (records_within W rs k) @ p"
proof (induction rs arbitrary: k thesis)
  case Nil
  then show ?case by simp
next
  case (Cons r rs)
  show ?case
  proof (cases "length (bytes_of W r) \<le> k")
    case True
    then have tk: "take k (log_bytes W (r # rs)) =
        bytes_of W r @ take (k - length (bytes_of W r)) (log_bytes W rs)" by simp
    show ?thesis
    proof (rule Cons.IH [of "k - length (bytes_of W r)"])
      assume "take (k - length (bytes_of W r)) (log_bytes W rs) =
        log_bytes W (records_within W rs (k - length (bytes_of W r)))"
      with Cons.prems(1) True tk show thesis by simp
    next
      fix q p
      assume "q \<in> set rs" "p \<noteq> []" "strict_prefix p (bytes_of W q)"
        "take (k - length (bytes_of W r)) (log_bytes W rs) =
          log_bytes W (records_within W rs (k - length (bytes_of W r))) @ p"
      with Cons.prems(2) [of q p] True tk show thesis by simp
    qed
  next
    case False
    then have "take k (log_bytes W (r # rs)) = take k (bytes_of W r)" by simp
    moreover have "strict_prefix (take k (bytes_of W r)) (bytes_of W r)"
      using False by (intro strict_prefix_take) simp
    ultimately show ?thesis
      using False Cons.prems(1) Cons.prems(2) [of r "take k (bytes_of W r)"]
      by (cases "k = 0") auto
  qed
qed

context wal_types
begin

lemma open_cut:
  assumes enc: "list_all (encodable W) rs" and trunc: "truncate_incomplete_record cfg"
    and disk: "chunk_on_disk cfg cid f (take k (log_bytes W rs)) s"
  shows "open_with_truncate W cfg cid True s =
    (if take k (log_bytes W rs) = log_bytes W (records_within W rs k)
     then (Inr (loaded W cid f (records_within W rs k) None, records_within W rs k), s)
     else (Inr (loaded W cid f (records_within W rs k) (Some (length (take k (log_bytes W rs)))),
             records_within W rs k), truncated_fs f (log_bytes W (records_within W rs k)) s))"
proof (cases rule: records_within_cut [of k W rs])
  case whole
  then show ?thesis
    using open_intact [of cfg cid f "records_within W rs k" s True] disk records_within_encodable [OF enc]
    by simp
next
  case (torn r p)
  have "encodable W r" using torn(1) enc by (simp add: list_all_iff)
  then have "wal_decode W p = Inl UnexpectedEof" using torn(3) by (rule bytes_of_torn)
  then show ?thesis
    using open_damaged [OF disk [unfolded torn(4)] records_within_encodable [OF enc] torn(2)] trunc torn(2,4)
    by (simp add: torn_tail_def)
qed

end

section \<open>Example data\<close>

text \<open>A directory \<open>d\<close> with one chunk file, at offset 0, that holds the given bytes.\<close>

definition demo_config :: config where
  "demo_config = config_new ''d''"

definition demo_fs :: "byte list \<Rightarrow> fs" where
  "demo_fs bs =
     \<lparr> inodes = [0 \<mapsto> \<lparr>content = bs, synced = bs\<rparr>], next_ino = 1,
       entries = [(chunk_path demo_config (ChunkId 0), 0)],
       synced_entries = [(chunk_path demo_config (ChunkId 0), 0)],
       dirs = [''d''], held_locks = [], script = [] \<rparr>"

lemma demo_chunk_on_disk:
  "length bs < 2 ^ 64 \<Longrightarrow> chunk_on_disk demo_config (ChunkId 0) 0 bs (demo_fs bs)"
  by (simp add: chunk_on_disk_def demo_fs_def inode_def)

abbreviation demo_vote :: "(byte list, byte list) wal_record" where
  "demo_vote \<equiv> Action [118, 111, 116, 101]"

lemma bytes_of_vote: "bytes_of test_wal demo_vote = [0, 0, 0, 1, 0, 0, 0, 4, 118, 111, 116, 101]"
  by (simp add: bytes_of_def test_vector_action del: wal_encode.simps)

lemma demo_truncates: "truncate_incomplete_record demo_config"
  by (simp add: demo_config_def config_new_def truncate_incomplete_record_def unwrap_or_def)

section \<open>Properties\<close>

text \<open>
  C11. Loading a chunk after a crash that cut its file at any byte: exactly the records that lie
  completely before the cut are returned, with their offsets, and the file is truncated to them
  and synchronised; if the cut falls on a record boundary nothing is changed.
\<close>

theorem load_after_cut:
  assumes "wal_types W" and "list_all (encodable W) rs" and "truncate_incomplete_record cfg"
    and "chunk_on_disk cfg cid f (take k (log_bytes W rs)) s"
  shows "\<exists>trunc s'. open_with_truncate W cfg cid True s =
       (Inr (loaded W cid f (records_within W rs k) trunc, records_within W rs k), s') \<and>
     content_of s' f = log_bytes W (records_within W rs k) \<and>
     (if content_of s' f = take k (log_bytes W rs) then trunc = None \<and> s' = s
      else trunc = Some (length (take k (log_bytes W rs))) \<and> synced_of s' f = content_of s' f)"
  using wal_types.open_cut [OF assms] assms(4)
  by (auto simp: truncated_fs_def chunk_on_disk_def)

theorem load_after_cut_witness:
  "\<exists>trunc s'. open_with_truncate test_wal demo_config (ChunkId 0) True
       (demo_fs (take 17 (log_bytes test_wal [demo_vote, demo_vote]))) =
     (Inr (loaded test_wal (ChunkId 0) 0 [demo_vote] trunc, [demo_vote]), s')"
  using load_after_cut [OF test_wal_ok, of "[demo_vote, demo_vote]" demo_config "ChunkId 0" 0 17
      "demo_fs (take 17 (log_bytes test_wal [demo_vote, demo_vote]))"]
    demo_chunk_on_disk [of "take 17 (log_bytes test_wal [demo_vote, demo_vote])"]
  by (auto simp: encodable_vote demo_truncates bytes_of_vote)

text \<open>
  C12. What loading does at the first byte sequence that does not decode: it truncates there only
  when truncation is enabled, the chunk is the one allowed to be truncated, and the damage is a
  torn write (the input ended, or only zeros follow). Otherwise the error is returned and the file
  is left as it was.
\<close>

theorem load_damaged:
  assumes "wal_types W" and "list_all (encodable W) rs" and "tail \<noteq> []" and "wal_decode W tail = Inl e"
    and "chunk_on_disk cfg cid f (log_bytes W rs @ tail) s"
  shows "open_with_truncate W cfg cid allow s =
    (if (e = UnexpectedEof \<or> all_zero tail) \<and> truncate_incomplete_record cfg \<and> allow
     then (Inr (loaded W cid f rs (Some (length (log_bytes W rs @ tail))), rs),
           truncated_fs f (log_bytes W rs) s)
     else (Inl (Err e), s))"
  using wal_types.open_damaged [OF assms(1,5,2,3,4), of allow] by (simp add: torn_tail_def)

theorem load_damaged_witness:
  "open_with_truncate test_wal demo_config (ChunkId 0) True
     (demo_fs (log_bytes test_wal [demo_vote] @ [0, 0, 0, 9, 1])) =
   (Inl (Err InvalidData), demo_fs (log_bytes test_wal [demo_vote] @ [0, 0, 0, 9, 1]))"
proof -
  have "wal_decode test_wal [0, 0, 0, 9, 1] = Inl InvalidData"
    by (simp add: wal_decode_def test_wal_defs be_nat_def CHECKPOINT_RECORD_TYPE_def)
  then show ?thesis
    using load_damaged [OF test_wal_ok, of "[demo_vote]" "[0, 0, 0, 9, 1]" InvalidData demo_config
        "ChunkId 0" 0 "demo_fs (log_bytes test_wal [demo_vote] @ [0, 0, 0, 9, 1])" True]
      demo_chunk_on_disk [of "log_bytes test_wal [demo_vote] @ [0, 0, 0, 9, 1]"]
    by (simp add: encodable_vote bytes_of_vote)
qed

text \<open>
  C31. The trailing-zero check, which reads the file in pieces of 1024 bytes, decides whether all
  bytes from the start offset on are zero, and rejects a start offset behind the end of the file.
\<close>

theorem verify_trailing_zeros_spec:
  assumes "script s = []"
  shows "verify_trailing_zeros f start s =
    (if start > length (content_of s f) then (Inl (Err InvalidInput), s)
     else (Inr (\<forall>i < length (content_of s f) - start. content_of s f ! (start + i) = 0), s))"
proof -
  have "all_zero (drop start bs) \<longleftrightarrow> (\<forall>i < length bs - start. bs ! (start + i) = 0)"
    if "start \<le> length bs" for bs :: "byte list"
    using that by (auto simp: all_zero_def list_all_length)
  then show ?thesis
    using assms verify_trailing_zeros_calm [of s start f]
    by (auto simp: verify_trailing_zeros_def io_bind_app)
qed

theorem verify_trailing_zeros_spec_witness:
  "verify_trailing_zeros 0 2 (demo_fs [1, 0, 0, 0]) = (Inr True, demo_fs [1, 0, 0, 0])"
  using verify_trailing_zeros_spec [of "demo_fs [1, 0, 0, 0]" 0 2]
  by (simp add: demo_fs_def inode_def nth_Cons' numeral_eq_Suc less_Suc_eq)

lemma log_bytes_nth:
  assumes "i < length rs"
  shows "log_bytes W rs = log_bytes W (take i rs) @ bytes_of W (rs ! i) @ log_bytes W (drop (Suc i) rs)"
  using arg_cong [OF id_take_nth_drop [OF assms], of "log_bytes W"] by simp

lemma record_segment_loaded:
  assumes "i < length rs" and "offset cid + length (log_bytes W rs) < 2 ^ 64"
  shows "record_segment (loaded W cid f rs t) i =
    Inr (Segment (offset cid + length (log_bytes W (take i rs))) (length (bytes_of W (rs ! i))))"
proof -
  have "length (log_bytes W (take i rs)) + length (bytes_of W (rs ! i)) \<le> length (log_bytes W rs)"
    using log_bytes_nth [OF assms(1), of W] by simp
  moreover have "log_bytes W (take (Suc i) rs) = log_bytes W (take i rs) @ bytes_of W (rs ! i)"
    using assms(1) by (simp add: take_Suc_conv_app_nth)
  ultimately show ?thesis
    using assms
    by (simp add: record_segment_def loaded_def nth_offsets_from take_rec_sizes Let_def offset_simps)
qed

text \<open>
  C23. Random access: in a loaded chunk the segment of the \<open>i\<close>-th record names exactly its bytes,
  and reading that segment returns the record.
\<close>

theorem read_record_loaded:
  assumes "wal_types W" and "list_all (encodable W) rs" and "i < length rs"
    and "chunk_on_disk cfg cid f (log_bytes W rs) s"
  shows "\<exists>seg. record_segment (loaded W cid f rs t) i = Inr seg \<and>
    read_record W (loaded W cid f rs t) seg s = (Inr (rs ! i), s)"
proof -
  define pre where "pre = log_bytes W (take i rs)"
  define post where "post = log_bytes W (drop (Suc i) rs)"
  have bytes: "log_bytes W rs = pre @ bytes_of W (rs ! i) @ post"
    unfolding pre_def post_def by (rule log_bytes_nth [OF assms(3)])
  have room: "offset cid + length (log_bytes W rs) < 2 ^ 64" and calm: "script s = []"
    and content: "content_of s f = pre @ bytes_of W (rs ! i) @ post"
    using assms(4) bytes by (auto simp: chunk_on_disk_def)
  have "encodable W (rs ! i)" using assms(2,3) by (simp add: list_all_length)
  then have dec: "wal_decode W (bytes_of W (rs ! i)) = Inr (rs ! i, length (bytes_of W (rs ! i)))"
    using wal_types.bytes_of_decode(1) [OF assms(1), of "rs ! i" "[]"] by simp
  have off: "u64_sub (offset cid + length pre) (offset cid) = length pre"
    using room bytes by (simp add: offset_simps)
  have "read_exact_at f (length (bytes_of W (rs ! i))) (length pre) s = (Inr (bytes_of W (rs ! i)), s)"
    using calm content by (simp add: read_exact_at_def)
  then have "read_record W (loaded W cid f rs t)
      (Segment (offset cid + length pre) (length (bytes_of W (rs ! i)))) s = (Inr (rs ! i), s)"
    by (simp add: read_record_def loaded_def global_start_def off io_bind_app dec)
  then show ?thesis
    using record_segment_loaded [OF assms(3) room] by (simp add: pre_def)
qed

theorem read_record_loaded_witness:
  "\<exists>seg. record_segment (loaded test_wal (ChunkId 0) 0 [demo_vote, demo_vote] None) 1 = Inr seg \<and>
     read_record test_wal (loaded test_wal (ChunkId 0) 0 [demo_vote, demo_vote] None) seg
       (demo_fs (log_bytes test_wal [demo_vote, demo_vote])) =
     (Inr demo_vote, demo_fs (log_bytes test_wal [demo_vote, demo_vote]))"
  using read_record_loaded [OF test_wal_ok, of "[demo_vote, demo_vote]" 1]
    demo_chunk_on_disk [of "log_bytes test_wal [demo_vote, demo_vote]"]
  by (simp add: encodable_vote bytes_of_vote)

end
