(* ===== verification/Ordered_Map.thy ===== *)
theory Ordered_Map
  imports Config
begin

text \<open>
  The ordered map of the standard library (\<open>BTreeMap\<close>) that holds the closed chunks, as an
  association list in ascending key order, with the operations the code uses. The locale
  \<open>ordered_map\<close> states what its users rely on; \<open>bt\<close> interprets it on the association lists.
\<close>

type_synonym ('k, 'v) btree_map = "('k \<times> 'v) list"

fun bt_insert :: "'k::linorder \<Rightarrow> 'v \<Rightarrow> ('k, 'v) btree_map \<Rightarrow> ('k, 'v) btree_map" where
  "bt_insert k v [] = [(k, v)]"
| "bt_insert k v ((j, w) # m) =
     (if k < j then (k, v) # (j, w) # m else if k = j then (k, v) # m else (j, w) # bt_insert k v m)"

definition bt_get :: "('k, 'v) btree_map \<Rightarrow> 'k \<Rightarrow> 'v option" where
  "bt_get m k = map_of m k"

definition bt_first_key_value :: "('k, 'v) btree_map \<Rightarrow> ('k \<times> 'v) option" where
  "bt_first_key_value m = (case m of [] \<Rightarrow> None | e # _ \<Rightarrow> Some e)"

definition bt_last_key_value :: "('k, 'v) btree_map \<Rightarrow> ('k \<times> 'v) option" where
  "bt_last_key_value m = (if m = [] then None else Some (last m))"

definition bt_pop_first :: "('k, 'v) btree_map \<Rightarrow> ('k \<times> 'v) option \<times> ('k, 'v) btree_map" where
  "bt_pop_first m = (case m of [] \<Rightarrow> (None, []) | e # m' \<Rightarrow> (Some e, m'))"

definition bt_pop_last :: "('k, 'v) btree_map \<Rightarrow> ('k \<times> 'v) option \<times> ('k, 'v) btree_map" where
  "bt_pop_last m = (if m = [] then (None, []) else (Some (last m), butlast m))"

definition bt_keys :: "('k, 'v) btree_map \<Rightarrow> 'k list" where
  "bt_keys m = map fst m"

definition bt_values :: "('k, 'v) btree_map \<Rightarrow> 'v list" where
  "bt_values m = map snd m"

definition bt_ok :: "('k::linorder, 'v) btree_map \<Rightarrow> bool" where
  "bt_ok m = sorted_wrt (<) (map fst m)"

section \<open>Interface\<close>

locale ordered_map =
  fixes ins :: "'k::linorder \<Rightarrow> 'v \<Rightarrow> 'm \<Rightarrow> 'm" and get :: "'m \<Rightarrow> 'k \<Rightarrow> 'v option"
    and items :: "'m \<Rightarrow> ('k \<times> 'v) list"
    and pop_first :: "'m \<Rightarrow> ('k \<times> 'v) option \<times> 'm" and pop_last :: "'m \<Rightarrow> ('k \<times> 'v) option \<times> 'm"
    and inv :: "'m \<Rightarrow> bool"
  assumes inv_ins: "inv m \<Longrightarrow> inv (ins k v m)"
    and get_ins: "inv m \<Longrightarrow> get (ins k v m) = (get m)(k \<mapsto> v)"
    and ascending: "inv m \<Longrightarrow> sorted_wrt (<) (map fst (items m))"
    and get_items: "inv m \<Longrightarrow> get m = map_of (items m)"
    and first_none: "inv m \<Longrightarrow> items m = [] \<Longrightarrow> pop_first m = (None, m)"
    and first_some: "inv m \<Longrightarrow> items m = e # es \<Longrightarrow>
      fst (pop_first m) = Some e \<and> items (snd (pop_first m)) = es \<and> inv (snd (pop_first m))"
    and last_some: "inv m \<Longrightarrow> items m = es @ [e] \<Longrightarrow>
      fst (pop_last m) = Some e \<and> items (snd (pop_last m)) = es \<and> inv (snd (pop_last m))"
begin

lemma distinct_keys: "inv m \<Longrightarrow> distinct (map fst (items m))"
  using ascending strict_sorted_iff by blast

text \<open>The entry taken from the front has the least key, and only that key disappears.\<close>

lemma pop_first_least:
  assumes "inv m" and "pop_first m = (Some (k, v), m')"
  shows "get m k = Some v" and "get m' = (get m)(k := None)" and "\<forall>j \<in> dom (get m). k \<le> j"
proof -
  obtain es where items: "items m = (k, v) # es" and rest: "items m' = es" and inv': "inv m'"
    using assms first_none first_some by (cases "items m") fastforce+
  show "get m k = Some v" using assms(1) items by (simp add: get_items)
  have "k \<notin> fst ` set es" using distinct_keys [OF assms(1)] items by simp
  then have "map_of es k = None" by (simp add: map_of_eq_None_iff)
  then show "get m' = (get m)(k := None)"
    using assms(1) items rest inv' by (auto simp: get_items fun_eq_iff)
  show "\<forall>j \<in> dom (get m). k \<le> j"
    using ascending [OF assms(1)] assms(1) items
    by (auto simp: get_items domIff image_iff split: if_splits dest!: map_of_SomeD intro: less_imp_le)
qed

end

section \<open>Association lists implement it\<close>

lemma fst_bt_insert: "fst ` set (bt_insert k v m) = insert k (fst ` set m)"
  by (induction m rule: bt_insert.induct) auto

lemma bt_ok_insert: "bt_ok m \<Longrightarrow> bt_ok (bt_insert k v m)"
proof (induction k v m rule: bt_insert.induct)
  case (2 k v j w m)
  then show ?case
    using fst_bt_insert [of k v m] by (auto simp: bt_ok_def)
qed (simp add: bt_ok_def)

lemma bt_get_insert: "bt_ok m \<Longrightarrow> bt_get (bt_insert k v m) = (bt_get m)(k \<mapsto> v)"
  by (induction k v m rule: bt_insert.induct) (auto simp: bt_ok_def bt_get_def fun_eq_iff)

lemma bt_insert_last: "\<forall>j \<in> fst ` set m. j < k \<Longrightarrow> bt_insert k v m = m @ [(k, v)]"
  by (induction k v m rule: bt_insert.induct) auto

interpretation bt: ordered_map bt_insert bt_get "\<lambda>m. m" bt_pop_first bt_pop_last bt_ok
  by unfold_locales
     (auto simp: bt_ok_insert [unfolded bt_ok_def] bt_get_insert [unfolded bt_ok_def bt_get_def] bt_ok_def bt_get_def bt_pop_first_def bt_pop_last_def
       sorted_wrt_append)

end
