(* ===== verification/Open_Chunk.thy ===== *)
theory Open_Chunk
  imports Chunk_Load Ordered_Map
begin

text \<open>
  \<open>src/chunk/open_chunk.rs\<close>, \<open>src/chunk/closed_chunk.rs\<close> and
  \<open>src/wal/closed_chunk_reader.rs\<close>: the chunk that accepts records, encoding them into a pending
  buffer, its creation with or without a first record, closed chunks with the checkpoint they were
  closed at, and reading records from closed chunks.
\<close>

section \<open>The open chunk\<close>

record open_chunk =
  pending_data :: "byte list"
  oc_chunk :: chunk

definition open_chunk_new :: "chunk \<Rightarrow> open_chunk" where
  "open_chunk_new c = \<lparr> pending_data = [], oc_chunk = c \<rparr>"

definition take_pending_data :: "open_chunk \<Rightarrow> byte list \<times> open_chunk" where
  "take_pending_data oc = (pending_data oc, oc\<lparr>pending_data := []\<rparr>)"

definition from_file :: "chunk_id \<Rightarrow> nat \<Rightarrow> open_chunk" where
  "from_file cid f =
     \<lparr> pending_data = [],
       oc_chunk = \<lparr> chunk_file = f, global_offsets = [offset cid], truncated = None \<rparr> \<rparr>"

definition create_file :: "config \<Rightarrow> chunk_id \<Rightarrow> ('z fs_scheme, nat) io" where
  "create_file cfg cid =
     io_bind (open_create_new (chunk_path cfg cid)) (\<lambda>f.
     io_bind (sync_dir cfg) (\<lambda>_. io_return f))"

definition create_empty :: "config \<Rightarrow> chunk_id \<Rightarrow> ('z fs_scheme, open_chunk) io" where
  "create_empty cfg cid = io_bind (create_file cfg cid) (\<lambda>f. io_return (from_file cid f))"

definition append_record :: "('a, 'c) wal_types \<Rightarrow> open_chunk \<Rightarrow> ('a, 'c) wal_record \<Rightarrow>
    segment res \<times> open_chunk" where
  "append_record W oc r =
     (let pending_len = length (pending_data oc); (bs, res) = wal_encode W r;
          pd = pending_data oc @ bs
      in case res of
           Inl err \<Rightarrow> (Inl (Err err), oc\<lparr>pending_data := take pending_len pd\<rparr>)
         | Inr sz \<Rightarrow>
            (let oc' = oc\<lparr>pending_data := pd, oc_chunk := append_record_size (oc_chunk oc) sz\<rparr>
             in (last_segment (oc_chunk oc'), oc')))"

definition create_with_initial_record :: "('a, 'c) wal_types \<Rightarrow> config \<Rightarrow> chunk_id \<Rightarrow>
    ('a, 'c) wal_record \<Rightarrow> ('z fs_scheme, open_chunk) io" where
  "create_with_initial_record W cfg cid initial =
     io_bind (create_empty cfg cid) (\<lambda>oc.
       case append_record W oc initial of
         (Inl e, _) \<Rightarrow> io_fail e
       | (Inr _, oc') \<Rightarrow>
          io_bind (write_all (chunk_file (oc_chunk oc')) (pending_data oc'))
            (\<lambda>_. io_return (oc'\<lparr>pending_data := []\<rparr>)))"

section \<open>Closed chunks\<close>

record 'c closed_chunk =
  cc_state :: 'c
  cc_chunk :: chunk

definition closed_chunk_new :: "chunk \<Rightarrow> 'c \<Rightarrow> 'c closed_chunk" where
  "closed_chunk_new c st = \<lparr> cc_state = st, cc_chunk = c \<rparr>"

record 'c chunk_stat =
  st_chunk_id :: chunk_id
  st_records_count :: nat
  st_global_start :: nat
  st_global_end :: nat
  st_size :: nat
  st_log_state :: 'c

definition chunk_stat_of :: "chunk \<Rightarrow> 'c \<Rightarrow> 'c chunk_stat" where
  "chunk_stat_of c log_state =
     \<lparr> st_chunk_id = get_chunk_id c, st_records_count = records_count c,
       st_global_start = global_start c, st_global_end = global_end c,
       st_size = chunk_size c, st_log_state = log_state \<rparr>"

definition closed_stat :: "'c closed_chunk \<Rightarrow> 'c chunk_stat" where
  "closed_stat cc = chunk_stat_of (cc_chunk cc) (cc_state cc)"

text \<open>The display form of a statistic, with the checkpoint already rendered.\<close>

definition chunk_stat_display :: "('c \<Rightarrow> string) \<Rightarrow> 'c chunk_stat \<Rightarrow> string" where
  "chunk_stat_display show_state st =
     ''ChunkStat('' @ chunk_id_display (st_chunk_id st) @ ''){records: '' @
     dec_digits (st_records_count st) @ '', ['' @ format_pad9_u64 (st_global_start st) @ '', '' @
     format_pad9_u64 (st_global_end st) @ ''), size: '' @ format_pad9_u64 (st_size st) @
     '', log_state: '' @ show_state (st_log_state st) @ ''}''"

type_synonym 'c closed_chunks = "(chunk_id, 'c closed_chunk) btree_map"

definition closed_read_record :: "('a, 'c) wal_types \<Rightarrow> 'c closed_chunks \<Rightarrow> chunk_id \<Rightarrow> segment \<Rightarrow>
    ('z fs_scheme, ('a, 'c) wal_record) io" where
  "closed_read_record W chunks cid seg =
     (case bt_get chunks cid of
        None \<Rightarrow> io_fail (Err NotFound)
      | Some closed \<Rightarrow> read_record W (cc_chunk closed) seg)"

section \<open>Appending\<close>

text \<open>
  The open chunk holds the records \<open>rs\<close>, of whose bytes \<open>out\<close> have been handed out: index and
  buffer agree with them.
\<close>

definition open_holds :: "('a, 'c) wal_types \<Rightarrow> nat \<Rightarrow> ('a, 'c) wal_record list \<Rightarrow> byte list \<Rightarrow>
    open_chunk \<Rightarrow> bool" where
  "open_holds W start rs out oc =
     (list_all (encodable W) rs \<and>
      global_offsets (oc_chunk oc) = offsets_from start (rec_sizes W rs) \<and>
      out @ pending_data oc = log_bytes W rs \<and> start + length (log_bytes W rs) < 2 ^ 64)"

lemma open_holds_wf: "open_holds W start rs out oc \<Longrightarrow> wf_chunk (oc_chunk oc)"
  by (simp add: open_holds_def wf_chunk_def sorted_offsets_from global_end_def)

lemma open_holds_end: "open_holds W start rs out oc \<Longrightarrow> global_end (oc_chunk oc) = start + length (log_bytes W rs)"
  by (simp add: open_holds_def global_end_def)

lemma append_record_rejected:
  "\<not> encodable W r \<Longrightarrow> \<exists>e. append_record W oc r = (Inl (Err e), oc)"
  by (auto simp: append_record_def encodable_def Let_def split: prod.splits sum.splits)

lemma open_holds_from_file: "offset cid < 2 ^ 64 \<Longrightarrow> open_holds W (offset cid) [] [] (from_file cid f)"
  by (simp add: open_holds_def from_file_def)

lemma open_holds_take:
  "open_holds W start rs out oc \<Longrightarrow> take_pending_data oc = (data, oc') \<Longrightarrow>
   open_holds W start rs (out @ data) oc' \<and> oc_chunk oc' = oc_chunk oc"
  by (auto simp: open_holds_def take_pending_data_def)

context wal_types
begin

lemma append_record_ok:
  assumes "encodable W r"
  shows "append_record W oc r =
    (let c' = append_record_size (oc_chunk oc) (length (bytes_of W r))
     in (last_segment c', oc\<lparr>pending_data := pending_data oc @ bytes_of W r, oc_chunk := c'\<rparr>))"
  using bytes_of_decode(3) [OF assms] by (simp add: append_record_def Let_def)

lemma append_record_holds:
  assumes "open_holds W start rs out oc" and "encodable W r"
    and "start + length (log_bytes W rs) + length (bytes_of W r) < 2 ^ 64"
  shows "\<exists>oc'. append_record W oc r =
       (Inr (Segment (start + length (log_bytes W rs)) (length (bytes_of W r))), oc') \<and>
     open_holds W start (rs @ [r]) out oc' \<and> chunk_file (oc_chunk oc') = chunk_file (oc_chunk oc)"
proof -
  note wf = open_holds_wf [OF assms(1)] and fin = open_holds_end [OF assms(1)]
  have seg: "last_segment (append_record_size (oc_chunk oc) (length (bytes_of W r))) =
      Inr (Segment (start + length (log_bytes W rs)) (length (bytes_of W r)))"
    using last_segment_append [OF wf] assms(3) fin by simp
  have "global_offsets (append_record_size (oc_chunk oc) (length (bytes_of W r))) =
      offsets_from start (rec_sizes W (rs @ [r]))"
    using assms(1,3) by (simp add: append_record_size_def open_holds_def offsets_from_snoc offset_simps)
  then show ?thesis
    using assms seg
    by (auto simp: append_record_ok Let_def open_holds_def append_record_size_def simp flip: append_assoc)
qed

end

section \<open>Creating chunk files\<close>

lemma create_file_cases:
  assumes "create_file cfg cid s = (Inr f, s')"
  shows "lookup s (chunk_path cfg cid) = None" and "f = next_ino s"
    and "entries s' = entries s @ [(chunk_path cfg cid, f)]" and "synced_entries s' = entries s'"
    and "content_of s' f = []" and "\<And>i. i \<noteq> f \<Longrightarrow> inode s' i = inode s i"
  using assms
  by (auto simp: create_file_def sync_dir_def open_create_new_def syscall_def io_bind_app new_file_def
      split: list.splits sys_outcome.splits if_splits)

lemma create_file_calm:
  assumes "script s = []" and "lookup s (chunk_path cfg cid) = None" and "dir cfg \<in> set (dirs s)"
  shows "create_file cfg cid s =
    (Inr (next_ino s), (new_file (chunk_path cfg cid) s)
       \<lparr>synced_entries := entries s @ [(chunk_path cfg cid, next_ino s)]\<rparr>)"
proof -
  have "parent_exists s (chunk_path cfg cid)"
    using assms(3)
    by (auto simp: parent_exists_def list_ex_iff chunk_path_def intro!: bexI [of _ "dir cfg"])
  then show ?thesis
    using assms by (simp add: create_file_def sync_dir_def open_create_new_def io_bind_app)
qed

text \<open>The state after a chunk file was created and its first record written.\<close>

definition created :: "config \<Rightarrow> chunk_id \<Rightarrow> byte list \<Rightarrow> 'z fs_scheme \<Rightarrow> 'z fs_scheme" where
  "created cfg cid bs s =
     append_content (next_ino s) bs
       ((new_file (chunk_path cfg cid) s)\<lparr>synced_entries := entries s @ [(chunk_path cfg cid, next_ino s)]\<rparr>)"

lemma create_with_initial_record_calm:
  assumes "wal_types W" and "script s = []" and "lookup s (chunk_path cfg cid) = None"
    and "dir cfg \<in> set (dirs s)" and "encodable W r" and "offset cid + length (bytes_of W r) < 2 ^ 64"
  shows "create_with_initial_record W cfg cid r s =
    (Inr (open_chunk_new (loaded W cid (next_ino s) [r] None)), created cfg cid (bytes_of W r) s)"
proof -
  let ?oc = "from_file cid (next_ino s)"
  obtain oc where oc: "append_record W ?oc r = (Inr (Segment (offset cid) (length (bytes_of W r))), oc)"
      "open_holds W (offset cid) [r] [] oc" "chunk_file (oc_chunk oc) = next_ino s"
    using wal_types.append_record_holds [OF assms(1) open_holds_from_file assms(5), of cid "next_ino s"] assms(6)
    by (auto simp: from_file_def)
  have "truncated (oc_chunk oc) = None"
    using oc(1) wal_types.append_record_ok [OF assms(1,5), of ?oc]
    by (auto simp: Let_def append_record_size_def from_file_def)
  then have "oc\<lparr>pending_data := []\<rparr> = open_chunk_new (loaded W cid (next_ino s) [r] None)"
    and "pending_data oc = bytes_of W r"
    using oc(2,3) by (auto simp: open_holds_def open_chunk_new_def loaded_def)
  then show ?thesis
    using oc create_file_calm [OF assms(2-4)] assms(2)
    by (simp add: create_with_initial_record_def create_empty_def io_bind_app created_def)
qed

section \<open>Properties\<close>

text \<open>
  C13. Appending is all or nothing: an encodable record extends the buffer by exactly its bytes and
  the index by its segment, which starts where the chunk ended before; any other record, even one
  whose encoder failed after writing some bytes, leaves buffer and index exactly as they were.
\<close>

theorem append_record_atomic:
  assumes "wal_types W" and "open_holds W start rs out oc"
    and "start + length (log_bytes W rs) + length (bytes_of W r) < 2 ^ 64"
  shows "if encodable W r
    then \<exists>oc'. append_record W oc r =
           (Inr (Segment (start + length (log_bytes W rs)) (length (bytes_of W r))), oc') \<and>
         open_holds W start (rs @ [r]) out oc'
    else \<exists>e. append_record W oc r = (Inl (Err e), oc)"
  using wal_types.append_record_holds [OF assms(1,2) _ assms(3)] append_record_rejected [of W r oc]
  by auto

theorem append_record_atomic_witness:
  "\<exists>e. append_record test_wal (from_file (ChunkId 0) 0) (Action FAILS_TO_ENCODE) =
     (Inl (Err e), from_file (ChunkId 0) 0)"
proof -
  have "\<not> encodable test_wal (Action FAILS_TO_ENCODE)"
    by (simp add: encodable_def test_wal_defs CHECKPOINT_RECORD_TYPE_def)
  moreover have "length (bytes_of test_wal (Action FAILS_TO_ENCODE)) = 9"
    by (simp add: bytes_of_def test_wal_defs CHECKPOINT_RECORD_TYPE_def)
  ultimately show ?thesis
    using append_record_atomic [OF test_wal_ok open_holds_from_file [of "ChunkId 0"],
        where r = "Action FAILS_TO_ENCODE"]
    by simp
qed

text \<open>
  C25. A chunk file that was created successfully is committed: whatever system calls fail, when
  \<open>create_file\<close> returns a handle, the name did not exist before, it is on stable storage together
  with all other current names, and the file is empty; no other file was touched.
\<close>

theorem create_file_committed:
  assumes "create_file cfg cid s = (Inr f, s')"
  shows "lookup s (chunk_path cfg cid) = None \<and>
    map_of (synced_entries s') (chunk_path cfg cid) = Some f \<and>
    synced_entries s' = entries s' \<and> content_of s' f = [] \<and> (\<forall>i. i = f \<or> inode s' i = inode s i)"
  using create_file_cases [OF assms] by (auto simp: map_add_def)

theorem create_file_committed_witness:
  "map_of (synced_entries (snd (create_file demo_config (ChunkId 64) (demo_fs []))))
     (chunk_path demo_config (ChunkId 64)) = Some 1"
proof -
  have "lookup (demo_fs []) (chunk_path demo_config (ChunkId 64)) = None"
    using chunk_path_eq_iff [of "ChunkId 64" "ChunkId 0" demo_config] by (simp add: demo_fs_def)
  then have "create_file demo_config (ChunkId 64) (demo_fs []) = (Inr 1,
      snd (create_file demo_config (ChunkId 64) (demo_fs [])))"
    using create_file_calm [of "demo_fs []" demo_config "ChunkId 64"]
    by (simp add: demo_fs_def demo_config_def config_new_def)
  from create_file_committed [OF this] show ?thesis by blast
qed

end
