(* ===== verification/Flush_Request.thy ===== *)
theory Flush_Request
  imports Open_Chunk
begin

text \<open>
  The requests the log sends to its flush worker and the batch the worker collects them in:
  \<open>src/wal/file_persisted.rs\<close>, \<open>src/wal/file_entry.rs\<close>, \<open>src/wal/flush_request.rs\<close>,
  \<open>src/wal/queued_write.rs\<close> and \<open>src/wal/write_batch.rs\<close>.

  \<open>'cb\<close> is the user's callback type (\<open>W::Callback\<close>), \<open>'c\<close> the checkpoint type. The user function
  behind \<open>ChunkPersistedFn\<close> is the same for all files of a log; what it is called with is recorded
  by the world of the flush worker, so the callback of a file keeps only the checkpoint it passes.
  An \<open>Instant\<close> is a number of nanoseconds.
\<close>

section \<open>Files under synchronisation\<close>

record chunk_persisted =
  cp_starting_offset :: nat
  cp_synced_offset :: nat

record 'c chunk_persisted_callback =
  prev_chunk_state :: "'c option"

record 'c file_entry =
  fe_starting_offset :: nat
  fe_f :: nat
  on_persisted :: "'c chunk_persisted_callback"
  sync_id :: nat

definition file_entry_new :: "nat \<Rightarrow> nat \<Rightarrow> 'c option \<Rightarrow> 'c file_entry" where
  "file_entry_new starting_offset f prev =
     \<lparr> fe_starting_offset = starting_offset, fe_f = f,
       on_persisted = \<lparr> prev_chunk_state = prev \<rparr>, sync_id = 0 \<rparr>"

definition file_entry_display :: "'c file_entry \<Rightarrow> string" where
  "file_entry_display e =
     ''FileEntry{ starting_offset: '' @ chunk_id_display (ChunkId (fe_starting_offset e)) @
     '', sync_id: '' @ dec_digits (sync_id e) @ '' }''"

record flush_stat =
  fs_starting_offset :: nat
  fs_sync_id :: nat
  fs_ino :: nat

definition offset_sync_id :: "flush_stat \<Rightarrow> nat \<times> nat" where
  "offset_sync_id st = (fs_starting_offset st, fs_sync_id st)"

section \<open>Requests\<close>

record 'cb write_request =
  upto_offset :: nat
  wr_data :: "byte list"
  wr_sync :: bool
  wr_callback :: "'cb option"

text \<open>The channel of a statistics request is represented by a number that names it.\<close>

datatype ('cb, 'c) worker_request =
    AppendFile "'c file_entry"
  | RemoveChunks "string list"
  | Write "'cb write_request"
  | GetFlushStat nat

record ('cb, 'c) seq_request =
  seq :: nat
  queued_at :: nat
  req :: "('cb, 'c) worker_request"

record 'cb queued_write =
  qw_queued_at :: nat
  qw_write :: "'cb write_request"

section \<open>Batches\<close>

record ('cb, 'c) write_batch =
  writes :: "'cb queued_write list"
  max_seq :: nat
  last_non_flush :: "('cb, 'c) seq_request option"
  max_size :: nat

definition write_batch_new :: "nat \<Rightarrow> ('cb, 'c) write_batch" where
  "write_batch_new n = \<lparr> writes = [], max_seq = 0, last_non_flush = None, max_size = n \<rparr>"

definition reset :: "('cb, 'c) write_batch \<Rightarrow> ('cb, 'c) write_batch" where
  "reset b = b\<lparr>writes := [], max_seq := 0, last_non_flush := None\<rparr>"

definition push_seq_request ::
    "('cb, 'c) seq_request \<Rightarrow> ('cb, 'c) write_batch \<Rightarrow> bool \<times> ('cb, 'c) write_batch" where
  "push_seq_request sr b =
     (case req sr of
        Write w \<Rightarrow>
          (True, b\<lparr>max_seq := max (max_seq b) (seq sr),
                   writes := writes b @ [\<lparr> qw_queued_at = queued_at sr, qw_write = w \<rparr>]\<rparr>)
      | _ \<Rightarrow> (False, b\<lparr>last_non_flush := Some sr\<rparr>))"

section \<open>Facts\<close>

definition is_write :: "('cb, 'c) seq_request \<Rightarrow> bool" where
  "is_write sr = (case req sr of Write _ \<Rightarrow> True | _ \<Rightarrow> False)"

text \<open>The bytes a request reserves in the queue and puts into the file.\<close>

definition req_data :: "('cb, 'c) worker_request \<Rightarrow> byte list" where
  "req_data r = (case r of Write w \<Rightarrow> wr_data w | _ \<Rightarrow> [])"

definition queued_of :: "('cb, 'c) seq_request \<Rightarrow> 'cb queued_write list" where
  "queued_of sr =
     (case req sr of Write w \<Rightarrow> [\<lparr> qw_queued_at = queued_at sr, qw_write = w \<rparr>] | _ \<Rightarrow> [])"

definition queue_bytes :: "('cb, 'c) seq_request list \<Rightarrow> nat" where
  "queue_bytes q = sum_list (map (\<lambda>sr. length (req_data (req sr))) q)"

definition writes_data :: "'cb queued_write list \<Rightarrow> byte list" where
  "writes_data ws = concat (map (\<lambda>w. wr_data (qw_write w)) ws)"

lemma queue_bytes_simps [simp]:
  "queue_bytes [] = 0"
  "queue_bytes (sr # q) = length (req_data (req sr)) + queue_bytes q"
  "queue_bytes (p @ q) = queue_bytes p + queue_bytes q"
  by (simp_all add: queue_bytes_def)

lemma writes_data_simps [simp]:
  "writes_data [] = []"
  "writes_data (w # ws) = wr_data (qw_write w) @ writes_data ws"
  "writes_data (vs @ ws) = writes_data vs @ writes_data ws"
  by (simp_all add: writes_data_def)

lemma writes_data_queued_of [simp]: "writes_data (queued_of sr) = req_data (req sr)"
  by (simp add: queued_of_def req_data_def split: worker_request.splits)

lemma push_seq_request_cases:
  "push_seq_request sr b =
     (if is_write sr
      then (True, b\<lparr>max_seq := max (max_seq b) (seq sr), writes := writes b @ queued_of sr\<rparr>)
      else (False, b\<lparr>last_non_flush := Some sr\<rparr>))"
  by (simp add: push_seq_request_def is_write_def queued_of_def split: worker_request.splits)

lemma reset_sel [simp]:
  "writes (reset b) = []" "max_seq (reset b) = 0" "last_non_flush (reset b) = None"
  "max_size (reset b) = max_size b"
  by (simp_all add: reset_def)

end
