(* ===== verification/Flush_Metrics.thy ===== *)
theory Flush_Metrics
  imports Flush_Request
begin

text \<open>
  \<open>src/wal/batch_metrics.rs\<close>, \<open>src/wal/atomic_flush_metrics.rs\<close> and the metric types of
  \<open>src/stat.rs\<close>: what one batch measures, how it is added to the totals, and the snapshot handed to
  the user. The counters are \<open>u64\<close> that wrap around.

  The latency histograms come from the crate \<open>base2histogram\<close>. A histogram is represented by the
  values recorded in it, and its \<open>percentile_stats\<close> is the parameter \<open>P\<close>, a function of those
  values. The atomic counters are only written by the flush worker, so each update is one step.
\<close>

section \<open>One batch\<close>

record batch_metrics =
  bm_batch_size :: nat
  bm_sync_batch :: bool
  bm_write_bytes :: nat
  bm_callback_count :: nat
  bm_group_wait_us :: nat
  bm_queued_wait_us :: nat
  bm_queued_wait_max_us :: nat
  bm_write_us :: nat
  bm_sync_us :: nat
  bm_batch_us :: nat

definition duration_micros :: "nat \<Rightarrow> nat" where
  "duration_micros nanos = min (nanos div 1000) (2 ^ 64 - 1)"

definition batch_metrics_new :: "nat \<Rightarrow> nat \<Rightarrow> batch_metrics" where
  "batch_metrics_new n group_wait =
     \<lparr> bm_batch_size = n, bm_sync_batch = False, bm_write_bytes = 0, bm_callback_count = 0,
       bm_group_wait_us = duration_micros group_wait, bm_queued_wait_us = 0,
       bm_queued_wait_max_us = 0, bm_write_us = 0, bm_sync_us = 0, bm_batch_us = 0 \<rparr>"

text \<open>\<open>duration_since\<close> saturates at zero, like the subtraction on \<open>nat\<close>.\<close>

definition record_queued_write :: "nat \<Rightarrow> 'cb queued_write \<Rightarrow> batch_metrics \<Rightarrow> batch_metrics" where
  "record_queued_write batch_start w m =
     (let wait_us = duration_micros (batch_start - qw_queued_at w)
      in m\<lparr>bm_queued_wait_us := u64_add (bm_queued_wait_us m) wait_us,
           bm_queued_wait_max_us := max (bm_queued_wait_max_us m) wait_us,
           bm_write_bytes := u64_add (bm_write_bytes m) (length (wr_data (qw_write w))),
           bm_callback_count :=
             (if wr_callback (qw_write w) \<noteq> None then u64_add (bm_callback_count m) 1
              else bm_callback_count m)\<rparr>)"

definition record_write_time :: "nat \<Rightarrow> batch_metrics \<Rightarrow> batch_metrics" where
  "record_write_time elapsed m = m\<lparr>bm_write_us := duration_micros elapsed\<rparr>"

definition record_sync_time :: "nat \<Rightarrow> batch_metrics \<Rightarrow> batch_metrics" where
  "record_sync_time elapsed m = m\<lparr>bm_sync_batch := True, bm_sync_us := duration_micros elapsed\<rparr>"

definition record_batch_time :: "nat \<Rightarrow> batch_metrics \<Rightarrow> batch_metrics" where
  "record_batch_time elapsed m = m\<lparr>bm_batch_us := duration_micros elapsed\<rparr>"

section \<open>Totals\<close>

type_synonym histogram = "nat list"

record flush_latency_histograms =
  h_group_wait :: histogram
  h_queued_wait :: histogram
  h_write :: histogram
  h_sync :: histogram
  h_batch :: histogram

definition histogram_record :: "nat \<Rightarrow> histogram \<Rightarrow> histogram" where
  "histogram_record v h = h @ [v]"

definition histograms_record_batch ::
    "batch_metrics \<Rightarrow> flush_latency_histograms \<Rightarrow> flush_latency_histograms" where
  "histograms_record_batch m h =
     \<lparr> h_group_wait = (if bm_group_wait_us m > 0 then histogram_record (bm_group_wait_us m) (h_group_wait h)
                       else h_group_wait h),
       h_queued_wait = histogram_record (bm_queued_wait_max_us m) (h_queued_wait h),
       h_write = histogram_record (bm_write_us m) (h_write h),
       h_sync = (if bm_sync_us m > 0 then histogram_record (bm_sync_us m) (h_sync h) else h_sync h),
       h_batch = histogram_record (bm_batch_us m) (h_batch h) \<rparr>"

record flush_counters =
  batch_count :: nat
  sync_batch_count :: nat
  write_request_count :: nat
  write_bytes :: nat
  callback_count :: nat
  group_wait_count :: nat
  group_wait_us :: nat
  group_wait_max_us :: nat
  queued_wait_us :: nat
  queued_wait_max_us :: nat
  write_us :: nat
  write_max_us :: nat
  sync_us :: nat
  sync_max_us :: nat
  batch_us :: nat
  batch_max_us :: nat
  batch_size_max :: nat
  batch_bytes_max :: nat
  last_batch_size :: nat
  last_batch_bytes :: nat
  last_callback_count :: nat
  last_sync_us :: nat
  last_queued_wait_max_us :: nat

record atomic_flush_metrics = flush_counters +
  latency_histograms :: flush_latency_histograms

definition atomic_flush_metrics_default :: atomic_flush_metrics where
  "atomic_flush_metrics_default =
     \<lparr> batch_count = 0, sync_batch_count = 0, write_request_count = 0, write_bytes = 0,
       callback_count = 0, group_wait_count = 0, group_wait_us = 0, group_wait_max_us = 0,
       queued_wait_us = 0, queued_wait_max_us = 0, write_us = 0, write_max_us = 0, sync_us = 0,
       sync_max_us = 0, batch_us = 0, batch_max_us = 0, batch_size_max = 0, batch_bytes_max = 0,
       last_batch_size = 0, last_batch_bytes = 0, last_callback_count = 0, last_sync_us = 0,
       last_queued_wait_max_us = 0,
       latency_histograms =
         \<lparr> h_group_wait = [], h_queued_wait = [], h_write = [], h_sync = [], h_batch = [] \<rparr> \<rparr>"

text \<open>
  The compare-and-exchange loop of \<open>update_max\<close>: a failed exchange observes the value that is
  stored, and the loop goes on while it is smaller.
\<close>

definition update_max :: "nat \<Rightarrow> nat \<Rightarrow> nat" where
  "update_max current v = (if v > current then v else current)"

definition record_batch :: "batch_metrics \<Rightarrow> atomic_flush_metrics \<Rightarrow> atomic_flush_metrics" where
  "record_batch m a =
     \<lparr> batch_count = u64_add (batch_count a) 1,
       sync_batch_count =
         (if bm_sync_batch m then u64_add (sync_batch_count a) 1 else sync_batch_count a),
       write_request_count = u64_add (write_request_count a) (bm_batch_size m),
       write_bytes = u64_add (write_bytes a) (bm_write_bytes m),
       callback_count = u64_add (callback_count a) (bm_callback_count m),
       group_wait_count =
         (if bm_group_wait_us m > 0 then u64_add (group_wait_count a) 1 else group_wait_count a),
       group_wait_us =
         (if bm_group_wait_us m > 0 then u64_add (group_wait_us a) (bm_group_wait_us m)
          else group_wait_us a),
       group_wait_max_us =
         (if bm_group_wait_us m > 0 then update_max (group_wait_max_us a) (bm_group_wait_us m)
          else group_wait_max_us a),
       queued_wait_us = u64_add (queued_wait_us a) (bm_queued_wait_us m),
       queued_wait_max_us = update_max (queued_wait_max_us a) (bm_queued_wait_max_us m),
       write_us = u64_add (write_us a) (bm_write_us m),
       write_max_us = update_max (write_max_us a) (bm_write_us m),
       sync_us = (if bm_sync_us m > 0 then u64_add (sync_us a) (bm_sync_us m) else sync_us a),
       sync_max_us =
         (if bm_sync_us m > 0 then update_max (sync_max_us a) (bm_sync_us m) else sync_max_us a),
       batch_us = u64_add (batch_us a) (bm_batch_us m),
       batch_max_us = update_max (batch_max_us a) (bm_batch_us m),
       batch_size_max = update_max (batch_size_max a) (bm_batch_size m),
       batch_bytes_max = update_max (batch_bytes_max a) (bm_write_bytes m),
       last_batch_size = bm_batch_size m,
       last_batch_bytes = bm_write_bytes m,
       last_callback_count = bm_callback_count m,
       last_sync_us = bm_sync_us m,
       last_queued_wait_max_us = bm_queued_wait_max_us m,
       latency_histograms = histograms_record_batch m (latency_histograms a) \<rparr>"

section \<open>Snapshot\<close>

record flush_latency_percentiles =
  p50_us :: nat
  p90_us :: nat
  p99_us :: nat

record flush_metrics = flush_counters +
  group_wait_percentiles :: flush_latency_percentiles
  queued_wait_percentiles :: flush_latency_percentiles
  write_percentiles :: flush_latency_percentiles
  sync_percentiles :: flush_latency_percentiles
  batch_percentiles :: flush_latency_percentiles

definition percentiles ::
    "(histogram \<Rightarrow> nat \<times> nat \<times> nat) \<Rightarrow> histogram \<Rightarrow> flush_latency_percentiles" where
  "percentiles P h = (case P h of (p50, p90, p99) \<Rightarrow> \<lparr> p50_us = p50, p90_us = p90, p99_us = p99 \<rparr>)"

definition snapshot ::
    "(histogram \<Rightarrow> nat \<times> nat \<times> nat) \<Rightarrow> atomic_flush_metrics \<Rightarrow> flush_metrics" where
  "snapshot P a =
     flush_counters.extend (flush_counters.truncate a)
       (flush_metrics.fields
         (percentiles P (h_group_wait (latency_histograms a)))
         (percentiles P (h_queued_wait (latency_histograms a)))
         (percentiles P (h_write (latency_histograms a)))
         (percentiles P (h_sync (latency_histograms a)))
         (percentiles P (h_batch (latency_histograms a))))"

section \<open>Facts\<close>

lemma update_max_max [simp]: "update_max a b = max a b"
  by (simp add: update_max_def)

text \<open>What a batch records of its writes.\<close>

lemma record_queued_writes:
  assumes "length (writes_data ws) < 2 ^ 64" and "length ws < 2 ^ 64"
  shows "bm_write_bytes (fold (record_queued_write t) ws (batch_metrics_new n g)) =
           length (writes_data ws)"
    and "bm_callback_count (fold (record_queued_write t) ws (batch_metrics_new n g)) =
           length (filter (\<lambda>w. wr_callback (qw_write w) \<noteq> None) ws)"
    and "bm_batch_size (fold (record_queued_write t) ws (batch_metrics_new n g)) = n"
proof -
  have gen: "bm_write_bytes m + length (writes_data ws) < 2 ^ 64 \<Longrightarrow>
      bm_callback_count m + length ws < 2 ^ 64 \<Longrightarrow>
      bm_write_bytes (fold (record_queued_write t) ws m) = bm_write_bytes m + length (writes_data ws) \<and>
      bm_callback_count (fold (record_queued_write t) ws m) =
        bm_callback_count m + length (filter (\<lambda>w. wr_callback (qw_write w) \<noteq> None) ws) \<and>
      bm_batch_size (fold (record_queued_write t) ws m) = bm_batch_size m" for m
  proof (induction ws arbitrary: m)
    case Nil
    then show ?case by simp
  next
    case (Cons w ws)
    have "bm_write_bytes (record_queued_write t w m) =
        bm_write_bytes m + length (wr_data (qw_write w))"
      "bm_callback_count (record_queued_write t w m) =
        bm_callback_count m + (if wr_callback (qw_write w) \<noteq> None then 1 else 0)"
      "bm_batch_size (record_queued_write t w m) = bm_batch_size m"
      using Cons.prems by (auto simp: record_queued_write_def Let_def offset_simps)
    then show ?case using Cons.IH [of "record_queued_write t w m"] Cons.prems by auto
  qed
  show "bm_write_bytes (fold (record_queued_write t) ws (batch_metrics_new n g)) =
           length (writes_data ws)"
    "bm_callback_count (fold (record_queued_write t) ws (batch_metrics_new n g)) =
           length (filter (\<lambda>w. wr_callback (qw_write w) \<noteq> None) ws)"
    "bm_batch_size (fold (record_queued_write t) ws (batch_metrics_new n g)) = n"
    using gen [of "batch_metrics_new n g"] assms by (auto simp: batch_metrics_new_def)
qed

section \<open>Totals over a run\<close>

definition totals :: "batch_metrics list \<Rightarrow> atomic_flush_metrics" where
  "totals ms = fold record_batch ms atomic_flush_metrics_default"

lemma totals_simps:
  "totals [] = atomic_flush_metrics_default"
  "totals (ms @ [m]) = record_batch m (totals ms)"
  by (simp_all add: totals_def)

text \<open>The last batch, of which the latest values are kept.\<close>

definition latest :: "('m \<Rightarrow> nat) \<Rightarrow> 'm list \<Rightarrow> nat" where
  "latest f ms = (if ms = [] then 0 else f (last ms))"

lemma latest_snoc [simp]: "latest f [] = 0" "latest f (ms @ [m]) = f m"
  by (simp_all add: latest_def)

lemmas totals_step = totals_simps record_batch_def atomic_flush_metrics_default_def

lemma totals_counts:
  "batch_count (totals ms) = length ms mod 2 ^ 64"
  "sync_batch_count (totals ms) = length (filter bm_sync_batch ms) mod 2 ^ 64"
  "group_wait_count (totals ms) = length (filter (\<lambda>m. bm_group_wait_us m > 0) ms) mod 2 ^ 64"
  by (induction ms rule: rev_induct) (simp_all add: totals_step u64_add_def mod_simps)

lemma totals_sums:
  "write_request_count (totals ms) = sum_list (map bm_batch_size ms) mod 2 ^ 64"
  "write_bytes (totals ms) = sum_list (map bm_write_bytes ms) mod 2 ^ 64"
  "callback_count (totals ms) = sum_list (map bm_callback_count ms) mod 2 ^ 64"
  "queued_wait_us (totals ms) = sum_list (map bm_queued_wait_us ms) mod 2 ^ 64"
  "write_us (totals ms) = sum_list (map bm_write_us ms) mod 2 ^ 64"
  "batch_us (totals ms) = sum_list (map bm_batch_us ms) mod 2 ^ 64"
  by (induction ms rule: rev_induct) (simp_all add: totals_step u64_add_def mod_simps)

lemma totals_group_wait_sum: "group_wait_us (totals ms) = sum_list (map bm_group_wait_us ms) mod 2 ^ 64"
  by (induction ms rule: rev_induct) (simp_all add: totals_step u64_add_def mod_simps)

lemma totals_sync_sum: "sync_us (totals ms) = sum_list (map bm_sync_us ms) mod 2 ^ 64"
  by (induction ms rule: rev_induct) (simp_all add: totals_step u64_add_def mod_simps)

lemma totals_maxima:
  "group_wait_max_us (totals ms) = fold max (map bm_group_wait_us ms) 0"
  "queued_wait_max_us (totals ms) = fold max (map bm_queued_wait_max_us ms) 0"
  "write_max_us (totals ms) = fold max (map bm_write_us ms) 0"
  "sync_max_us (totals ms) = fold max (map bm_sync_us ms) 0"
  "batch_max_us (totals ms) = fold max (map bm_batch_us ms) 0"
  "batch_size_max (totals ms) = fold max (map bm_batch_size ms) 0"
  "batch_bytes_max (totals ms) = fold max (map bm_write_bytes ms) 0"
  by (induction ms rule: rev_induct) (simp_all add: totals_step max.commute)

lemma totals_latest:
  "last_batch_size (totals ms) = latest bm_batch_size ms"
  "last_batch_bytes (totals ms) = latest bm_write_bytes ms"
  "last_callback_count (totals ms) = latest bm_callback_count ms"
  "last_sync_us (totals ms) = latest bm_sync_us ms"
  "last_queued_wait_max_us (totals ms) = latest bm_queued_wait_max_us ms"
  by (induction ms rule: rev_induct) (simp_all add: totals_step)

lemma totals_histograms:
  "h_batch (latency_histograms (totals ms)) = map bm_batch_us ms"
  "h_write (latency_histograms (totals ms)) = map bm_write_us ms"
  "h_queued_wait (latency_histograms (totals ms)) = map bm_queued_wait_max_us ms"
  "h_sync (latency_histograms (totals ms)) = filter (\<lambda>v. v > 0) (map bm_sync_us ms)"
  "h_group_wait (latency_histograms (totals ms)) = filter (\<lambda>v. v > 0) (map bm_group_wait_us ms)"
  by (induction ms rule: rev_induct)
     (simp_all add: totals_simps record_batch_def atomic_flush_metrics_default_def
       histograms_record_batch_def histogram_record_def)

lemma snapshot_counters:
  "flush_counters.truncate (snapshot P a) = flush_counters.truncate a"
  by (simp add: snapshot_def flush_counters.defs)

text \<open>
  C40. Every field of the metrics a user reads after any run of batches, from the counters at zero: the numbers of batches, of
  synchronised ones and of those that waited for their group, the sums of requests, bytes, callbacks and
  times, all modulo \<open>2 ^ 64\<close>; the exact maxima; the values of the last batch; and the percentiles of
  exactly the batches' latencies, where group wait and sync only count the batches in which they took time.
\<close>

theorem metrics_totals:
  "snapshot P (totals ms) =
   \<lparr> batch_count = length ms mod 2 ^ 64,
     sync_batch_count = length (filter bm_sync_batch ms) mod 2 ^ 64,
     write_request_count = sum_list (map bm_batch_size ms) mod 2 ^ 64,
     write_bytes = sum_list (map bm_write_bytes ms) mod 2 ^ 64,
     callback_count = sum_list (map bm_callback_count ms) mod 2 ^ 64,
     group_wait_count = length (filter (\<lambda>m. bm_group_wait_us m > 0) ms) mod 2 ^ 64,
     group_wait_us = sum_list (map bm_group_wait_us ms) mod 2 ^ 64,
     group_wait_max_us = fold max (map bm_group_wait_us ms) 0,
     queued_wait_us = sum_list (map bm_queued_wait_us ms) mod 2 ^ 64,
     queued_wait_max_us = fold max (map bm_queued_wait_max_us ms) 0,
     write_us = sum_list (map bm_write_us ms) mod 2 ^ 64,
     write_max_us = fold max (map bm_write_us ms) 0,
     sync_us = sum_list (map bm_sync_us ms) mod 2 ^ 64,
     sync_max_us = fold max (map bm_sync_us ms) 0,
     batch_us = sum_list (map bm_batch_us ms) mod 2 ^ 64,
     batch_max_us = fold max (map bm_batch_us ms) 0,
     batch_size_max = fold max (map bm_batch_size ms) 0,
     batch_bytes_max = fold max (map bm_write_bytes ms) 0,
     last_batch_size = latest bm_batch_size ms,
     last_batch_bytes = latest bm_write_bytes ms,
     last_callback_count = latest bm_callback_count ms,
     last_sync_us = latest bm_sync_us ms,
     last_queued_wait_max_us = latest bm_queued_wait_max_us ms,
     group_wait_percentiles = percentiles P (filter (\<lambda>v. v > 0) (map bm_group_wait_us ms)),
     queued_wait_percentiles = percentiles P (map bm_queued_wait_max_us ms),
     write_percentiles = percentiles P (map bm_write_us ms),
     sync_percentiles = percentiles P (filter (\<lambda>v. v > 0) (map bm_sync_us ms)),
     batch_percentiles = percentiles P (map bm_batch_us ms) \<rparr>"
  by (simp add: snapshot_def flush_counters.defs flush_metrics.defs totals_counts totals_sums
      totals_group_wait_sum totals_sync_sum totals_maxima totals_latest totals_histograms)

end
