(* ===== verification/Flush_State.thy ===== *)
theory Flush_State
  imports Flush_Metrics
begin

text \<open>
  What the log and its flush worker share: the byte budget of the request queue
  (\<open>src/wal/queued_bytes.rs\<close>), the progress and failure report (\<open>WorkerState\<close> of
  \<open>src/wal/flush_worker.rs\<close>), the request channel, the metrics and the clock. Together with the file
  system they form the record \<open>world\<close> on which both sides work.

  Waiting on a condition variable is a result of its own: \<open>acquire\<close> and \<open>wait_for\<close> return \<open>None\<close> in
  a state in which the caller has to go on waiting.
\<close>

section \<open>Queued bytes\<close>

record queued_bytes =
  qb_limit :: nat
  qb_used :: nat

definition queued_bytes_new :: "nat \<Rightarrow> queued_bytes" where
  "queued_bytes_new n = \<lparr> qb_limit = n, qb_used = 0 \<rparr>"

definition acquire :: "nat \<Rightarrow> queued_bytes \<Rightarrow> queued_bytes option" where
  "acquire n q =
     (if qb_used q > 0 \<and> u64_add (qb_used q) n > qb_limit q then None
      else Some (q\<lparr>qb_used := u64_add (qb_used q) n\<rparr>))"

definition release :: "nat \<Rightarrow> queued_bytes \<Rightarrow> queued_bytes" where
  "release n q = q\<lparr>qb_used := u64_sub (qb_used q) n\<rparr>"

definition release_all :: "queued_bytes \<Rightarrow> queued_bytes" where
  "release_all q = q\<lparr>qb_used := 0\<rparr>"

text \<open>
  A budget is used by clients that reserve and give back: \<open>rs\<close> lists the reservations that are
  outstanding.
\<close>

locale byte_budget =
  fixes limit :: "'q \<Rightarrow> nat" and used :: "'q \<Rightarrow> nat"
    and acq :: "nat \<Rightarrow> 'q \<Rightarrow> 'q option" and rel :: "nat \<Rightarrow> 'q \<Rightarrow> 'q"
  assumes acq_some: "acq n q = Some q' \<Longrightarrow> used q + n < 2 ^ 64 \<Longrightarrow>
      used q' = used q + n \<and> limit q' = limit q \<and> (used q = 0 \<or> used q + n \<le> limit q)"
    and acq_none: "acq n q = None \<Longrightarrow> 0 < used q"
    and rel: "n \<le> used q \<Longrightarrow> used q < 2 ^ 64 \<Longrightarrow> used (rel n q) = used q - n \<and> limit (rel n q) = limit q"
begin

definition budget_inv :: "nat list \<Rightarrow> 'q \<Rightarrow> bool" where
  "budget_inv rs q = (used q = sum_list rs \<and> used q < 2 ^ 64 \<and>
     (used q \<le> limit q \<or> (\<exists>r \<in> set rs. used q = r)))"

lemma inv_acq:
  assumes "budget_inv rs q" and "acq n q = Some q'" and "sum_list rs + n < 2 ^ 64"
  shows "budget_inv (rs @ [n]) q'"
  using assms acq_some [OF assms(2)] by (auto simp: budget_inv_def)

lemma sum_list_remove1: "(r :: nat) \<in> set rs \<Longrightarrow> sum_list (remove1 r rs) = sum_list rs - r"
  by (induction rs) (auto simp: add.commute member_le_sum_list)

lemma inv_rel:
  assumes "budget_inv rs q" and r: "r \<in> set rs"
  shows "budget_inv (remove1 r rs) (rel r q)"
proof -
  have used: "used q = sum_list rs" and bound: "used q < 2 ^ 64" using assms(1) by (auto simp: budget_inv_def)
  have le: "r \<le> used q" using r used by (simp add: member_le_sum_list)
  from rel [OF le bound] have u: "used (rel r q) = used q - r" and l: "limit (rel r q) = limit q" by auto
  have "used q - r \<le> limit q \<or> (\<exists>t \<in> set (remove1 r rs). used q - r = t)"
  proof (cases "used q \<le> limit q \<or> r = used q")
    case True
    then show ?thesis by auto
  next
    case False
    then obtain t where t: "t \<in> set rs" "used q = t" using assms(1) by (auto simp: budget_inv_def)
    with False have "t \<in> set (remove1 r rs)" by (auto simp: in_set_remove1)
    then have "t \<le> sum_list (remove1 r rs)" by (simp add: member_le_sum_list)
    then have "r = 0" using t le used by (simp add: sum_list_remove1 [OF r])
    with \<open>t \<in> set (remove1 r rs)\<close> t show ?thesis by auto
  qed
  then show ?thesis
    using used u l bound by (simp add: budget_inv_def sum_list_remove1 [OF r])
qed

text \<open>Nobody waits while nothing is reserved, so a waiter only waits for others.\<close>

lemma admitted_when_empty: "budget_inv [] q \<Longrightarrow> acq n q \<noteq> None"
  using acq_none by (fastforce simp: budget_inv_def)

end

interpretation qb: byte_budget qb_limit qb_used acquire release
  by unfold_locales (auto simp: acquire_def release_def u64_add_def u64_sub_exact split: if_splits)

section \<open>Progress of the worker\<close>

datatype worker_status = Running | Failed error_kind

record worker_progress =
  wp_done_seq :: nat
  wp_status :: worker_status

record worker_state =
  progress :: worker_progress
  ws_queued_bytes :: queued_bytes

definition worker_state_new :: "nat \<Rightarrow> worker_state" where
  "worker_state_new queue_max_bytes =
     \<lparr> progress = \<lparr> wp_done_seq = 0, wp_status = Running \<rparr>,
       ws_queued_bytes = queued_bytes_new queue_max_bytes \<rparr>"

definition done_seq :: "worker_state \<Rightarrow> nat" where
  "done_seq ws = wp_done_seq (progress ws)"

definition complete :: "nat \<Rightarrow> worker_state \<Rightarrow> worker_state" where
  "complete n ws = ws\<lparr>progress := (progress ws)\<lparr>wp_done_seq := max (wp_done_seq (progress ws)) n\<rparr>\<rparr>"

definition fail :: "error_kind \<Rightarrow> worker_state \<Rightarrow> worker_state" where
  "fail e ws = ws\<lparr>progress := (progress ws)\<lparr>wp_status := Failed e\<rparr>\<rparr>"

definition status_error :: "worker_status \<Rightarrow> unit res" where
  "status_error st = (case st of Running \<Rightarrow> Inr () | Failed e \<Rightarrow> Inl (Err e))"

definition wait_for :: "nat \<Rightarrow> worker_state \<Rightarrow> unit res option" where
  "wait_for target_seq ws =
     (if wp_done_seq (progress ws) \<ge> target_seq then Some (Inr ())
      else case status_error (wp_status (progress ws)) of
             Inl e \<Rightarrow> Some (Inl e)
           | Inr _ \<Rightarrow> None)"

lemma done_seq_simps [simp]:
  "done_seq (complete n ws) = max (done_seq ws) n" "done_seq (fail e ws) = done_seq ws"
  "done_seq (ws\<lparr>ws_queued_bytes := q\<rparr>) = done_seq ws"
  "ws_queued_bytes (complete n ws) = ws_queued_bytes ws" "ws_queued_bytes (fail e ws) = ws_queued_bytes ws"
  "wp_status (progress (complete n ws)) = wp_status (progress ws)"
  "wp_status (progress (fail e ws)) = Failed e"
  by (simp_all add: done_seq_def complete_def fail_def)

section \<open>The world\<close>

text \<open>
  What user code observes: a chunk-persisted call with the checkpoint it carries, the result a
  write callback receives, the answer to a statistics request. User code may panic; \<open>panic_on\<close>
  says on which calls.
\<close>

datatype ('cb, 'c) event =
    Persisted chunk_persisted "'c option"
  | Notified 'cb "unit res"
  | StatSent nat "flush_stat list"

record 'c flush_worker =
  files :: "'c file_entry list"
  wk_config :: config

text \<open>
  \<open>worker\<close> is the running worker, \<open>None\<close> once its thread has ended and the receiver is gone;
  \<open>tx_alive\<close> says whether the sender still exists. The clock advances by the scripted \<open>ticks\<close>.
\<close>

record ('cb, 'c) world = fs +
  clock :: nat
  ticks :: "nat list"
  channel :: "('cb, 'c) seq_request list"
  tx_alive :: bool
  wstate :: worker_state
  metrics :: atomic_flush_metrics
  events :: "('cb, 'c) event list"
  panic_on :: "('cb, 'c) event \<Rightarrow> bool"
  worker :: "'c flush_worker option"

definition instant_now :: "(('cb, 'c) world, nat) io" where
  "instant_now = (\<lambda>w. case ticks w of
      [] \<Rightarrow> (Inr (clock w), w)
    | t # ts \<Rightarrow> (Inr (clock w + t), w\<lparr>clock := clock w + t, ticks := ts\<rparr>))"

definition emit :: "('cb, 'c) event \<Rightarrow> (('cb, 'c) world, unit) io" where
  "emit ev = (\<lambda>w. (if panic_on w ev then Inl Panic else Inr (), w\<lparr>events := events w @ [ev]\<rparr>))"

definition on_state :: "(worker_state \<Rightarrow> worker_state) \<Rightarrow> (('cb, 'c) world, unit) io" where
  "on_state f = (\<lambda>w. (Inr (), w\<lparr>wstate := f (wstate w)\<rparr>))"

definition on_queued_bytes :: "(queued_bytes \<Rightarrow> queued_bytes) \<Rightarrow> (('cb, 'c) world, unit) io" where
  "on_queued_bytes f = on_state (\<lambda>ws. ws\<lparr>ws_queued_bytes := f (ws_queued_bytes ws)\<rparr>)"

definition on_metrics :: "(atomic_flush_metrics \<Rightarrow> atomic_flush_metrics) \<Rightarrow> (('cb, 'c) world, unit) io" where
  "on_metrics f = (\<lambda>w. (Inr (), w\<lparr>metrics := f (metrics w)\<rparr>))"

abbreviation used_bytes :: "('cb, 'c) world \<Rightarrow> nat" where
  "used_bytes w \<equiv> qb_used (ws_queued_bytes (wstate w))"

section \<open>Properties\<close>

text \<open>
  The states of a budget with the outstanding reservations: clients reserve and give back what is
  outstanding, and a worker that stops ends all reservations at once.
\<close>

inductive budget_reachable :: "nat \<Rightarrow> nat list \<Rightarrow> queued_bytes \<Rightarrow> bool" for limit where
  start: "budget_reachable limit [] (queued_bytes_new limit)"
| reserve: "budget_reachable limit rs q \<Longrightarrow> acquire n q = Some q' \<Longrightarrow> sum_list rs + n < 2 ^ 64 \<Longrightarrow>
    budget_reachable limit (rs @ [n]) q'"
| give_back: "budget_reachable limit rs q \<Longrightarrow> r \<in> set rs \<Longrightarrow>
    budget_reachable limit (remove1 r rs) (release r q)"
| reset: "budget_reachable limit rs q \<Longrightarrow> budget_reachable limit [] (release_all q)"

lemma budget_reachable_inv: "budget_reachable limit rs q \<Longrightarrow> qb.budget_inv rs q"
proof (induction rule: budget_reachable.induct)
  case start
  then show ?case by (simp add: qb.budget_inv_def queued_bytes_new_def)
next
  case reserve
  then show ?case using qb.inv_acq by blast
next
  case give_back
  then show ?case using qb.inv_rel by blast
next
  case (reset rs q)
  then show ?case by (simp add: qb.budget_inv_def release_all_def)
qed

lemma budget_reachable_limit: "budget_reachable limit rs q \<Longrightarrow> qb_limit q = limit"
  by (induction rule: budget_reachable.induct)
     (auto simp: queued_bytes_new_def acquire_def release_def release_all_def split: if_splits)

text \<open>
  C35. The memory of queued writes is bounded in every run that gives back only outstanding
  reservations, where a stop of the worker (\<open>release_all\<close>) ends all reservations made before it. Then the
  counter is exactly the sum of the outstanding reservations, and it stays within the limit unless a
  single oversized request accounts for all of it; and a reservation never has to wait when nothing is
  outstanding. The program does not always keep this rule: C29 shows a run in which a reservation that
  \<open>release_all\<close> has ended is given back, and the counter wraps around.
\<close>

theorem queued_bytes_bounded:
  assumes "budget_reachable limit rs q"
  shows "qb_used q = sum_list rs \<and>
    (if qb_used q \<le> limit then True else qb_used q \<in> set rs) \<and>
    (if rs = [] then acquire n q \<noteq> None else True)"
  using budget_reachable_inv [OF assms] budget_reachable_limit [OF assms] qb.admitted_when_empty
  by (auto simp: qb.budget_inv_def)

theorem queued_bytes_bounded_witness:
  "qb_used \<lparr> qb_limit = 10, qb_used = 4096 \<rparr> = sum_list [4096]"
proof -
  have "acquire 4096 (queued_bytes_new 10) = Some \<lparr> qb_limit = 10, qb_used = 4096 \<rparr>"
    by (simp add: acquire_def queued_bytes_new_def u64_add_def)
  then have "budget_reachable 10 ([] @ [4096]) \<lparr> qb_limit = 10, qb_used = 4096 \<rparr>"
    by (intro reserve [OF start]) simp_all
  from queued_bytes_bounded [OF this] show ?thesis by simp
qed

end
