(* ===== verification/Flush_Worker.thy ===== *)
theory Flush_Worker
  imports Flush_State
begin

text \<open>
  \<open>FlushWorker\<close> of \<open>src/wal/flush_worker.rs\<close>: the vectored writes with their resumption after short
  writes, the synchronisation of the files, the collection of batches, one iteration of the loop of
  \<open>run_inner\<close> and the whole thread.

  An iteration works on the requests that are in the channel. \<open>recv\<close> on an empty channel whose
  sender exists waits: the loop then stops with \<open>Waiting\<close> and goes on when there are new requests.
  While a batch is collected the receiver takes what has arrived until the deadline; requests that
  arrive during the wait are requests that are in the channel when the iteration starts.
\<close>

section \<open>Vectored writes\<close>

fun advance_slices :: "nat \<Rightarrow> byte list list \<Rightarrow> byte list list" where
  "advance_slices n [] = []"
| "advance_slices n (b # bs) =
     (if length b \<le> n then advance_slices (n - length b) bs else drop n b # bs)"

definition write_vectored_count :: "sys_outcome \<Rightarrow> byte list list \<Rightarrow> nat" where
  "write_vectored_count oc slices =
     (case oc of Short n \<Rightarrow> min n (length (concat slices)) | _ \<Rightarrow> length (concat slices))"

text \<open>The loop of \<open>write_all_vectored\<close>: the result, the bytes written, the rest of the script.\<close>

fun write_all_vectored_script ::
    "sys_outcome list \<Rightarrow> byte list list \<Rightarrow> unit res \<times> byte list \<times> sys_outcome list" where
  "write_all_vectored_script sc [] = (Inr (), [], sc)"
| "write_all_vectored_script [] remaining =
     (if write_vectored_count Done remaining = 0 then (Inl (Err WriteZero), [], [])
      else (Inr (), concat remaining, []))"
| "write_all_vectored_script (Fault k # sc) remaining =
     (if k = Interrupted then write_all_vectored_script sc remaining else (Inl (Err k), [], sc))"
| "write_all_vectored_script (oc # sc) remaining =
     (let written = write_vectored_count oc remaining
      in if written = 0 then (Inl (Err WriteZero), [], sc)
         else case write_all_vectored_script sc (advance_slices written remaining) of
                (r, w, sc') \<Rightarrow> (r, take written (concat remaining) @ w, sc'))"

definition write_all_vectored :: "nat \<Rightarrow> byte list list \<Rightarrow> ('z fs_scheme, unit) io" where
  "write_all_vectored f slices = (\<lambda>s. case write_all_vectored_script (script s) slices of
     (r, w, sc') \<Rightarrow> (r, append_content f w (s\<lparr>script := sc'\<rparr>)))"

definition MAX_VECTORED_WRITE_SLICES :: nat where
  "MAX_VECTORED_WRITE_SLICES = 1024"

function chunks :: "nat \<Rightarrow> 'a list \<Rightarrow> 'a list list" where
  "chunks n xs = (if xs = [] \<or> n = 0 then [] else take n xs # chunks n (drop n xs))"
  by pat_completeness auto
termination by (relation "measure (\<lambda>(n, xs). length xs)") auto

declare chunks.simps [simp del]

fun write_chunks :: "nat \<Rightarrow> 'cb queued_write list list \<Rightarrow> ('z fs_scheme, unit) io" where
  "write_chunks f [] = io_return ()"
| "write_chunks f (ch # chs) =
     (let io_slices = filter (\<lambda>d. d \<noteq> []) (map (\<lambda>w. wr_data (qw_write w)) ch)
      in io_bind (if io_slices \<noteq> [] then write_all_vectored f io_slices else io_return ())
           (\<lambda>_. write_chunks f chs))"

definition write_batch_vectored :: "nat \<Rightarrow> 'cb queued_write list \<Rightarrow> ('z fs_scheme, unit) io" where
  "write_batch_vectored f ws = write_chunks f (chunks MAX_VECTORED_WRITE_SLICES ws)"

section \<open>Synchronisation\<close>

fun sync_predecessors :: "'c file_entry list \<Rightarrow> ('z fs_scheme, 'c file_entry list) io" where
  "sync_predecessors (f # g # fs) =
     io_bind (sync_file (fe_f f)) (\<lambda>_. sync_predecessors (g # fs))"
| "sync_predecessors fs = io_return fs"

definition sync_data_files :: "nat \<Rightarrow> 'c flush_worker \<Rightarrow> (('cb, 'c) world, 'c flush_worker) io" where
  "sync_data_files off wk =
     (if files wk = [] then io_return wk
      else io_bind (sync_predecessors (files wk)) (\<lambda>fs.
        let f = hd fs
        in io_bind (sync_file (fe_f f)) (\<lambda>_.
           io_bind (emit (Persisted
               \<lparr> cp_starting_offset = fe_starting_offset f, cp_synced_offset = off \<rparr>
               (prev_chunk_state (on_persisted f)))) (\<lambda>_.
           io_return (wk\<lparr>files := f\<lparr>sync_id := off\<rparr> # tl fs\<rparr>)))))"

section \<open>Requests other than writes\<close>

fun collect_stats :: "'c file_entry list \<Rightarrow> ('z fs_scheme, flush_stat list) io" where
  "collect_stats [] = io_return []"
| "collect_stats (f # fs) =
     io_bind (syscall (\<lambda>s. (Inr (fe_f f), s))) (\<lambda>ino.
     io_bind (collect_stats fs) (\<lambda>sts. io_return
       (\<lparr> fs_starting_offset = fe_starting_offset f, fs_sync_id = sync_id f, fs_ino = ino \<rparr> # sts)))"

fun remove_files :: "string list \<Rightarrow> ('z fs_scheme, unit) io" where
  "remove_files [] = io_return ()"
| "remove_files (p # ps) = io_bind (remove_file p) (\<lambda>_. remove_files ps)"

definition handle_non_flush_request ::
    "('cb, 'c) worker_request \<Rightarrow> 'c flush_worker \<Rightarrow> (('cb, 'c) world, 'c flush_worker) io" where
  "handle_non_flush_request rq wk =
     (case rq of
        AppendFile e \<Rightarrow> io_return (wk\<lparr>files := files wk @ [e]\<rparr>)
      | Write _ \<Rightarrow> io_fail Panic
      | GetFlushStat tx \<Rightarrow>
          io_bind (collect_stats (files wk)) (\<lambda>st. io_bind (emit (StatSent tx st)) (\<lambda>_. io_return wk))
      | RemoveChunks paths \<Rightarrow>
          io_bind (remove_files paths) (\<lambda>_.
          io_bind (if paths \<noteq> [] then sync_dir (wk_config wk) else io_return ()) (\<lambda>_. io_return wk)))"

section \<open>Collecting a batch\<close>

function collect_loop ::
    "nat \<Rightarrow> ('cb, 'c) write_batch \<Rightarrow> ('cb, 'c) world \<Rightarrow> ('cb, 'c) write_batch \<times> ('cb, 'c) world" where
  "collect_loop deadline b w =
     (if last_non_flush b = None \<and> length (writes b) < max_size b then
        (case instant_now w of
           (Inr now, w1) \<Rightarrow>
             if deadline \<le> now then (b, w1)
             else (case channel w1 of
                     [] \<Rightarrow> (b, w1)
                   | sr # q \<Rightarrow>
                       let (ok, b') = push_seq_request sr b; w2 = w1\<lparr>channel := q\<rparr>
                       in if ok then collect_loop deadline b' w2 else (b', w2))
         | (Inl _, w1) \<Rightarrow> (b, w1))
      else (b, w))"
  by pat_completeness auto
termination
  by (relation "measure (\<lambda>(d, b, w). length (channel w))")
     (auto simp: instant_now_def split: list.splits)

declare collect_loop.simps [simp del]

definition collect_write_batch ::
    "config \<Rightarrow> ('cb, 'c) write_batch \<Rightarrow> (('cb, 'c) world, nat \<times> ('cb, 'c) write_batch) io" where
  "collect_write_batch cfg b =
     io_bind instant_now (\<lambda>loop_started_at w.
       let (b', w') = collect_loop (loop_started_at + flush_batch_wait cfg) b w
       in io_bind instant_now (\<lambda>now. io_return (now - loop_started_at, b')) w')"

section \<open>The loop\<close>

text \<open>
  Synchronising the files after a batch was written, when one of its requests asks for it. An
  error is kept for the callbacks; the worker stops after it, so its file list is not used again.
\<close>

definition sync_if_needed ::
    "unit res \<Rightarrow> ('cb, 'c) write_batch \<Rightarrow> 'c flush_worker \<Rightarrow> batch_metrics \<Rightarrow>
     (('cb, 'c) world, unit res \<times> 'c flush_worker \<times> batch_metrics) io" where
  "sync_if_needed write_res b wk bm =
     (case write_res of
        Inl e \<Rightarrow> io_return (Inl e, wk, bm)
      | Inr _ \<Rightarrow>
         if list_ex (\<lambda>q. wr_sync (qw_write q)) (writes b) then
           io_bind instant_now (\<lambda>sync_start w.
             case sync_data_files (upto_offset (qw_write (last (writes b)))) wk w of
               (Inl (Err e), w') \<Rightarrow>
                io_bind instant_now (\<lambda>t. io_return
                  (Inl (Err e), wk, record_sync_time (t - sync_start) bm)) w'
             | (Inl e, w') \<Rightarrow> (Inl e, w')
             | (Inr wk', w') \<Rightarrow>
                io_bind instant_now (\<lambda>t. io_return
                  (Inr (), wk', record_sync_time (t - sync_start) bm)) w')
         else io_return (Inr (), wk, bm))"

text \<open>The block that writes a batch, synchronises and records the metrics.\<close>

definition write_and_sync ::
    "nat \<Rightarrow> ('cb, 'c) write_batch \<Rightarrow> 'c flush_worker \<Rightarrow>
     (('cb, 'c) world, unit res \<times> 'c flush_worker) io" where
  "write_and_sync group_wait b wk =
     (if files wk = [] then io_fail Panic
      else
        io_bind instant_now (\<lambda>batch_start.
        let bm = fold (record_queued_write batch_start) (writes b)
                   (batch_metrics_new (length (writes b)) group_wait)
        in io_bind instant_now (\<lambda>write_start w.
           let (write_res, w) = write_batch_vectored (fe_f (last (files wk))) (writes b) w
           in io_bind instant_now (\<lambda>t.
              io_bind (sync_if_needed write_res b wk (record_write_time (t - write_start) bm))
                (\<lambda>(sync_result, wk', bm).
              io_bind instant_now (\<lambda>t.
              io_bind (on_metrics (record_batch (record_batch_time (t - batch_start) bm)))
                (\<lambda>_. io_return (sync_result, wk'))))) w)))"

fun notify_all :: "unit res \<Rightarrow> 'cb queued_write list \<Rightarrow> (('cb, 'c) world, unit) io" where
  "notify_all res [] = io_return ()"
| "notify_all res (q # qs) =
     io_bind (case wr_callback (qw_write q) of
                None \<Rightarrow> io_return ()
              | Some cb \<Rightarrow> emit (Notified cb res)) (\<lambda>_. notify_all res qs)"

datatype loop_control = Continue | Quit | Waiting

text \<open>
  What follows the write of a batch: the callbacks, the budget, the error if there was one, the
  request that ended the batch, and the progress report.
\<close>

definition finish_batch :: "('cb, 'c) write_batch \<Rightarrow> unit res \<Rightarrow> 'c flush_worker \<Rightarrow>
    (('cb, 'c) world, loop_control \<times> 'c flush_worker) io" where
  "finish_batch b sync_result wk =
     (let batch_bytes = sum_list (map (\<lambda>q. length (wr_data (qw_write q))) (writes b)) in
     io_bind (notify_all sync_result (writes b)) (\<lambda>_.
     io_bind (on_queued_bytes (release batch_bytes)) (\<lambda>_.
     io_bind (io_lift sync_result) (\<lambda>_.
     io_bind (case last_non_flush b of
                None \<Rightarrow> io_return (wk, max_seq b)
              | Some nf \<Rightarrow> io_bind (handle_non_flush_request (req nf) wk)
                  (\<lambda>wk. io_return (wk, max (max_seq b) (seq nf)))) (\<lambda>(wk, ms).
     io_bind (on_state (complete ms)) (\<lambda>_. io_return (Continue, wk)))))))"

text \<open>One iteration of the loop of \<open>run_inner\<close>, on the batch it keeps between iterations.\<close>

definition run_iteration ::
    "('cb, 'c) write_batch \<Rightarrow> 'c flush_worker \<Rightarrow> (('cb, 'c) world, loop_control \<times> 'c flush_worker) io" where
  "run_iteration b0 wk = (\<lambda>w.
     let b = reset b0 in
     case channel w of
       [] \<Rightarrow> (Inr (if tx_alive w then Waiting else Quit, wk), w)
     | sr # q \<Rightarrow>
       let w = w\<lparr>channel := q\<rparr>; (is_wr, b) = push_seq_request sr b in
       if \<not> is_wr then
         io_bind (handle_non_flush_request (req sr) wk) (\<lambda>wk.
         io_bind (on_state (complete (seq sr))) (\<lambda>_. io_return (Continue, wk))) w
       else
         io_bind (collect_write_batch (wk_config wk) b) (\<lambda>(group_wait, b).
         io_bind (write_and_sync group_wait b wk) (\<lambda>(sync_result, wk).
         finish_batch b sync_result wk)) w)"

section \<open>What the writes do\<close>

lemma concat_advance_slices: "concat (advance_slices n bs) = drop n (concat bs)"
  by (induction bs arbitrary: n) auto

lemma advance_slices_nonempty:
  "[] \<notin> set bs \<Longrightarrow> [] \<notin> set (advance_slices n bs)"
  by (induction bs arbitrary: n) auto

lemma concat_Nil_nonempty: "[] \<notin> set bs \<Longrightarrow> concat bs = [] \<longleftrightarrow> bs = []"
  by (cases bs) auto

lemma write_vectored_count_simps [simp]:
  "write_vectored_count Done bs = length (concat bs)"
  "write_vectored_count (Fault k) bs = length (concat bs)"
  "write_vectored_count (Short n) bs = min n (length (concat bs))"
  by (simp_all add: write_vectored_count_def)

lemma write_all_script_Short:
  "bs \<noteq> [] \<Longrightarrow> write_all_script (Short n # sc) bs =
     (if n = 0 then (Inl (Err WriteZero), [], sc)
      else case write_all_script sc (drop n bs) of (r, w, sc') \<Rightarrow> (r, take n bs @ w, sc'))"
  by (cases bs) auto
lemma write_all_script_Done:
  "write_all_script (Done # sc) bs = (Inr (), bs, if bs = [] then Done # sc else sc)"
  by (cases bs) auto
lemma write_all_script_Fault:
  "bs \<noteq> [] \<Longrightarrow> write_all_script (Fault k # sc) bs =
     (if k = Interrupted then write_all_script sc bs else (Inl (Err k), [], sc))"
  by (cases bs) auto

lemma write_all_vectored_script_eq:
  "[] \<notin> set bs \<Longrightarrow> write_all_vectored_script sc bs = write_all_script sc (concat bs)"
proof (induction sc bs rule: write_all_vectored_script.induct [case_names nothing empty fault full short])
  case (nothing sc)
  then show ?case by simp
next
  case (empty b bs)
  then show ?case using concat_Nil_nonempty [of "b # bs"] by (simp del: concat.simps)
next
  case (fault k sc b bs)
  then show ?case using concat_Nil_nonempty [of "b # bs"] by (simp add: write_all_script_Fault del: concat.simps)
next
  case (full sc b bs)
  have ne: "concat (b # bs) \<noteq> []" using concat_Nil_nonempty [of "b # bs"] full.prems by blast
  have "concat (advance_slices (length (concat (b # bs))) (b # bs)) = []"
    by (simp only: concat_advance_slices) simp
  then have "advance_slices (length (concat (b # bs))) (b # bs) = []"
    using advance_slices_nonempty [OF full.prems] concat_Nil_nonempty by blast
  then show ?case
    using ne by (simp add: write_all_script_Done Let_def del: concat.simps advance_slices.simps concat_eq_Nil_conv)
next
  case (short n sc b bs)
  have ne: "concat (b # bs) \<noteq> []" using concat_Nil_nonempty [of "b # bs"] short.prems by blast
  define m where "m = min n (length (concat (b # bs)))"
  show ?case
  proof (cases "n = 0")
    case True
    then show ?thesis using ne by (simp add: write_all_script_Short del: concat.simps)
  next
    case False
    then have m: "m \<noteq> 0" using ne by (simp add: m_def del: concat.simps)
    have "write_all_vectored_script sc (advance_slices m (b # bs)) =
        write_all_script sc (drop m (concat (b # bs)))"
      using short.IH [of m] m advance_slices_nonempty [OF short.prems]
      by (simp add: m_def concat_advance_slices del: concat.simps advance_slices.simps)
    moreover have "drop m (concat (b # bs)) = drop n (concat (b # bs))"
      "take m (concat (b # bs)) = take n (concat (b # bs))" by (auto simp: m_def min_def)
    ultimately show ?thesis
      using ne False m
      by (simp add: write_all_script_Short Let_def m_def [symmetric] del: concat.simps advance_slices.simps)
  qed
qed

lemma write_all_vectored_eq:
  "[] \<notin> set bs \<Longrightarrow> write_all_vectored f bs = write_all f (concat bs)"
  by (simp add: write_all_vectored_def write_all_def write_all_vectored_script_eq fun_eq_iff)

lemma concat_chunks: "0 < n \<Longrightarrow> concat (chunks n xs) = xs"
  by (induction n xs rule: chunks.induct) (subst chunks.simps, simp)

lemma concat_filter_nonempty: "concat (filter (\<lambda>d. d \<noteq> []) ds) = concat ds"
  by (induction ds) auto

lemma io_slices_data: "concat (filter (\<lambda>d. d \<noteq> []) (map (\<lambda>w. wr_data (qw_write w)) ch)) = writes_data ch"
  by (simp add: concat_filter_nonempty writes_data_def)

definition appends :: "nat \<Rightarrow> byte list \<Rightarrow> 'z fs_scheme \<Rightarrow> 'z fs_scheme \<Rightarrow> bool" where
  "appends f d s s' = (same_dir s s' \<and>
     inode s' = (inode s)(f := (inode s f)\<lparr>content := content_of s f @ d\<rparr>))"

lemma appends_refl: "appends f [] s s"
  by (simp add: appends_def)

lemma appends_trans: "appends f d s s' \<Longrightarrow> appends f e s' s'' \<Longrightarrow> appends f (d @ e) s s''"
  by (auto simp: appends_def intro: same_dir_trans)

lemma appends_append_content: "appends f d s (append_content f d (s\<lparr>script := sc\<rparr>))"
  by (auto simp: appends_def append_content_def same_dir_def fun_eq_iff)

lemma write_all_script_no_panic: "fst (write_all_script sc bs) \<noteq> Inl Panic"
  by (induction sc bs rule: write_all_script.induct) (auto split: prod.splits)

lemma write_all_appends:
  assumes "write_all f bs s = (r, s')"
  shows "\<exists>d. appends f d s s' \<and> prefix d bs \<and> (r = Inr () \<longrightarrow> d = bs) \<and> r \<noteq> Inl Panic"
proof -
  obtain r' d sc where w: "write_all_script (script s) bs = (r', d, sc)"
    by (cases "write_all_script (script s) bs") auto
  then have "r = r'" "s' = append_content f d (s\<lparr>script := sc\<rparr>)"
    using assms by (auto simp: write_all_def)
  moreover have "r' \<noteq> Inl Panic"
    using write_all_script_no_panic [of "script s" bs] w by auto
  ultimately show ?thesis
    using write_all_script_prefix [OF w] write_all_script_ok w appends_append_content by blast
qed

lemma write_chunks_appends:
  assumes "write_chunks f chs s = (r, s')"
  shows "\<exists>d. appends f d s s' \<and> prefix d (writes_data (concat chs)) \<and>
    (r = Inr () \<longrightarrow> d = writes_data (concat chs)) \<and> r \<noteq> Inl Panic"
  using assms
proof (induction chs arbitrary: s)
  case Nil
  then show ?case using appends_refl by fastforce
next
  case (Cons ch chs)
  let ?sl = "filter (\<lambda>d. d \<noteq> []) (map (\<lambda>w. wr_data (qw_write w)) ch)"
  obtain r1 s1 where one: "(if ?sl \<noteq> [] then write_all_vectored f ?sl else io_return ()) s = (r1, s1)"
    by (cases "(if ?sl \<noteq> [] then write_all_vectored f ?sl else io_return ()) s")
  have "\<exists>d. appends f d s s1 \<and> prefix d (writes_data ch) \<and> (r1 = Inr () \<longrightarrow> d = writes_data ch) \<and>
      r1 \<noteq> Inl Panic"
  proof (cases "?sl = []")
    case True
    then have "writes_data ch = []" using io_slices_data [of ch] by simp
    with True one show ?thesis using appends_refl by fastforce
  next
    case False
    have "write_all f (writes_data ch) s = (r1, s1)"
      using one False by (simp add: write_all_vectored_eq io_slices_data)
    then show ?thesis by (rule write_all_appends)
  qed
  then obtain d where d: "appends f d s s1" "prefix d (writes_data ch)"
    "r1 = Inr () \<longrightarrow> d = writes_data ch" "r1 \<noteq> Inl Panic" by blast
  show ?case
  proof (cases r1)
    case (Inl e)
    then have "r = Inl e" "s' = s1" using Cons.prems one by (simp_all add: io_bind_app Let_def)
    with d Inl show ?thesis by (auto intro!: exI [of _ d] intro: prefix_order.trans)
  next
    case (Inr u)
    then have "write_chunks f chs s1 = (r, s')" using Cons.prems one by (simp add: io_bind_app Let_def)
    from Cons.IH [OF this] obtain e where "appends f e s1 s'" "prefix e (writes_data (concat chs))"
      "r = Inr () \<longrightarrow> e = writes_data (concat chs)" "r \<noteq> Inl Panic" by blast
    with d Inr show ?thesis by (auto intro!: exI [of _ "d @ e"] appends_trans)
  qed
qed

lemma write_batch_vectored_appends:
  assumes "write_batch_vectored f ws s = (r, s')"
  shows "\<exists>d. appends f d s s' \<and> prefix d (writes_data ws) \<and> (r = Inr () \<longrightarrow> d = writes_data ws) \<and>
    r \<noteq> Inl Panic"
  using write_chunks_appends [OF assms [unfolded write_batch_vectored_def]]
  by (simp add: concat_chunks MAX_VECTORED_WRITE_SLICES_def)

section \<open>What the synchronisation does\<close>

definition frame where
  "frame (w :: ('cb, 'c) world) = (entries w, synced_entries w, dirs w, held_locks w, next_ino w, channel w,
     tx_alive w, wstate w, panic_on w, worker w)"

lemma same_dir_frame:
  assumes "same_dir w w'"
  shows "frame w' = frame w" and "events w' = events w"
  using assms by (cases w; cases w'; simp add: same_dir_def frame_def)+

lemma instant_now_step:
  obtains t w' where "instant_now w = (Inr t, w')" and "frame w' = frame w" and "inode w' = inode w"
    and "events w' = events w"
  by (cases "ticks w") (auto simp: instant_now_def frame_def fun_eq_iff inode_def)

definition synced_up :: "nat set \<Rightarrow> 'z fs_scheme \<Rightarrow> 'z fs_scheme \<Rightarrow> bool" where
  "synced_up S s s' = (same_dir s s' \<and> (\<forall>i. content_of s' i = content_of s i) \<and>
     (\<forall>i. synced_of s' i = synced_of s i \<or> synced_of s' i = content_of s i) \<and>
     (\<forall>i \<in> S. synced_of s' i = content_of s i))"

lemma synced_up_refl: "synced_up {} s s"
  by (simp add: synced_up_def)

lemma synced_up_trans: "synced_up S s s' \<Longrightarrow> synced_up T s' s'' \<Longrightarrow> synced_up (S \<union> T) s s''"
  unfolding synced_up_def by (auto intro: same_dir_trans) metis+

lemma sync_file_cases:
  assumes "sync_file f s = (r, s')"
  shows "(r = Inr () \<and> synced_up {f} s s') \<or> (\<exists>k. r = Inl (Err k) \<and> synced_up {} s s')"
proof -
  have "same_dir s s'"
    using assms unfolding sync_file_def by (rule same_dir_syscall) simp
  moreover have "(r = Inr () \<and> inode s' = (inode s)(f := (inode s f)\<lparr>synced := content_of s f\<rparr>)) \<or>
      (\<exists>k. r = Inl (Err k) \<and> inode s' = inode s)"
    using assms
    by (auto simp: sync_file_def syscall_def fun_eq_iff split: list.splits sys_outcome.splits)
  ultimately show ?thesis by (auto simp: synced_up_def)
qed

lemma sync_predecessors_cases:
  assumes "sync_predecessors fs s = (r, s')" and "fs \<noteq> []"
  shows "(r = Inr [last fs] \<and> synced_up (fe_f ` set (butlast fs)) s s') \<or>
    (\<exists>k. r = Inl (Err k) \<and> (\<exists>S. synced_up S s s'))"
  using assms
proof (induction fs arbitrary: s rule: sync_predecessors.induct)
  case (1 f g fs)
  obtain r1 s1 where one: "sync_file (fe_f f) s = (r1, s1)" by (cases "sync_file (fe_f f) s")
  from sync_file_cases [OF one] show ?case
  proof (elim disjE conjE exE)
    assume r1: "r1 = Inr ()" and up: "synced_up {fe_f f} s s1"
    then have "sync_predecessors (g # fs) s1 = (r, s')" using "1.prems" one by (simp add: io_bind_app)
    from "1.IH" [OF this] synced_up_trans [OF up] show ?thesis by fastforce
  next
    fix k assume "r1 = Inl (Err k)" "synced_up {} s s1"
    then show ?thesis using "1.prems" one by (auto simp: io_bind_app)
  qed
qed (auto simp: synced_up_refl)

definition persisted_event :: "nat \<Rightarrow> 'c file_entry \<Rightarrow> ('cb, 'c) event" where
  "persisted_event off f = Persisted
     \<lparr> cp_starting_offset = fe_starting_offset f, cp_synced_offset = off \<rparr> (prev_chunk_state (on_persisted f))"

lemma fe_set_butlast: "fs \<noteq> [] \<Longrightarrow> insert (fe_f (last fs)) (fe_f ` set (butlast fs)) = fe_f ` set fs"
  by (induction fs) auto

lemma sync_data_files_cases:
  assumes "sync_data_files off wk w = (r, w')" and "files wk \<noteq> []"
  obtains (ok) "r = Inr (wk\<lparr>files := [(last (files wk))\<lparr>sync_id := off\<rparr>]\<rparr>)"
      "events w' = events w @ [persisted_event off (last (files wk))]" "frame w' = frame w"
      "\<And>i. content_of w' i = content_of w i"
      "\<And>i. synced_of w' i = synced_of w i \<or> synced_of w' i = content_of w i"
      "\<And>i. i \<in> fe_f ` set (files wk) \<Longrightarrow> synced_of w' i = content_of w i"
  | (panic) "r = Inl Panic"
      "events w' = events w @ [persisted_event off (last (files wk))]" "frame w' = frame w"
      "\<And>i. content_of w' i = content_of w i"
      "\<And>i. synced_of w' i = synced_of w i \<or> synced_of w' i = content_of w i"
      "\<And>i. i \<in> fe_f ` set (files wk) \<Longrightarrow> synced_of w' i = content_of w i"
  | (err) k where "r = Inl (Err k)" "events w' = events w" "frame w' = frame w"
      "\<And>i. content_of w' i = content_of w i"
      "\<And>i. synced_of w' i = synced_of w i \<or> synced_of w' i = content_of w i"
proof -
  let ?f = "last (files wk)"
  obtain r1 w1 where one: "sync_predecessors (files wk) w = (r1, w1)"
    by (cases "sync_predecessors (files wk) w")
  from sync_predecessors_cases [OF one assms(2)] show thesis
  proof (elim disjE conjE exE)
    assume r1: "r1 = Inr [?f]" and up1: "synced_up (fe_f ` set (butlast (files wk))) w w1"
    obtain r2 w2 where two: "sync_file (fe_f ?f) w1 = (r2, w2)" by (cases "sync_file (fe_f ?f) w1")
    from sync_file_cases [OF two] show thesis
    proof (elim disjE conjE exE)
      assume r2: "r2 = Inr ()" and "synced_up {fe_f ?f} w1 w2"
      then have "synced_up (fe_f ` set (butlast (files wk)) \<union> {fe_f ?f}) w w2"
        using synced_up_trans [OF up1] by blast
      moreover have "fe_f ` set (butlast (files wk)) \<union> {fe_f ?f} = fe_f ` set (files wk)"
        using fe_set_butlast [OF assms(2)] by simp
      ultimately have up: "synced_up (fe_f ` set (files wk)) w w2" by simp
      then have fr: "frame w2 = frame w" "events w2 = events w"
        using same_dir_frame by (auto simp: synced_up_def)
      have w': "w' = w2\<lparr>events := events w2 @ [persisted_event off ?f]\<rparr>"
        and r: "r = (if panic_on w2 (persisted_event off ?f) then Inl Panic
          else Inr (wk\<lparr>files := [?f\<lparr>sync_id := off\<rparr>]\<rparr>))"
        using assms one r1 two r2
        by (auto simp: sync_data_files_def Let_def io_bind_app emit_def persisted_event_def
            split: if_splits)
      have ino: "inode w' = inode w2" and fr': "frame w' = frame w2"
        by (simp_all add: w' inode_def fun_eq_iff frame_def)
      show thesis
        using ok panic up fr fr' ino r w' by (cases "panic_on w2 (persisted_event off ?f)") (auto simp: synced_up_def)
    next
      fix k assume "r2 = Inl (Err k)" "synced_up {} w1 w2"
      moreover then have "r = Inl (Err k)" "w' = w2"
        using assms one r1 two by (auto simp: sync_data_files_def Let_def io_bind_app)
      moreover have "synced_up (fe_f ` set (butlast (files wk)) \<union> {}) w w2"
        using synced_up_trans [OF up1] calculation(2) by blast
      ultimately show thesis using err by (auto simp: synced_up_def dest: same_dir_frame)
    qed
  next
    fix k S assume "r1 = Inl (Err k)" "synced_up S w w1"
    then show thesis
      using assms one err by (auto simp: sync_data_files_def io_bind_app synced_up_def dest: same_dir_frame)
  qed
qed

definition cur_file :: "'c flush_worker \<Rightarrow> nat" where
  "cur_file wk = fe_f (last (files wk))"

definition needs_sync :: "'cb queued_write list \<Rightarrow> bool" where
  "needs_sync ws = list_ex (\<lambda>q. wr_sync (qw_write q)) ws"

text \<open>The files after bytes \<open>d\<close> were appended to \<open>f\<close> and some of them may have been synchronised.\<close>

definition grown :: "nat \<Rightarrow> byte list \<Rightarrow> ('cb, 'c) world \<Rightarrow> ('cb, 'c) world \<Rightarrow> bool" where
  "grown f d w w' = ((\<forall>i. content_of w' i = content_of w i @ (if i = f then d else [])) \<and>
     (\<forall>i. synced_of w' i = synced_of w i \<or> synced_of w' i = content_of w' i))"

text \<open>What \<open>write_and_sync\<close> leaves, by its result.\<close>

definition written :: "nat \<Rightarrow> 'cb queued_write list \<Rightarrow> 'c flush_worker \<Rightarrow>
    (unit res \<times> 'c flush_worker) res \<Rightarrow> ('cb, 'c) world \<Rightarrow> ('cb, 'c) world \<Rightarrow> bool" where
  "written off ws wk r w w' = (case r of
     Inr (Inr _, wk') \<Rightarrow> grown (cur_file wk) (writes_data ws) w w' \<and>
       (if needs_sync ws
        then wk' = wk\<lparr>files := [(last (files wk))\<lparr>sync_id := off\<rparr>]\<rparr> \<and>
          events w' = events w @ [persisted_event off (last (files wk))] \<and>
          (\<forall>i \<in> fe_f ` set (files wk). synced_of w' i = content_of w' i)
        else wk' = wk \<and> events w' = events w \<and> (\<forall>i. synced_of w' i = synced_of w i))
   | Inr (Inl e, wk') \<Rightarrow> e \<noteq> Panic \<and> events w' = events w \<and>
       (\<exists>d. prefix d (writes_data ws) \<and> grown (cur_file wk) d w w')
   | Inl e \<Rightarrow> e = Panic \<and> needs_sync ws \<and> grown (cur_file wk) (writes_data ws) w w' \<and>
       events w' = events w @ [persisted_event off (last (files wk))] \<and>
       (\<forall>i \<in> fe_f ` set (files wk). synced_of w' i = content_of w' i))"

lemma sync_if_needed_written:
  assumes run: "sync_if_needed wr b wk bm w = (r, w')" and ne: "files wk \<noteq> []"
    and d: "prefix d (writes_data (writes b))" "wr = Inr () \<longrightarrow> d = writes_data (writes b)" "wr \<noteq> Inl Panic"
    and gr: "grown (cur_file wk) d v w" "\<forall>i. synced_of w i = synced_of v i" "events w = events v"
  shows "frame w' = frame w \<and>
    written (upto_offset (qw_write (last (writes b)))) (writes b) wk
      (case r of Inl e \<Rightarrow> Inl e | Inr (res, wk', _) \<Rightarrow> Inr (res, wk')) v w'"
proof (cases "wr = Inr () \<and> needs_sync (writes b)")
  case False
  then show ?thesis
    using run d gr
    by (cases wr) (auto simp: sync_if_needed_def written_def needs_sync_def)
next
  case True
  let ?off = "upto_offset (qw_write (last (writes b)))"
  obtain t0 w0 where s0: "instant_now w = (Inr t0, w0)" "frame w0 = frame w" "inode w0 = inode w"
    "events w0 = events w" by (rule instant_now_step)
  obtain r1 w1 where s1: "sync_data_files ?off wk w0 = (r1, w1)" by (cases "sync_data_files ?off wk w0")
  obtain t2 w2 where s2: "instant_now w1 = (Inr t2, w2)" "frame w2 = frame w1" "inode w2 = inode w1"
    "events w2 = events w1" by (rule instant_now_step)
  note sync = True [unfolded needs_sync_def]
  from s1 ne show ?thesis
  proof (cases rule: sync_data_files_cases)
    case ok
    then have "r = Inr (Inr (), wk\<lparr>files := [(last (files wk))\<lparr>sync_id := ?off\<rparr>]\<rparr>, record_sync_time (t2 - t0) bm)"
      "w' = w2" using run sync s0(1) s1 s2(1) by (auto simp: sync_if_needed_def io_bind_app)
    then show ?thesis using ok True d gr s0 s2 by (auto simp: written_def grown_def)
  next
    case panic
    then have "r = Inl Panic" "w' = w1" using run sync s0(1) s1 by (auto simp: sync_if_needed_def io_bind_app)
    then show ?thesis using panic True d gr s0 by (auto simp: written_def grown_def)
  next
    case (err k)
    then have "r = Inr (Inl (Err k), wk, record_sync_time (t2 - t0) bm)" "w' = w2"
      using run sync s0(1) s1 s2(1) by (auto simp: sync_if_needed_def io_bind_app)
    moreover have "grown (cur_file wk) d v w2" using err gr s0(3) s2(3) by (auto simp: grown_def)
    ultimately show ?thesis using err True d gr s0 s2 by (auto simp: written_def)
  qed
qed

lemma written_cong:
  "written off ws wk r v w \<Longrightarrow> inode v' = inode v \<Longrightarrow> inode w' = inode w \<Longrightarrow> events v' = events v \<Longrightarrow>
   events w' = events w \<Longrightarrow> written off ws wk r v' w'"
  by (simp only: written_def grown_def)

lemma write_and_sync_written:
  assumes run: "write_and_sync g b wk w = (r, w')" and ne: "files wk \<noteq> []"
  shows "frame w' = frame w \<and> written (upto_offset (qw_write (last (writes b)))) (writes b) wk r w w'"
proof -
  obtain t0 w0 where s0: "instant_now w = (Inr t0, w0)" "frame w0 = frame w" "inode w0 = inode w"
    "events w0 = events w" by (rule instant_now_step)
  obtain t1 w1 where s1: "instant_now w0 = (Inr t1, w1)" "frame w1 = frame w" "inode w1 = inode w"
    "events w1 = events w" using s0 by (metis instant_now_step)
  obtain wr w2 where s2: "write_batch_vectored (cur_file wk) (writes b) w1 = (wr, w2)"
    by (cases "write_batch_vectored (cur_file wk) (writes b) w1")
  from write_batch_vectored_appends [OF s2] obtain d where d: "appends (cur_file wk) d w1 w2"
    "prefix d (writes_data (writes b))" "wr = Inr () \<longrightarrow> d = writes_data (writes b)" "wr \<noteq> Inl Panic" by blast
  obtain t3 w3 where s3: "instant_now w2 = (Inr t3, w3)" "frame w3 = frame w2" "inode w3 = inode w2"
    "events w3 = events w2" by (metis instant_now_step)
  have fr3: "frame w3 = frame w" "events w3 = events w"
    using s1 s3 same_dir_frame [of w1 w2] d(1) by (auto simp: appends_def)
  have gr3: "grown (cur_file wk) d w w3" "\<forall>i. synced_of w3 i = synced_of w i"
    using d(1) s1(3) s3(3) by (auto simp: appends_def grown_def)
  define bm where "bm = record_write_time (t3 - t1) (fold (record_queued_write t0) (writes b)
    (batch_metrics_new (length (writes b)) g))"
  obtain r4 w4 where s4: "sync_if_needed wr b wk bm w3 = (r4, w4)" by (cases "sync_if_needed wr b wk bm w3")
  from sync_if_needed_written [OF s4 ne d(2-4) gr3 fr3(2)] have w4: "frame w4 = frame w3"
    "written (upto_offset (qw_write (last (writes b)))) (writes b) wk
      (case r4 of Inl e \<Rightarrow> Inl e | Inr (res, wk', _) \<Rightarrow> Inr (res, wk')) w w4" by auto
  obtain t5 w5 where s5: "instant_now w4 = (Inr t5, w5)" "frame w5 = frame w4" "inode w5 = inode w4"
    "events w5 = events w4" by (rule instant_now_step)
  have fin: "frame (w5\<lparr>metrics := x\<rparr>) = frame w5" "inode (w5\<lparr>metrics := x\<rparr>) = inode w5" for x
    by (simp_all add: frame_def inode_def fun_eq_iff)
  have "r = (case r4 of Inl e \<Rightarrow> Inl e | Inr (res, wk', _) \<Rightarrow> Inr (res, wk')) \<and>
      (\<exists>x. w' = (if isl r4 then w4 else w5\<lparr>metrics := x\<rparr>))"
    using run ne s0(1) s1(1) s2 s3(1) s4 s5(1)
    by (auto simp: write_and_sync_def io_bind_app cur_file_def Let_def bm_def on_metrics_def
        split: sum.splits prod.splits)
  then show ?thesis
    using w4 fr3 s5 fin written_cong [OF w4(2) refl _ refl] by (auto split: if_splits)
qed

end
