(* ===== verification/Flush_Loop.thy ===== *)
theory Flush_Loop
  imports Flush_Worker
begin

text \<open>
  Correctness of the loop of the flush worker: an iteration takes a prefix \<open>p\<close> of the requests in the
  channel and either does what processing them one by one does (\<open>processed\<close>, \<open>accounted\<close>), or fails
  with at most a prefix of their bytes in the file (\<open>batch_failed\<close>); callbacks are told the truth in
  both cases (\<open>acks_honest\<close>). From this follow the statements on the whole run of the thread.
\<close>

section \<open>Callbacks\<close>

definition shared where
  "shared (w :: ('cb, 'c) world) = (channel w, tx_alive w, wstate w, panic_on w, worker w)"

lemma frame_shared: "frame w' = frame w \<Longrightarrow> shared w' = shared w"
  by (simp add: frame_def shared_def)

definition notifications :: "unit res \<Rightarrow> 'cb queued_write list \<Rightarrow> ('cb, 'c) event list" where
  "notifications res ws = concat (map (\<lambda>q. case wr_callback (qw_write q) of
     None \<Rightarrow> [] | Some cb \<Rightarrow> [Notified cb res]) ws)"

lemma notify_all_cases:
  assumes "notify_all res ws w = (r, w')"
  shows "frame w' = frame w \<and> inode w' = inode w \<and>
    (\<exists>evs. events w' = events w @ evs \<and> prefix evs (notifications res ws) \<and>
      (r = Inr () \<and> evs = notifications res ws \<or> r = Inl Panic))"
  using assms
proof (induction ws arbitrary: w)
  case Nil
  then show ?case by (simp add: notifications_def)
next
  case (Cons q ws)
  show ?case
  proof (cases "wr_callback (qw_write q)")
    case None
    then show ?thesis using Cons by (simp add: io_bind_app notifications_def)
  next
    case (Some cb)
    let ?w1 = "w\<lparr>events := events w @ [Notified cb res]\<rparr>"
    have fr: "frame ?w1 = frame w" "inode ?w1 = inode w"
      by (simp_all add: frame_def inode_def fun_eq_iff)
    show ?thesis
    proof (cases "panic_on w (Notified cb res)")
      case True
      then show ?thesis
        using Cons.prems Some fr by (auto simp: io_bind_app emit_def notifications_def)
    next
      case False
      then have "notify_all res ws ?w1 = (r, w')"
        using Cons.prems Some by (simp add: io_bind_app emit_def)
      from Cons.IH [OF this] fr Some show ?thesis by (auto simp: notifications_def)
    qed
  qed
qed

section \<open>Requests other than writes\<close>

lemma same_dir_shared:
  assumes "same_dir w w'"
  shows "shared w' = shared w" and "events w' = events w"
  using same_dir_frame [OF assms] frame_shared by blast+

definition inode_frame :: "'z fs_scheme \<Rightarrow> 'z fs_scheme \<Rightarrow> bool" where
  "inode_frame s s' = (inode s' = inode s \<and> fs.more s' = fs.more s)"

lemma inode_frame_refl [simp]: "inode_frame s s"
  by (simp add: inode_frame_def)

lemma inode_frame_trans: "inode_frame s s' \<Longrightarrow> inode_frame s' s'' \<Longrightarrow> inode_frame s s''"
  by (simp add: inode_frame_def)

lemma inode_frame_syscall:
  assumes "syscall m s = (r, s')" and "\<And>t. inode_frame t (snd (m t))"
    and "\<And>t. fst (m t) \<noteq> Inl Panic"
  shows "inode_frame s s'" and "r \<noteq> Inl Panic"
  using assms(1) assms(2,3) [of s] assms(2,3) [of "s\<lparr>script := tl (script s)\<rparr>"]
  by (auto simp: syscall_def inode_frame_def fun_eq_iff split: list.splits sys_outcome.splits)

lemma collect_stats_frame:
  "collect_stats fs s = (r, s') \<Longrightarrow> inode_frame s s' \<and> r \<noteq> Inl Panic"
proof (induction fs arbitrary: s r s')
  case Nil
  then show ?case by auto
next
  case (Cons f fs)
  obtain r1 s1 where one: "syscall (\<lambda>s. (Inr (fe_f f), s)) s = (r1, s1)"
    by (cases "syscall (\<lambda>s. (Inr (fe_f f), s)) s :: nat res \<times> _")
  from inode_frame_syscall [OF one] have f1: "inode_frame s s1" "r1 \<noteq> Inl Panic" by auto
  obtain r2 s2 where two: "collect_stats fs s1 = (r2, s2)" by (cases "collect_stats fs s1")
  from Cons.IH [OF two] f1 one two Cons.prems show ?case
    by (cases r1; cases r2) (auto simp: io_bind_app intro: inode_frame_trans)
qed

lemma remove_files_frame:
  "remove_files ps s = (r, s') \<Longrightarrow> inode_frame s s' \<and> r \<noteq> Inl Panic"
proof (induction ps arbitrary: s r s')
  case Nil
  then show ?case by auto
next
  case (Cons p ps)
  obtain r1 s1 where one: "remove_file p s = (r1, s1)" by (cases "remove_file p s")
  have f1: "inode_frame s s1" "r1 \<noteq> Inl Panic"
    using inode_frame_syscall [OF one [unfolded remove_file_def]]
    by (auto simp: inode_frame_def fun_eq_iff)
  obtain r2 s2 where two: "remove_files ps s1 = (r2, s2)" by (cases "remove_files ps s1")
  from Cons.IH [OF two] f1 one two Cons.prems show ?case
    by (cases r1) (auto simp: io_bind_app intro: inode_frame_trans)
qed

lemma sync_dir_frame:
  assumes "sync_dir cfg s = (r, s')"
  shows "inode_frame s s' \<and> r \<noteq> Inl Panic"
  using assms
  by (auto simp: sync_dir_def syscall_def io_bind_app inode_frame_def fun_eq_iff
      split: list.splits sys_outcome.splits if_splits)

lemma inode_frame_world:
  assumes "inode_frame w w'"
  shows "shared w' = shared w" and "events w' = events w" and "inode w' = inode w"
  using assms by (cases w; cases w'; simp add: inode_frame_def shared_def)+

definition appended_entries :: "('cb, 'c) worker_request \<Rightarrow> 'c file_entry list" where
  "appended_entries rq = (case rq of AppendFile e \<Rightarrow> [e] | _ \<Rightarrow> [])"

lemma handle_non_flush_request_cases:
  assumes "handle_non_flush_request rq wk w = (r, w')"
  shows "shared w' = shared w \<and> inode w' = inode w \<and>
    (\<exists>evs. events w' = events w @ evs \<and> (\<forall>cb res. Notified cb res \<notin> set evs)) \<and>
    (\<forall>wk'. r = Inr wk' \<longrightarrow> wk' = wk\<lparr>files := files wk @ appended_entries rq\<rparr>)"
proof (cases rq)
  case (AppendFile e)
  then show ?thesis using assms by (auto simp: handle_non_flush_request_def appended_entries_def)
next
  case (Write x)
  then show ?thesis using assms by (auto simp: handle_non_flush_request_def)
next
  case (RemoveChunks ps)
  obtain r1 w1 where one: "remove_files ps w = (r1, w1)" by (cases "remove_files ps w")
  obtain r2 w2 where two: "(if ps \<noteq> [] then sync_dir (wk_config wk) else io_return ()) w1 = (r2, w2)"
    by (cases "(if ps \<noteq> [] then sync_dir (wk_config wk) else io_return ()) w1")
  then have "inode_frame w1 w2" using sync_dir_frame by (cases "ps = []") auto
  moreover have "inode_frame w w1" using remove_files_frame [OF one] by blast
  ultimately have "inode_frame w w1" "inode_frame w w2" by (auto intro: inode_frame_trans)
  note fr = inode_frame_world [OF this(1)] inode_frame_world [OF this(2)]
  show ?thesis
    using assms one two RemoveChunks fr
    by (cases r1; cases r2) (auto simp: handle_non_flush_request_def appended_entries_def io_bind_app)
next
  case (GetFlushStat tx)
  obtain r1 w1 where one: "collect_stats (files wk) w = (r1, w1)" by (cases "collect_stats (files wk) w")
  then have "inode_frame w w1" using collect_stats_frame by blast
  note fr = inode_frame_world [OF this]
  show ?thesis
    using assms one GetFlushStat fr
    by (cases r1) (auto simp: handle_non_flush_request_def appended_entries_def io_bind_app emit_def
        shared_def inode_def fun_eq_iff split: if_splits)
qed

section \<open>Batches\<close>

definition top_seq :: "nat \<Rightarrow> ('cb, 'c) seq_request list \<Rightarrow> nat" where
  "top_seq n q = fold max (map seq q) n"

lemma top_seq_simps [simp]:
  "top_seq n [] = n" "top_seq n (sr # q) = top_seq (max (seq sr) n) q"
  "top_seq n (p @ q) = top_seq (top_seq n p) q"
  by (simp_all add: top_seq_def)

lemma top_seq_max: "max d (top_seq n q) = top_seq (max d n) q"
  by (induction q arbitrary: n) (simp_all add: max.left_commute)

text \<open>The requests \<open>p\<close> a batch stands for: writes, and at most one other request, the last one.\<close>

definition batch_holds :: "('cb, 'c) seq_request list \<Rightarrow> ('cb, 'c) write_batch \<Rightarrow> bool" where
  "batch_holds p b =
     (case last_non_flush b of
        None \<Rightarrow> list_all is_write p \<and> writes b = concat (map queued_of p) \<and> max_seq b = top_seq 0 p
      | Some nf \<Rightarrow> \<not> is_write nf \<and> (\<exists>p'. p = p' @ [nf] \<and> list_all is_write p' \<and>
          writes b = concat (map queued_of p') \<and> max_seq b = top_seq 0 p'))"

lemma push_batch_holds:
  assumes "batch_holds p b" and "last_non_flush b = None" and "push_seq_request sr b = (ok, b')"
  shows "batch_holds (p @ [sr]) b'" and "ok = is_write sr" and "max_size b' = max_size b"
    and "ok \<Longrightarrow> last_non_flush b' = None \<and> length (writes b') = Suc (length (writes b))"
    and "\<not> ok \<Longrightarrow> writes b' = writes b"
  using assms
  by (auto simp: push_seq_request_cases batch_holds_def max.commute split: if_splits)
     (auto simp: queued_of_def is_write_def split: worker_request.splits)

lemma instant_now_channel:
  assumes "instant_now w = (r, w')"
  shows "frame w' = frame w" "inode w' = inode w" "events w' = events w" "\<exists>t. r = Inr t"
  using instant_now_step [of w] assms by (metis Pair_inject)+

lemma frame_channel: "frame w' = frame w \<Longrightarrow> channel w' = channel w"
  by (simp add: frame_def)

lemma frame_set_channel:
  "frame w' = frame w \<Longrightarrow> frame (w'\<lparr>channel := q\<rparr>) = frame (w\<lparr>channel := q\<rparr>)"
  by (simp add: frame_def)

lemma inode_set_channel [simp]: "inode (w\<lparr>channel := q\<rparr>) = inode w"
  by (simp add: inode_def fun_eq_iff)

lemma collect_loop_holds:
  assumes "collect_loop dl b w = (b', w')" and "batch_holds p b"
  shows "\<exists>q. channel w = q @ channel w' \<and> batch_holds (p @ q) b' \<and>
    frame w' = frame (w\<lparr>channel := channel w'\<rparr>) \<and> inode w' = inode w \<and> events w' = events w \<and>
    length (writes b') \<le> max (length (writes b)) (max_size b) \<and> max_size b' = max_size b"
  using assms
proof (induction dl b w arbitrary: p rule: collect_loop.induct)
  case (1 dl b w)
  show ?case
  proof (cases "last_non_flush b = None \<and> length (writes b) < max_size b")
    case False
    then show ?thesis using "1.prems" by (auto simp: collect_loop.simps [of dl b w] frame_def)
  next
    case guard: True
    obtain now w1 where t: "instant_now w = (Inr now, w1)" using instant_now_step by metis
    note fr = instant_now_channel [OF t]
    have fr1: "frame w1 = frame (w\<lparr>channel := channel w1\<rparr>)" using fr(1) by (simp add: frame_def)
    show ?thesis
    proof (cases "dl \<le> now \<or> channel w1 = []")
      case True
      then have "b' = b" "w' = w1"
        using "1.prems" guard t by (auto simp: collect_loop.simps [of dl b w] split: if_splits)
      then show ?thesis using "1.prems" fr fr1 frame_channel [OF fr(1)] by auto
    next
      case False
      then obtain sr q where q: "channel w1 = sr # q" by (cases "channel w1") auto
      obtain ok b1 where push: "push_seq_request sr b = (ok, b1)" by (cases "push_seq_request sr b")
      note pb = push_batch_holds [OF "1.prems"(2) conjunct1 [OF guard] push]
      have ch: "channel w = sr # q" using frame_channel [OF fr(1)] q by simp
      show ?thesis
      proof (cases ok)
        case True
        then have "collect_loop dl b1 (w1\<lparr>channel := q\<rparr>) = (b', w')"
          using "1.prems" guard t False q push by (simp add: collect_loop.simps [of dl b w])
        from "1.IH" [OF guard t [symmetric] refl _ q push [symmetric] refl refl True this pb(1)] False
        obtain q' where q': "q = q' @ channel w'" "batch_holds (p @ [sr] @ q') b'"
          "frame w' = frame (w1\<lparr>channel := q, channel := channel w'\<rparr>)" "inode w' = inode w1"
          "events w' = events w1" "length (writes b') \<le> max (length (writes b1)) (max_size b1)"
          "max_size b' = max_size b1" by auto
        show ?thesis
        proof (intro exI [of _ "sr # q'"] conjI)
          show "frame w' = frame (w\<lparr>channel := channel w'\<rparr>)"
            using q'(3) fr(1) by (simp add: frame_def)
          show "length (writes b') \<le> max (length (writes b)) (max_size b)"
            using q'(6) pb(3,4) True guard by auto
        qed (use q' ch fr pb in auto)
      next
        case no: False
        then have "b' = b1" "w' = w1\<lparr>channel := q\<rparr>"
          using "1.prems" guard t False q push by (auto simp: collect_loop.simps [of dl b w])
        then show ?thesis
          using ch fr pb no frame_set_channel [OF fr(1)] by (auto intro!: exI [of _ "[sr]"])
      qed
    qed
  qed
qed

lemma collect_write_batch_holds:
  assumes "collect_write_batch cfg b w = (r, w')" and "batch_holds p b"
  shows "\<exists>g b' q. r = Inr (g, b') \<and> channel w = q @ channel w' \<and> batch_holds (p @ q) b' \<and>
    frame w' = frame (w\<lparr>channel := channel w'\<rparr>) \<and> inode w' = inode w \<and> events w' = events w \<and>
    length (writes b') \<le> max (length (writes b)) (max_size b)"
proof -
  obtain t0 w0 where s0: "instant_now w = (Inr t0, w0)" using instant_now_step by metis
  note f0 = instant_now_channel [OF s0]
  obtain b1 w1 where s1: "collect_loop (t0 + flush_batch_wait cfg) b w0 = (b1, w1)"
    by (cases "collect_loop (t0 + flush_batch_wait cfg) b w0")
  obtain t2 w2 where s2: "instant_now w1 = (Inr t2, w2)" using instant_now_step by metis
  note f2 = instant_now_channel [OF s2]
  have "r = Inr (t2 - t0, b1)" "w' = w2"
    using assms(1) s0 s1 s2 by (auto simp: collect_write_batch_def io_bind_app)
  moreover from collect_loop_holds [OF s1 assms(2)] obtain q where
    q: "channel w0 = q @ channel w1" "batch_holds (p @ q) b1" "frame w1 = frame (w0\<lparr>channel := channel w1\<rparr>)"
    "inode w1 = inode w0" "events w1 = events w0"
    "length (writes b1) \<le> max (length (writes b)) (max_size b)" by blast
  moreover have "frame w2 = frame (w\<lparr>channel := channel w2\<rparr>)"
    using f0(1) f2(1) q(3) by (simp add: frame_def)
  ultimately show ?thesis using f0(2,3) f2(2,3) frame_channel [OF f0(1)] frame_channel [OF f2(1)] by auto
qed

section \<open>One iteration\<close>

text \<open>
  The reference: requests one by one, without batches. \<open>cur_after\<close> is the file that receives the
  writes after the requests \<open>p\<close>, \<open>routed cur p i\<close> the bytes that \<open>p\<close> appends to the file \<open>i\<close>.
\<close>

fun cur_after :: "nat \<Rightarrow> ('cb, 'c) seq_request list \<Rightarrow> nat" where
  "cur_after cur [] = cur"
| "cur_after cur (sr # q) = cur_after (case req sr of AppendFile e \<Rightarrow> fe_f e | _ \<Rightarrow> cur) q"

fun routed :: "nat \<Rightarrow> ('cb, 'c) seq_request list \<Rightarrow> nat \<Rightarrow> byte list" where
  "routed cur [] i = []"
| "routed cur (sr # q) i =
     (if i = cur then req_data (req sr) else []) @
     routed (case req sr of AppendFile e \<Rightarrow> fe_f e | _ \<Rightarrow> cur) q i"

lemma cur_after_append [simp]: "cur_after cur (p @ q) = cur_after (cur_after cur p) q"
  by (induction p arbitrary: cur) auto

lemma routed_append [simp]: "routed cur (p @ q) i = routed cur p i @ routed (cur_after cur p) q i"
  by (induction p arbitrary: cur) auto

lemma routed_writes:
  assumes "list_all is_write p"
  shows "cur_after cur p = cur"
    and "routed cur p i = (if i = cur then writes_data (concat (map queued_of p)) else [])"
  using assms by (induction p) (auto simp: is_write_def split: worker_request.splits)

lemma routed_non_write:
  assumes "\<not> is_write sr"
  shows "routed cur [sr] i = []" and "req_data (req sr) = []"
    and "cur_after cur [sr] = (case appended_entries (req sr) of [] \<Rightarrow> cur | e # _ \<Rightarrow> fe_f e)"
  using assms by (auto simp: is_write_def req_data_def appended_entries_def split: worker_request.splits)

definition syncs_any :: "('cb, 'c) seq_request list \<Rightarrow> bool" where
  "syncs_any p = list_ex (\<lambda>sr. case req sr of Write x \<Rightarrow> wr_sync x | _ \<Rightarrow> False) p"

lemma syncs_any_simps [simp]:
  "\<not> syncs_any []" "syncs_any (p @ q) \<longleftrightarrow> syncs_any p \<or> syncs_any q"
  "syncs_any [sr] \<longleftrightarrow> (case req sr of Write x \<Rightarrow> wr_sync x | _ \<Rightarrow> False)"
  by (auto simp: syncs_any_def)

lemma needs_sync_queued: "needs_sync (concat (map queued_of p)) = syncs_any p"
  by (induction p) (auto simp: needs_sync_def syncs_any_def queued_of_def split: worker_request.splits)

definition clean :: "'z fs_scheme \<Rightarrow> nat \<Rightarrow> bool" where
  "clean s i = (synced_of s i = content_of s i)"

definition open_inodes :: "'c flush_worker \<Rightarrow> nat set" where
  "open_inodes wk = fe_f ` set (files wk)"

lemma cur_file_open: "files wk \<noteq> [] \<Longrightarrow> cur_file wk \<in> open_inodes wk"
  by (simp add: cur_file_def open_inodes_def)

text \<open>The synchronised part stays, or moves to something between the old and the new content.\<close>

definition sync_moves :: "byte list \<Rightarrow> byte list \<Rightarrow> byte list \<Rightarrow> byte list \<Rightarrow> bool" where
  "sync_moves c y y' c' = (y' = y \<or> prefix c y' \<and> prefix y' c')"

lemma sync_moves_trans:
  assumes "sync_moves c y y1 c1" and "sync_moves c1 y1 y2 c2" and "prefix c c1" and "prefix c1 c2"
  shows "sync_moves c y y2 c2"
  using assms unfolding sync_moves_def by (meson prefix_order.trans)

text \<open>The effect of an iteration that took the requests \<open>p\<close> and continues.\<close>

definition processed :: "'c flush_worker \<Rightarrow> ('cb, 'c) seq_request list \<Rightarrow> 'c flush_worker \<Rightarrow>
    ('cb, 'c) world \<Rightarrow> ('cb, 'c) world \<Rightarrow> bool" where
  "processed wk p wk' w w' =
     ((\<forall>i. content_of w' i = content_of w i @ routed (cur_file wk) p i) \<and>
      (\<forall>i. sync_moves (content_of w i) (synced_of w i) (synced_of w' i) (content_of w' i)) \<and>
      files wk' \<noteq> [] \<and> cur_file wk' = cur_after (cur_file wk) p \<and> wk_config wk' = wk_config wk \<and>
      (\<forall>i. clean w i \<or> i \<in> open_inodes wk \<longrightarrow> clean w' i \<or> i \<in> open_inodes wk') \<and>
      (\<forall>p1 sr p2 i. p = p1 @ sr # p2 \<and> syncs_any [sr] \<and> (clean w i \<or> i \<in> open_inodes wk) \<longrightarrow>
         prefix (content_of w i @ routed (cur_file wk) (p1 @ [sr]) i) (synced_of w' i)))"

lemma processed_refl: "files wk \<noteq> [] \<Longrightarrow> processed wk [] wk w w"
  by (simp add: processed_def sync_moves_def)

text \<open>Processing a list of requests in two parts is processing it as a whole.\<close>

lemma processed_trans:
  assumes "processed wk p wk1 w w1" and "processed wk1 q wk2 w1 w2"
  shows "processed wk (p @ q) wk2 w w2"
proof -
  note one = assms(1) [unfolded processed_def] and two = assms(2) [unfolded processed_def]
  have cont: "content_of w2 i = content_of w i @ routed (cur_file wk) (p @ q) i" for i
    using one two by simp
  have "sync_moves (content_of w i) (synced_of w i) (synced_of w2 i) (content_of w2 i)" for i
  proof (rule sync_moves_trans)
    show "sync_moves (content_of w i) (synced_of w i) (synced_of w1 i) (content_of w1 i)"
      "sync_moves (content_of w1 i) (synced_of w1 i) (synced_of w2 i) (content_of w2 i)"
      using one two by blast+
    show "prefix (content_of w i) (content_of w1 i)" "prefix (content_of w1 i) (content_of w2 i)"
      using one two by (metis prefixI)+
  qed
  moreover have "cur_file wk2 = cur_after (cur_file wk) (p @ q)" using one two by simp
  moreover have "clean w2 i \<or> i \<in> open_inodes wk2" if "clean w i \<or> i \<in> open_inodes wk" for i
    using one two that by blast
  moreover have "prefix (content_of w i @ routed (cur_file wk) (p1 @ [sr]) i) (synced_of w2 i)"
    if "p @ q = p1 @ sr # p2" "syncs_any [sr]" "clean w i \<or> i \<in> open_inodes wk" for p1 sr p2 i
  proof -
    from that(1) consider (first) p2' where "p = p1 @ sr # p2'" | (second) q1 where "p1 = p @ q1" "q = q1 @ sr # p2"
      by (auto simp: append_eq_append_conv2 Cons_eq_append_conv append_eq_Cons_conv)
    then show ?thesis
    proof cases
      case first
      then have "prefix (content_of w i @ routed (cur_file wk) (p1 @ [sr]) i) (synced_of w1 i)"
        using one that by blast
      moreover have "prefix (content_of w i @ routed (cur_file wk) (p1 @ [sr]) i) (content_of w1 i)"
        using one first by (simp add: prefix_def)
      moreover have "sync_moves (content_of w1 i) (synced_of w1 i) (synced_of w2 i) (content_of w2 i)"
        using two by blast
      ultimately show ?thesis
        unfolding sync_moves_def by (elim disjE conjE) (simp, blast intro: prefix_order.trans)
    next
      case second
      then have "prefix (content_of w1 i @ routed (cur_file wk1) (q1 @ [sr]) i) (synced_of w2 i)"
        using one two that by blast
      then show ?thesis using one second by simp
    qed
  qed
  ultimately show ?thesis using cont one two unfolding processed_def by auto
qed

lemma written_ok_processed:
  assumes "written off ws wk (Inr (Inr u, wk')) w w'" and "files wk \<noteq> []"
    and p: "list_all is_write p" "ws = concat (map queued_of p)"
  shows "processed wk p wk' w w'"
proof -
  have gr: "grown (cur_file wk) (writes_data ws) w w'" using assms(1) by (simp add: written_def)
  then have cont: "content_of w' i = content_of w i @ routed (cur_file wk) p i" for i
    using p by (simp add: grown_def routed_writes)
  have mv: "sync_moves (content_of w i) (synced_of w i) (synced_of w' i) (content_of w' i)" for i
    using gr by (auto simp: grown_def sync_moves_def)
  show ?thesis
  proof (cases "needs_sync ws")
    case True
    then have wk': "wk' = wk\<lparr>files := [(last (files wk))\<lparr>sync_id := off\<rparr>]\<rparr>"
      and sy: "\<forall>i \<in> open_inodes wk. clean w' i"
      using assms(1) by (auto simp: written_def open_inodes_def clean_def)
    have cl: "clean w' i" if "clean w i \<or> i \<in> open_inodes wk" for i
    proof (cases "i \<in> open_inodes wk")
      case False
      then have "i \<noteq> cur_file wk" using cur_file_open [OF assms(2)] by blast
      then have "content_of w' i = content_of w i"
        and "synced_of w' i = synced_of w i \<or> synced_of w' i = content_of w' i"
        using gr unfolding grown_def by auto
      with False that show ?thesis by (auto simp: clean_def)
    qed (use sy in blast)
    then have "prefix (content_of w i @ routed (cur_file wk) (p1 @ [sr]) i) (synced_of w' i)"
      if "p = p1 @ sr # p2" "clean w i \<or> i \<in> open_inodes wk" for p1 sr p2 i
      using that cont [of i] by (auto simp: clean_def)
    then show ?thesis
      using cont mv wk' cl routed_writes(1) [OF p(1), of "cur_file wk"]
      by (auto simp: processed_def cur_file_def)
  next
    case False
    then have "wk' = wk" using assms(1) by (simp add: written_def)
    moreover have "clean w' i \<or> i \<in> open_inodes wk" if "clean w i" for i
    proof (cases "i = cur_file wk")
      case True
      then show ?thesis using cur_file_open [OF assms(2)] by simp
    next
      case i: False
      have "synced_of w' i = synced_of w i" using False assms(1) by (simp add: written_def)
      with i that gr show ?thesis by (auto simp: grown_def clean_def)
    qed
    moreover have "\<not> syncs_any [sr]" if "p = p1 @ sr # p2" for p1 sr p2
      using False p needs_sync_queued [of p] that by (auto simp: syncs_any_def)
    ultimately show ?thesis
      using cont mv assms(2) routed_writes(1) [OF p(1), of "cur_file wk"]
      by (auto simp: processed_def)
  qed
qed

lemma non_flush_processed:
  assumes "handle_non_flush_request (req sr) wk w = (Inr wk', w')" and "\<not> is_write sr" and "files wk \<noteq> []"
  shows "processed wk [sr] wk' w w'"
proof -
  from handle_non_flush_request_cases [OF assms(1)] have ino: "inode w' = inode w"
    and wk': "wk' = wk\<lparr>files := files wk @ appended_entries (req sr)\<rparr>" by auto
  have "cur_file wk' = cur_after (cur_file wk) [sr]"
    using routed_non_write(3) [OF assms(2), of "cur_file wk"] assms(3) wk'
    by (cases "req sr") (auto simp: cur_file_def appended_entries_def)
  moreover have "\<not> syncs_any [sr']" if "[sr] = p1 @ sr' # p2" for p1 sr' p2
    using assms(2) that by (cases p1) (auto simp: is_write_def split: worker_request.splits)
  ultimately show ?thesis
    using ino wk' assms(3) routed_non_write(1) [OF assms(2), of "cur_file wk"]
    unfolding processed_def by (auto simp: sync_moves_def clean_def open_inodes_def)
qed

text \<open>Progress and budget after the requests \<open>p\<close>; the rest of the shared state is untouched.\<close>

definition accounted :: "('cb, 'c) seq_request list \<Rightarrow> ('cb, 'c) world \<Rightarrow> ('cb, 'c) world \<Rightarrow> bool" where
  "accounted p w w' =
     (done_seq (wstate w') = top_seq (done_seq (wstate w)) p \<and>
      wp_status (progress (wstate w')) = wp_status (progress (wstate w)) \<and>
      qb_limit (ws_queued_bytes (wstate w')) = qb_limit (ws_queued_bytes (wstate w)) \<and>
      (queue_bytes p \<le> used_bytes w \<and> used_bytes w < 2 ^ 64 \<longrightarrow>
         used_bytes w' = used_bytes w - queue_bytes p))"

definition env_frame where
  "env_frame (w :: ('cb, 'c) world) = (tx_alive w, panic_on w, worker w)"

text \<open>
  A callback is told \<open>Ok\<close> only when all bytes of its batch are in the file, and on stable storage
  when a request of the batch asked for it.
\<close>

definition acks_honest :: "'c flush_worker \<Rightarrow> ('cb, 'c) seq_request list \<Rightarrow>
    ('cb, 'c) world \<Rightarrow> ('cb, 'c) world \<Rightarrow> bool" where
  "acks_honest wk p w w' = (\<exists>evs. events w' = events w @ evs \<and>
     (\<forall>cb. Notified cb (Inr ()) \<in> set evs \<longrightarrow>
        (\<forall>i. content_of w' i = content_of w i @ routed (cur_file wk) p i) \<and>
        (syncs_any p \<longrightarrow> (\<forall>i. clean w i \<or> i \<in> open_inodes wk \<longrightarrow> clean w' i))))"

lemma notifications_res: "Notified cb res' \<in> set (notifications res ws) \<Longrightarrow> res' = res"
  by (auto simp: notifications_def split: option.splits)

lemma queue_bytes_writes: "list_all is_write p \<Longrightarrow>
    queue_bytes p = sum_list (map (\<lambda>q. length (wr_data (qw_write q))) (concat (map queued_of p)))"
  by (induction p) (auto simp: queued_of_def req_data_def is_write_def split: worker_request.splits)

lemma shared_fields:
  assumes "shared w' = shared w"
  shows "channel w' = channel w" "wstate w' = wstate w" "env_frame w' = env_frame w"
  using assms by (simp_all add: shared_def env_frame_def)

lemma accounted_complete:
  assumes "wstate w' = complete n (wstate w)" and "n = top_seq 0 p" and "queue_bytes p = 0"
  shows "accounted p w w'"
  using assms top_seq_max [of "done_seq (wstate w)" 0 p] by (simp add: accounted_def)

lemma accounted_release:
  assumes "wstate w' = complete n ((wstate w)\<lparr>ws_queued_bytes := release (queue_bytes p) (ws_queued_bytes (wstate w))\<rparr>)"
    and "n = top_seq 0 p"
  shows "accounted p w w'"
  using assms top_seq_max [of "done_seq (wstate w)" 0 p]
  by (auto simp: accounted_def release_def offset_simps)

lemma processed_cong:
  "inode w = inode v \<Longrightarrow> inode w' = inode v' \<Longrightarrow> processed wk p wk' w w' = processed wk p wk' v v'"
  by (simp only: processed_def clean_def)

lemma run_iteration_non_write:
  assumes run: "run_iteration b0 wk w = (r, w')" and ne: "files wk \<noteq> []"
    and ch: "channel w = sr # q" "\<not> is_write sr"
  shows "channel w' = q \<and> env_frame w' = env_frame w \<and> acks_honest wk [sr] w w' \<and>
    (case r of
       Inr (c, wk') \<Rightarrow> c = Continue \<and> processed wk [sr] wk' w w' \<and> accounted [sr] w w'
     | Inl e \<Rightarrow> inode w' = inode w \<and> wstate w' = wstate w)"
proof -
  let ?w0 = "w\<lparr>channel := q\<rparr>"
  obtain r1 w1 where one: "handle_non_flush_request (req sr) wk ?w0 = (r1, w1)"
    by (cases "handle_non_flush_request (req sr) wk ?w0")
  note h = handle_non_flush_request_cases [OF one]
  have sh: "shared w1 = shared ?w0" and ino: "inode w1 = inode w" using h by auto
  note shf = shared_fields [OF sh]
  from h obtain evs where evs: "events w1 = events w @ evs" "\<forall>cb res. Notified cb res \<notin> set evs" by auto
  have rw: "(r, w') = (case r1 of Inl e \<Rightarrow> (Inl e, w1)
      | Inr wk' \<Rightarrow> (Inr (Continue, wk'), w1\<lparr>wstate := complete (seq sr) (wstate w1)\<rparr>))"
    using run ch one
    by (simp add: run_iteration_def push_seq_request_cases io_bind_app on_state_def split: sum.splits)
  have ino2: "inode (w1\<lparr>wstate := x\<rparr>) = inode w1" for x by (simp add: inode_def fun_eq_iff)
  show ?thesis
  proof (cases r1)
    case (Inl e)
    then show ?thesis using rw shf ino evs by (auto simp: acks_honest_def env_frame_def)
  next
    case (Inr wk')
    then have w': "r = Inr (Continue, wk')" "w' = w1\<lparr>wstate := complete (seq sr) (wstate w1)\<rparr>"
      using rw by auto
    have "processed wk [sr] wk' ?w0 w1" using one Inr ch(2) ne by (intro non_flush_processed) auto
    then have "processed wk [sr] wk' w w'" using w' ino2 using processed_cong [of w ?w0 w' w1] by simp
    moreover have "accounted [sr] w w'"
      using w' shf routed_non_write(2) [OF ch(2)] by (intro accounted_complete) auto
    ultimately show ?thesis
      using w' shf ino ino2 evs by (auto simp: acks_honest_def env_frame_def)
  qed
qed

lemma batch_holds_split:
  assumes "batch_holds p b"
  obtains p' where "list_all is_write p'" "writes b = concat (map queued_of p')" "max_seq b = top_seq 0 p'"
    "(last_non_flush b = None \<and> p = p') \<or> (\<exists>nf. last_non_flush b = Some nf \<and> p = p' @ [nf] \<and> \<not> is_write nf)"
  using assms by (auto simp: batch_holds_def split: option.splits)

lemma inode_wstate [simp]: "inode (w\<lparr>wstate := x\<rparr>) = inode w"
  by (simp add: inode_def fun_eq_iff)

lemma finish_batch_failed:
  assumes "finish_batch b (Inl e) wk w = (r, w')" and "e \<noteq> Panic"
  shows "isl r \<and> inode w' = inode w \<and> channel w' = channel w \<and> env_frame w' = env_frame w \<and>
    progress (wstate w') = progress (wstate w) \<and>
    (\<exists>evs. events w' = events w @ evs \<and> (\<forall>cb. Notified cb (Inr ()) \<notin> set evs))"
proof -
  obtain r1 w1 where one: "notify_all (Inl e) (writes b) w = (r1, w1)" by (cases "notify_all (Inl e) (writes b) w")
  from notify_all_cases [OF one] obtain evs where f1: "frame w1 = frame w" "inode w1 = inode w"
    and evs: "events w1 = events w @ evs" "prefix evs (notifications (Inl e) (writes b))"
    and r1: "r1 = Inr () \<or> r1 = Inl Panic" by auto
  have "Notified cb (Inr ()) \<notin> set evs" for cb
    using set_mono_prefix [OF evs(2)] notifications_res [of cb "Inr ()" "Inl e" "writes b"] by auto
  then show ?thesis
    using assms one r1 f1 evs(1) shared_fields [OF frame_shared [OF f1(1)]]
    by (auto simp: finish_batch_def Let_def io_bind_app on_queued_bytes_def on_state_def env_frame_def)
qed

lemma finish_batch_ok:
  assumes run: "finish_batch b (Inr ()) wk w = (r, w')" and ne: "files wk \<noteq> []"
    and b: "list_all is_write p'" "writes b = concat (map queued_of p')" "max_seq b = top_seq 0 p'"
    and nf: "(last_non_flush b = None \<and> p = p') \<or> (\<exists>nf. last_non_flush b = Some nf \<and> p = p' @ [nf] \<and> \<not> is_write nf)"
  shows "inode w' = inode w \<and> channel w' = channel w \<and> env_frame w' = env_frame w \<and> prefix (events w) (events w') \<and>
    (case r of
       Inr (c, wk') \<Rightarrow> c = Continue \<and> (\<exists>p2. p = p' @ p2 \<and> processed wk p2 wk' w w') \<and> accounted p w w'
     | Inl e \<Rightarrow> progress (wstate w') = progress (wstate w))"
proof -
  let ?n = "sum_list (map (\<lambda>q. length (wr_data (qw_write q))) (writes b))"
  obtain r1 w1 where one: "notify_all (Inr ()) (writes b) w = (r1, w1)" by (cases "notify_all (Inr ()) (writes b) w")
  from notify_all_cases [OF one] have f1: "frame w1 = frame w" "inode w1 = inode w" "prefix (events w) (events w1)"
    and r1: "r1 = Inr () \<or> r1 = Inl Panic" by auto
  note s1 = shared_fields [OF frame_shared [OF f1(1)]]
  define w2 where "w2 = w1\<lparr>wstate := (wstate w1)\<lparr>ws_queued_bytes := release ?n (ws_queued_bytes (wstate w1))\<rparr>\<rparr>"
  have n: "?n = queue_bytes p"
    using nf queue_bytes_writes [OF b(1)] routed_non_write(2) b(2) by auto
  show ?thesis
  proof (cases "r1 = Inr ()")
    case False
    then have "r = Inl Panic" "w' = w1" using run one r1 by (auto simp: finish_batch_def Let_def io_bind_app)
    then show ?thesis using f1 s1 by simp
  next
    case r1: True
    from nf show ?thesis
    proof (elim disjE conjE exE)
      assume l: "last_non_flush b = None" and p: "p = p'"
      then have w': "r = Inr (Continue, wk)" "w' = w2\<lparr>wstate := complete (max_seq b) (wstate w2)\<rparr>"
        using run one r1 by (auto simp: finish_batch_def Let_def io_bind_app on_queued_bytes_def on_state_def w2_def)
      have "inode w' = inode w" using w' f1 by (simp add: w2_def)
      moreover then have "processed wk [] wk w w'" using processed_cong [of w w w' w] processed_refl [OF ne] by simp
      moreover have "accounted p w w'"
        using w' b(3) p n s1(2) by (intro accounted_release) (simp_all add: w2_def)
      ultimately show ?thesis using w' f1 s1 p by (auto simp: w2_def env_frame_def)
    next
      fix sr assume l: "last_non_flush b = Some sr" and p: "p = p' @ [sr]" and sr: "\<not> is_write sr"
      obtain r3 w3 where three: "handle_non_flush_request (req sr) wk w2 = (r3, w3)"
        by (cases "handle_non_flush_request (req sr) wk w2")
      note h = handle_non_flush_request_cases [OF three]
      then have "shared w3 = shared w2" and i3: "inode w3 = inode w2" and e3: "prefix (events w2) (events w3)"
        by auto
      note s3 = shared_fields [OF this(1)]
      have res: "(r, w') = (case r3 of Inl e \<Rightarrow> (Inl e, w3) | Inr wk' \<Rightarrow>
          (Inr (Continue, wk'), w3\<lparr>wstate := complete (max (max_seq b) (seq sr)) (wstate w3)\<rparr>))"
        using run one r1 l three
        by (simp add: finish_batch_def Let_def io_bind_app on_queued_bytes_def on_state_def w2_def split: sum.splits)
      show ?thesis
      proof (cases r3)
        case (Inl e)
        then show ?thesis using res i3 s3 e3 f1 s1 by (auto simp: w2_def env_frame_def)
      next
        case (Inr wk')
        then have w': "r = Inr (Continue, wk')"
          "w' = w3\<lparr>wstate := complete (max (max_seq b) (seq sr)) (wstate w3)\<rparr>" using res by auto
        have ino: "inode w' = inode w3" "inode w2 = inode w" using w' f1 by (simp_all add: w2_def)
        have "processed wk [sr] wk' w2 w3" using three Inr sr ne by (intro non_flush_processed) auto
        then have "processed wk [sr] wk' w w'" using processed_cong [of w w2 w' w3] ino by simp
        moreover have "accounted p w w'"
          using w' s3(2) s1(2) n b(3) p by (intro accounted_release) (simp_all add: w2_def max.commute)
        ultimately show ?thesis
          using w' i3 ino s3 s1 e3 f1 p by (auto simp: w2_def env_frame_def)
      qed
    qed
  qed
qed

definition batch_failed :: "'c flush_worker \<Rightarrow> ('cb, 'c) seq_request list \<Rightarrow>
    ('cb, 'c) world \<Rightarrow> ('cb, 'c) world \<Rightarrow> bool" where
  "batch_failed wk p w w' =
     ((\<exists>d. prefix d (routed (cur_file wk) p (cur_file wk)) \<and> grown (cur_file wk) d w w') \<and>
      progress (wstate w') = progress (wstate w))"

lemma grown_cong: "inode w = inode v \<Longrightarrow> inode w' = inode v' \<Longrightarrow> grown f d w w' = grown f d v v'"
  by (simp only: grown_def)

lemma written_ok_facts:
  assumes "written off ws wk (Inr (Inr u, wk')) w w'"
  shows "grown (cur_file wk) (writes_data ws) w w'" and "files wk \<noteq> [] \<Longrightarrow> files wk' \<noteq> []"
    and "\<exists>evs. events w' = events w @ evs \<and> (\<forall>cb res. Notified cb res \<notin> set evs)"
    and "needs_sync ws \<Longrightarrow> files wk \<noteq> [] \<Longrightarrow> clean w i \<or> i \<in> open_inodes wk \<Longrightarrow> clean w' i"
proof -
  show gr: "grown (cur_file wk) (writes_data ws) w w'" using assms by (simp add: written_def)
  show "files wk' \<noteq> []" if "files wk \<noteq> []"
    using assms that by (cases "needs_sync ws") (auto simp: written_def)
  show "\<exists>evs. events w' = events w @ evs \<and> (\<forall>cb res. Notified cb res \<notin> set evs)"
    using assms by (cases "needs_sync ws") (auto simp: written_def persisted_event_def)
  assume n: "needs_sync ws" and ne: "files wk \<noteq> []" and i: "clean w i \<or> i \<in> open_inodes wk"
  have sy: "\<forall>i \<in> open_inodes wk. clean w' i"
    using assms n by (auto simp: written_def open_inodes_def clean_def)
  show "clean w' i"
  proof (cases "i \<in> open_inodes wk")
    case False
    then have "i \<noteq> cur_file wk" using cur_file_open [OF ne] by blast
    then have "content_of w' i = content_of w i"
      and "synced_of w' i = synced_of w i \<or> synced_of w' i = content_of w' i"
      using gr unfolding grown_def by auto
    with False i show ?thesis by (auto simp: clean_def)
  qed (use sy in blast)
qed

lemma syncs_any_non_write: "\<not> is_write sr \<Longrightarrow> \<not> syncs_any [sr]"
  by (cases "req sr") (auto simp: is_write_def)

text \<open>The requests \<open>p\<close> of a batch: its writes, followed by another request if there was one.\<close>

definition batch_requests :: "('cb, 'c) write_batch \<Rightarrow> ('cb, 'c) seq_request list \<Rightarrow> ('cb, 'c) seq_request list \<Rightarrow> bool" where
  "batch_requests b p' p =
     (list_all is_write p' \<and> writes b = concat (map queued_of p') \<and> max_seq b = top_seq 0 p' \<and>
      ((last_non_flush b = None \<and> p = p') \<or> (\<exists>nf. last_non_flush b = Some nf \<and> p = p' @ [nf] \<and> \<not> is_write nf)))"

lemma batch_requestsD:
  assumes "batch_requests b p' p"
  shows "list_all is_write p'" and "writes b = concat (map queued_of p')" and "max_seq b = top_seq 0 p'"
    and "(last_non_flush b = None \<and> p = p') \<or> (\<exists>nf. last_non_flush b = Some nf \<and> p = p' @ [nf] \<and> \<not> is_write nf)"
  using assms unfolding batch_requests_def by blast+

lemma batch_requests_facts:
  assumes "batch_requests b p' p"
  shows "routed cur p i = (if i = cur then writes_data (writes b) else [])" and "syncs_any p = needs_sync (writes b)"
proof -
  note p' = batch_requestsD [OF assms]
  show "routed cur p i = (if i = cur then writes_data (writes b) else [])"
    using p' routed_writes [OF p'(1)] by (auto dest: routed_non_write(2))
  show "syncs_any p = needs_sync (writes b)"
    using p' needs_sync_queued [of p'] by (auto simp del: syncs_any_simps(3) dest: syncs_any_non_write)
qed

lemma failed_batch:
  assumes fin: "finish_batch b (Inl e) wk2 w2 = (r, w')" and wr: "written off (writes b) wk (Inr (Inl e, wk2)) w1 w2"
    and p: "batch_requests b p' p" and same: "inode w1 = inode w" "events w1 = events w" "wstate w2 = wstate w"
  shows "\<exists>e'. r = Inl e'" and "channel w' = channel w2" and "env_frame w' = env_frame w2"
    and "acks_honest wk p w w'" and "batch_failed wk p w w'"
proof -
  have e: "e \<noteq> Panic" "events w2 = events w" using wr same(2) by (auto simp: written_def)
  from wr obtain d where d: "prefix d (writes_data (writes b))" "grown (cur_file wk) d w1 w2"
    by (auto simp: written_def)
  from finish_batch_failed [OF fin e(1)] have h: "isl r" "inode w' = inode w2" "channel w' = channel w2"
    "env_frame w' = env_frame w2" "progress (wstate w') = progress (wstate w2)"
    "\<exists>evs. events w' = events w2 @ evs \<and> (\<forall>cb. Notified cb (Inr ()) \<notin> set evs)" by auto
  show "\<exists>e'. r = Inl e'" using h(1) by (cases r) auto
  show "channel w' = channel w2" "env_frame w' = env_frame w2" by (rule h)+
  show "acks_honest wk p w w'" using h(6) e(2) by (auto simp: acks_honest_def)
  have "grown (cur_file wk) d w w'" using d(2) grown_cong [of w w1 w' w2] same h by simp
  then show "batch_failed wk p w w'"
    using d(1) batch_requests_facts(1) [OF p] h(5) same(3) by (auto simp: batch_failed_def)
qed

lemma written_batch:
  assumes fin: "finish_batch b (Inr ()) wk2 w2 = (r, w')" and wr: "written off (writes b) wk (Inr (Inr (), wk2)) w1 w2"
    and ne: "files wk \<noteq> []" and p: "batch_requests b p' p"
    and same: "inode w1 = inode w" "events w1 = events w" "wstate w2 = wstate w"
  shows "channel w' = channel w2" and "env_frame w' = env_frame w2" and "acks_honest wk p w w'"
    and "case r of
       Inr (c, wk') \<Rightarrow> c = Continue \<and> processed wk p wk' w w' \<and> accounted p w w'
     | Inl e \<Rightarrow> batch_failed wk p w w'"
proof -
  note p' = batch_requestsD [OF p] and facts = written_ok_facts [OF wr] and rt = batch_requests_facts [OF p]
  have h: "inode w' = inode w2" "prefix (events w2) (events w')"
    and r: "case r of
       Inr (c, wk') \<Rightarrow> c = Continue \<and> (\<exists>p2. p = p' @ p2 \<and> processed wk2 p2 wk' w2 w') \<and> accounted p w2 w'
     | Inl e \<Rightarrow> progress (wstate w') = progress (wstate w2)"
    and chn: "channel w' = channel w2" and env: "env_frame w' = env_frame w2"
    using finish_batch_ok [OF fin facts(2) [OF ne] p'] by blast+
  show "channel w' = channel w2" "env_frame w' = env_frame w2" by (rule chn env)+
  have gr: "grown (cur_file wk) (writes_data (writes b)) w w'"
    using facts(1) grown_cong [of w w1 w' w2] same h by simp
  have cl: "clean w' i" if "syncs_any p" "clean w i \<or> i \<in> open_inodes wk" for i
    using facts(4) [of i] that rt(2) ne h same by (simp add: clean_def)
  obtain evs where "events w' = events w2 @ evs" using h(2) by (auto elim: prefixE)
  then show "acks_honest wk p w w'"
    using facts(3) same(2) gr rt(1) cl by (auto simp: acks_honest_def grown_def)
  have done_p': "processed wk p' wk2 w1 w2" using wr ne p' by (auto intro: written_ok_processed)
  have "processed wk p wk' w w'" if "p = p' @ p2" "processed wk2 p2 wk' w2 w'" for p2 wk'
    using processed_trans [OF done_p' that(2)] that(1) processed_cong [of w w1 w' w'] same by simp
  then show "case r of
       Inr (c, wk') \<Rightarrow> c = Continue \<and> processed wk p wk' w w' \<and> accounted p w w'
     | Inl e \<Rightarrow> batch_failed wk p w w'"
    using r gr rt(1) same(3) by (auto simp: batch_failed_def accounted_def split: sum.splits)
qed

lemma run_iteration_write:
  assumes run: "run_iteration b0 wk w = (r, w')" and ne: "files wk \<noteq> []"
    and ch: "channel w = sr # q" "is_write sr"
  shows "\<exists>p. p \<noteq> [] \<and> channel w = p @ channel w' \<and> env_frame w' = env_frame w \<and> acks_honest wk p w w' \<and>
    (case r of
       Inr (c, wk') \<Rightarrow> c = Continue \<and> processed wk p wk' w w' \<and> accounted p w w'
     | Inl e \<Rightarrow> batch_failed wk p w w')"
proof -
  let ?w0 = "w\<lparr>channel := q\<rparr>"
  obtain b where push: "push_seq_request sr (reset b0) = (True, b)" and b: "batch_holds [sr] b"
    using push_batch_holds(1,2) [of "[]" "reset b0" sr] ch(2)
    by (cases "push_seq_request sr (reset b0)") (auto simp: batch_holds_def)
  obtain r1 w1 where one: "collect_write_batch (wk_config wk) b ?w0 = (r1, w1)"
    by (cases "collect_write_batch (wk_config wk) b ?w0")
  from collect_write_batch_holds [OF one b] obtain g b1 q1 where
    r1: "r1 = Inr (g, b1)" and q1: "q = q1 @ channel w1" and b1: "batch_holds (sr # q1) b1"
    and f1: "frame w1 = frame (w\<lparr>channel := channel w1\<rparr>)" "inode w1 = inode w" "events w1 = events w"
    by auto
  define p where "p = sr # q1"
  from b1 obtain p' where p': "batch_requests b1 p' p"
    unfolding p_def batch_requests_def by (rule batch_holds_split) blast
  obtain r2 w2 where two: "write_and_sync g b1 wk w1 = (r2, w2)" by (cases "write_and_sync g b1 wk w1")
  from write_and_sync_written [OF two ne] have f2: "frame w2 = frame w1"
    and wr: "written (upto_offset (qw_write (last (writes b1)))) (writes b1) wk r2 w1 w2" by auto
  have ch2: "channel w2 = channel w1" and ws2: "wstate w2 = wstate w" and ef2: "env_frame w2 = env_frame w"
    using f1(1) f2 by (simp_all add: frame_def env_frame_def)
  have res: "(r, w') = (case r2 of Inl e \<Rightarrow> (Inl e, w2)
      | Inr (res, wk2) \<Rightarrow> finish_batch b1 res wk2 w2)"
    using run ch push one r1 two by (simp add: run_iteration_def io_bind_app split: sum.splits prod.splits)
  have pch: "p \<noteq> []" "channel w = p @ channel w2" using ch q1 ch2 by (simp_all add: p_def)
  consider (panic) e where "r2 = Inl e" | (err) e wk2 where "r2 = Inr (Inl e, wk2)"
    | (ok) wk2 where "r2 = Inr (Inr (), wk2)" by (cases r2) (auto, metis obj_sumE old.unit.exhaust)
  then show ?thesis
  proof cases
    case panic
    then have w': "r = Inl e" "w' = w2" using res by auto
    have gr: "grown (cur_file wk) (writes_data (writes b1)) w w'"
      and ev: "events w' = events w @ [persisted_event (upto_offset (qw_write (last (writes b1)))) (last (files wk))]"
      using wr panic w' f1 grown_cong [of w w1 w' w'] by (auto simp: written_def)
    then show ?thesis
      using w' pch ws2 ef2 batch_requests_facts(1) [OF p']
      by (auto intro!: exI [of _ p] simp: batch_failed_def acks_honest_def persisted_event_def)
  next
    case err
    then have fin: "finish_batch b1 (Inl e) wk2 w2 = (r, w')" using res by simp
    from failed_batch [OF fin wr [unfolded err] p' f1(2,3) ws2] show ?thesis
      using pch ef2 by (auto intro!: exI [of _ p])
  next
    case ok
    then have fin: "finish_batch b1 (Inr ()) wk2 w2 = (r, w')" using res by simp
    from written_batch [OF fin wr [unfolded ok] ne p' f1(2,3) ws2] show ?thesis
      using pch ef2 by (auto intro!: exI [of _ p])
  qed
qed

end
