(* ===== verification/Flush_Thread.thy ===== *)
theory Flush_Thread
  imports Flush_Loop
begin

text \<open>
  The thread of the flush worker (\<open>run_inner\<close>, \<open>run\<close> of \<open>src/wal/flush_worker.rs\<close>): the loop until
  the channel is empty or an error ends it, the release of the budget and the failure report, and
  what follows for those who wait for the worker.
\<close>

lemma run_iteration_shrinks:
  assumes "run_iteration b wk w = (Inr (Continue, wk'), w')"
  shows "length (channel w') < length (channel w)"
proof (cases "channel w")
  case Nil
  then show ?thesis using assms by (simp add: run_iteration_def split: if_splits)
next
  case (Cons sr q)
  show ?thesis
  proof (cases "is_write sr")
    case True
    have "files wk \<noteq> []"
    proof
      assume "files wk = []"
      then have "fst (run_iteration b wk w) = Inl Panic"
        using Cons True
        by (auto simp: run_iteration_def push_seq_request_cases collect_write_batch_def write_and_sync_def
            io_bind_app split: prod.splits sum.splits)
           (metis Inl_Inr_False instant_now_step old.prod.inject)+
      with assms show False by simp
    qed
    from run_iteration_write [OF assms this Cons True] show ?thesis by auto
  next
    case False
    obtain r1 w1 where one: "handle_non_flush_request (req sr) wk (w\<lparr>channel := q\<rparr>) = (r1, w1)"
      by (cases "handle_non_flush_request (req sr) wk (w\<lparr>channel := q\<rparr>)")
    then have "channel w1 = q" using handle_non_flush_request_cases [OF one] by (simp add: shared_def)
    with one assms Cons False show ?thesis
      by (auto simp: run_iteration_def push_seq_request_cases io_bind_app on_state_def split: sum.splits)
  qed
qed

function run_inner :: "('cb, 'c) write_batch \<Rightarrow> 'c flush_worker \<Rightarrow>
    (('cb, 'c) world, loop_control \<times> 'c flush_worker) io" where
  "run_inner b wk w =
     (case run_iteration b wk w of
        (Inr (Continue, wk'), w') \<Rightarrow> run_inner b wk' w'
      | (r, w') \<Rightarrow> (r, w'))"
  by pat_completeness auto
termination
proof (relation "measure (\<lambda>(b, wk, w). length (channel w))", goal_cases)
  case 1
  then show ?case by simp
next
  case 2
  then show ?case by (auto dest!: sym run_iteration_shrinks)
qed

declare run_inner.simps [simp del]

text \<open>
  The end of the thread: the budget is given back, an error or a panic is reported, and the
  receiver is dropped with the requests that are left in it.
\<close>

definition stop_worker :: "unit res \<Rightarrow> ('cb, 'c) world \<Rightarrow> ('cb, 'c) world" where
  "stop_worker res w =
     (let ws = (wstate w)\<lparr>ws_queued_bytes := release_all (ws_queued_bytes (wstate w))\<rparr>
      in w\<lparr>wstate := (case res of
             Inr _ \<Rightarrow> ws
           | Inl (Err e) \<Rightarrow> fail e ws
           | Inl _ \<Rightarrow> fail Other ws),
           worker := None, channel := []\<rparr>)"

definition run :: "('cb, 'c) world \<Rightarrow> ('cb, 'c) world" where
  "run w =
     (case worker w of
        None \<Rightarrow> w
      | Some wk \<Rightarrow>
         (case run_inner (write_batch_new (flush_batch_max_items (wk_config wk))) wk w of
            (Inr (Waiting, wk'), w') \<Rightarrow> w'\<lparr>worker := Some wk'\<rparr>
          | (Inr (_, _), w') \<Rightarrow> stop_worker (Inr ()) w'
          | (Inl e, w') \<Rightarrow> stop_worker (Inl e) w'))"

section \<open>The loop\<close>

lemma run_iteration_idle:
  "channel w = [] \<Longrightarrow> run_iteration b wk w = (Inr (if tx_alive w then Waiting else Quit, wk), w)"
  by (simp add: run_iteration_def)

lemma run_iteration_busy:
  assumes "run_iteration b wk w = (r, w')" and "files wk \<noteq> []" and "channel w \<noteq> []"
  obtains p where "p \<noteq> []" "channel w = p @ channel w'" "env_frame w' = env_frame w" "acks_honest wk p w w'"
    "case r of
       Inr (c, wk') \<Rightarrow> c = Continue \<and> processed wk p wk' w w' \<and> accounted p w w'
     | Inl e \<Rightarrow> batch_failed wk p w w'"
proof -
  obtain sr q where ch: "channel w = sr # q" using assms(3) by (cases "channel w") auto
  show thesis
  proof (cases "is_write sr")
    case True
    from run_iteration_write [OF assms(1,2) ch this] that show ?thesis by blast
  next
    case False
    have "batch_failed wk [sr] w w'" if "inode w' = inode w" "wstate w' = wstate w"
      using that by (auto simp: batch_failed_def grown_def intro!: exI [of _ "[]"])
    with run_iteration_non_write [OF assms(1,2) ch False] that [of "[sr]"] ch show ?thesis
      by (auto split: sum.splits prod.splits)
  qed
qed

lemma accounted_trans:
  assumes "accounted p w w1" and "accounted q w1 w2"
  shows "accounted (p @ q) w w2"
  using assms by (auto simp: accounted_def)

lemma accounted_refl: "accounted [] w w"
  by (simp add: accounted_def)

text \<open>The loop processes every request in order, or stops with an error in one batch \<open>q\<close>.\<close>

lemma run_inner_cases:
  assumes "run_inner b wk w = (r, w')" and "files wk \<noteq> []"
  shows "case r of
      Inr (c, wk') \<Rightarrow> c = (if tx_alive w then Waiting else Quit) \<and> channel w' = [] \<and>
        env_frame w' = env_frame w \<and> processed wk (channel w) wk' w w' \<and> accounted (channel w) w w'
    | Inl e \<Rightarrow> (\<exists>p q wk1 w1. channel w = p @ q @ channel w' \<and> q \<noteq> [] \<and> env_frame w' = env_frame w \<and>
        processed wk p wk1 w w1 \<and> accounted p w w1 \<and> batch_failed wk1 q w1 w')"
  using assms
proof (induction b wk w rule: run_inner.induct)
  case (1 b wk w)
  obtain r1 w1 where one: "run_iteration b wk w = (r1, w1)" by (cases "run_iteration b wk w")
  show ?case
  proof (cases "channel w = []")
    case True
    then have "r = Inr (if tx_alive w then Waiting else Quit, wk)" "w' = w"
      using "1.prems"(1) run_iteration_idle [OF True, of b wk]
      by (auto simp: run_inner.simps [of b wk w] split: if_splits)
    then show ?thesis using True "1.prems"(2) by (simp add: processed_refl accounted_refl)
  next
    case False
    obtain p where p: "p \<noteq> []" "channel w = p @ channel w1" "env_frame w1 = env_frame w"
      and res: "case r1 of Inr (c, wk') \<Rightarrow> c = Continue \<and> processed wk p wk' w w1 \<and> accounted p w w1
        | Inl e \<Rightarrow> batch_failed wk p w w1"
      by (rule run_iteration_busy [OF one "1.prems"(2) False])
    show ?thesis
    proof (cases r1)
      case (Inl e)
      then have "r = Inl e" "w' = w1" using "1.prems"(1) one by (simp_all add: run_inner.simps [of b wk w])
      moreover have "processed wk [] wk w w" "accounted [] w w"
        using processed_refl [OF "1.prems"(2)] accounted_refl by auto
      ultimately show ?thesis using Inl p res by fastforce
    next
      case (Inr cw)
      then obtain wk1 where r1: "r1 = Inr (Continue, wk1)" using res by (cases cw) auto
      then have pr: "processed wk p wk1 w w1" "accounted p w w1" using res by auto
      then have ne: "files wk1 \<noteq> []" by (simp add: processed_def)
      have rest: "run_inner b wk1 w1 = (r, w')"
        using "1.prems"(1) one r1 by (simp add: run_inner.simps [of b wk w])
      have tx: "tx_alive w1 = tx_alive w" using p(3) by (simp add: env_frame_def)
      note IH = "1.IH" [OF one [symmetric] r1 refl refl rest ne]
      show ?thesis
      proof (cases r)
        case (Inl e)
        with IH obtain p' q wk2 w2 where "channel w1 = p' @ q @ channel w'" "q \<noteq> []"
          "env_frame w' = env_frame w1" "processed wk1 p' wk2 w1 w2" "accounted p' w1 w2"
          "batch_failed wk2 q w2 w'" by auto
        moreover then have "processed wk (p @ p') wk2 w w2" "accounted (p @ p') w w2"
          using pr processed_trans accounted_trans by blast+
        moreover have "channel w = (p @ p') @ q @ channel w'" using p(2) calculation(1) by simp
        moreover have "env_frame w' = env_frame w" using p(3) calculation(3) by simp
        ultimately show ?thesis unfolding Inl sum.case by blast
      next
        case (Inr cw)
        obtain c wk2 where cw: "cw = (c, wk2)" by (cases cw)
        with IH Inr have c: "c = (if tx_alive w1 then Waiting else Quit)" "channel w' = []"
          "env_frame w' = env_frame w1" and two: "processed wk1 (channel w1) wk2 w1 w'" "accounted (channel w1) w1 w'"
          by auto
        then show ?thesis
          using Inr cw p tx processed_trans [OF pr(1) two(1)] accounted_trans [OF pr(2) two(2)] by simp
      qed
    qed
  qed
qed

section \<open>The thread\<close>

lemma inode_worker_updates [simp]:
  "inode (w\<lparr>worker := x\<rparr>) = inode w" "inode (stop_worker res w) = inode w"
  by (simp_all add: inode_def fun_eq_iff stop_worker_def Let_def)

lemma stop_worker_sel [simp]:
  "worker (stop_worker res w) = None" "channel (stop_worker res w) = []"
  "done_seq (wstate (stop_worker res w)) = done_seq (wstate w)" "used_bytes (stop_worker res w) = 0"
  "wp_status (progress (wstate (stop_worker (Inr u) w))) = wp_status (progress (wstate w))"
  "\<exists>e. wp_status (progress (wstate (stop_worker (Inl f) w))) = Failed e"
  by (auto simp: stop_worker_def Let_def release_all_def split: sum.splits failure.splits)

text \<open>
  What a run of the thread on the requests in the channel leaves: \<open>p\<close> is processed, and when it
  failed, a part \<open>d\<close> of the bytes of what follows.
\<close>

definition run_result :: "'c flush_worker \<Rightarrow> ('cb, 'c) seq_request list \<Rightarrow> ('cb, 'c) seq_request list \<Rightarrow>
    byte list \<Rightarrow> 'c flush_worker \<Rightarrow> ('cb, 'c) world \<Rightarrow> ('cb, 'c) world \<Rightarrow> ('cb, 'c) world \<Rightarrow> bool" where
  "run_result wk p q d wk1 w w1 w' =
     (channel w = p @ q \<and> channel w' = [] \<and> processed wk p wk1 w w1 \<and> accounted p w w1 \<and>
      grown (cur_file wk1) d w1 w' \<and> prefix d (routed (cur_file wk1) q (cur_file wk1)) \<and>
      done_seq (wstate w') = done_seq (wstate w1) \<and>
      (if q = [] then inode w' = inode w1 \<and> wp_status (progress (wstate w')) = wp_status (progress (wstate w))
       else \<exists>e. wp_status (progress (wstate w')) = Failed e))"

lemma run_cases:
  assumes wk: "worker w = Some wk" and ne: "files wk \<noteq> []"
  obtains p q d wk1 w1 where "run_result wk p q d wk1 w w1 (run w)"
    "worker (run w) = (if q = [] \<and> tx_alive w then Some wk1 else None)"
    "worker (run w) = None \<Longrightarrow> used_bytes (run w) = 0"
    "worker (run w) \<noteq> None \<Longrightarrow> accounted p w (run w)"
proof -
  let ?b = "write_batch_new (flush_batch_max_items (wk_config wk))"
  obtain r w2 where inner: "run_inner ?b wk w = (r, w2)" by (cases "run_inner ?b wk w")
  note c = run_inner_cases [OF inner ne]
  show thesis
  proof (cases r)
    case (Inl e)
    then have run: "run w = stop_worker (Inl e) w2" using wk inner by (simp add: run_def)
    from c Inl obtain p q wk1 w1 where h: "channel w = p @ q @ channel w2" "q \<noteq> []"
      "processed wk p wk1 w w1" "accounted p w w1" "batch_failed wk1 q w1 w2" by auto
    from h(5) obtain d where d: "prefix d (routed (cur_file wk1) q (cur_file wk1))"
      "grown (cur_file wk1) d w1 w2" "progress (wstate w2) = progress (wstate w1)"
      by (auto simp: batch_failed_def)
    have "prefix d (routed (cur_file wk1) (q @ channel w2) (cur_file wk1))" using d(1) by simp
    moreover have "grown (cur_file wk1) d w1 (run w)"
      using d(2) run grown_cong [of w1 w1 "run w" w2] by simp
    moreover have "done_seq (wstate w2) = done_seq (wstate w1)" using d(3) by (simp add: done_seq_def)
    ultimately have "run_result wk p (q @ channel w2) d wk1 w w1 (run w)"
      using h run stop_worker_sel(6) by (auto simp: run_result_def)
    from that [OF this] show ?thesis using h(2) run by simp
  next
    case (Inr cw)
    obtain l wk1 where cw: "cw = (l, wk1)" by (cases cw)
    with c Inr have h: "l = (if tx_alive w then Waiting else Quit)" "channel w2 = []"
      "processed wk (channel w) wk1 w w2" "accounted (channel w) w w2" by auto
    have run: "run w = (if tx_alive w then w2\<lparr>worker := Some wk1\<rparr> else stop_worker (Inr ()) w2)"
      using wk inner Inr cw h(1) by (simp add: run_def)
    have "inode (run w) = inode w2" "done_seq (wstate (run w)) = done_seq (wstate w2)"
      "wp_status (progress (wstate (run w))) = wp_status (progress (wstate w2))" "channel (run w) = []"
      using run h(2) by auto
    moreover then have "grown (cur_file wk1) [] w2 (run w)" by (simp add: grown_def)
    ultimately have res: "run_result wk (channel w) [] [] wk1 w w2 (run w)"
      using h by (simp add: run_result_def accounted_def)
    have "accounted (channel w) w (run w)" if "tx_alive w" using that run h(4) by (simp add: accounted_def)
    with that [OF res] run show ?thesis by (simp split: if_splits)
  qed
qed

lemma run_result_content:
  assumes "run_result wk p q d wk1 w w1 w'"
  shows "content_of w' i = content_of w i @ routed (cur_file wk) p i @
    (if i = cur_after (cur_file wk) p then d else [])"
  using assms by (simp add: run_result_def processed_def grown_def)

lemma run_result_durable:
  assumes res: "run_result wk p q d wk1 w w1 w'" and p: "p = p1 @ sr # p2" and sy: "syncs_any [sr]"
    and i: "clean w i \<or> i \<in> open_inodes wk"
  shows "prefix (content_of w i @ routed (cur_file wk) (p1 @ [sr]) i) (synced_of w' i)"
proof -
  let ?X = "content_of w i @ routed (cur_file wk) (p1 @ [sr]) i"
  have pr: "processed wk p wk1 w w1" and gr: "grown (cur_file wk1) d w1 w'"
    using res by (auto simp: run_result_def)
  have "prefix ?X (synced_of w1 i)" using pr p sy i unfolding processed_def by blast
  moreover have "prefix ?X (content_of w' i)"
    using pr gr p unfolding processed_def grown_def by (simp add: prefix_def)
  moreover have "synced_of w' i = synced_of w1 i \<or> synced_of w' i = content_of w' i"
    using gr unfolding grown_def by blast
  ultimately show ?thesis by auto
qed

lemma top_seq_strict:
  assumes "sorted_wrt (<) (map seq (p @ q))" and "sr \<in> set q" and "n < seq sr"
  shows "top_seq n p < seq sr"
  using assms by (induction p arbitrary: n) auto

section \<open>Example data\<close>

definition demo_worker :: "byte list flush_worker" where
  "demo_worker = \<lparr> files = [file_entry_new 0 0 None], wk_config = demo_config \<rparr>"

text \<open>The directory of \<open>demo_fs\<close> with an empty chunk 0, a worker and requests in the channel.\<close>

definition demo_world :: "(nat, byte list) seq_request list \<Rightarrow> (nat, byte list) world" where
  "demo_world q = fs.extend (demo_fs [])
     (world.fields 0 [] q True (worker_state_new 100) atomic_flush_metrics_default [] (\<lambda>_. False)
       (Some demo_worker))"

definition demo_write :: "nat \<Rightarrow> byte list \<Rightarrow> bool \<Rightarrow> (nat, byte list) seq_request" where
  "demo_write n d sy = \<lparr> seq = n, queued_at = 0,
     req = Write \<lparr> upto_offset = 0, wr_data = d, wr_sync = sy, wr_callback = Some n \<rparr> \<rparr>"

lemma demo_world_sel [simp]:
  "worker (demo_world q) = Some demo_worker" "channel (demo_world q) = q" "script (demo_world q) = []"
  "wstate (demo_world q) = worker_state_new 100" "content_of (demo_world q) i = []"
  "synced_of (demo_world q) i = []" "tx_alive (demo_world q)"
  by (simp_all add: demo_world_def fs.defs world.defs demo_fs_def inode_def)

lemma demo_worker_sel [simp]: "files demo_worker = [file_entry_new 0 0 None]" "cur_file demo_worker = 0"
  by (simp_all add: demo_worker_def cur_file_def file_entry_new_def)

section \<open>Properties\<close>

text \<open>
  C7. The bytes of the requests reach the files in the order they were sent, whatever batches are
  formed and whatever system calls and callbacks fail: after a run the files hold the bytes of a
  prefix of the requests, each in the file that was the newest when its request was sent, followed by
  a part of the bytes of the next batch; unless everything was processed, the worker has reported a
  failure.
\<close>

theorem worker_writes_in_order:
  assumes "worker w = Some wk" and "files wk \<noteq> []"
  shows "\<exists>p q d. channel w = p @ q \<and>
    prefix d (routed (cur_after (cur_file wk) p) q (cur_after (cur_file wk) p)) \<and>
    (\<forall>i. content_of (run w) i = content_of w i @ routed (cur_file wk) p i @
       (if i = cur_after (cur_file wk) p then d else [])) \<and>
    (if q = [] then d = [] else \<exists>e. wp_status (progress (wstate (run w))) = Failed e)"
proof -
  obtain p q d wk1 w1 where res: "run_result wk p q d wk1 w w1 (run w)" by (rule run_cases [OF assms])
  have "cur_file wk1 = cur_after (cur_file wk) p" using res by (simp add: run_result_def processed_def)
  with res run_result_content [OF res] show ?thesis
    by (intro exI [of _ p] exI [of _ q] exI [of _ d]) (auto simp: run_result_def)
qed

theorem worker_writes_in_order_witness:
  "\<exists>p q d. [demo_write 1 [7] True, demo_write 2 [8] True] = p @ q \<and>
    content_of (run (demo_world [demo_write 1 [7] True, demo_write 2 [8] True])) 0 =
      routed 0 p 0 @ (if 0 = cur_after 0 p then d else [])"
  using worker_writes_in_order [of "demo_world [demo_write 1 [7] True, demo_write 2 [8] True]" demo_worker]
  by auto

text \<open>
  C18. Nobody waits for a worker in vain: after a run on the requests in the channel, waiting for the
  last of them returns (with \<open>Ok\<close> or with the worker's error), and when the thread has ended, however
  it ended, a sender that waits for queue memory gets it.
\<close>

theorem no_waiter_left_behind:
  assumes "worker w = Some wk" and "files wk \<noteq> []"
  shows "wait_for (top_seq (done_seq (wstate w)) (channel w)) (wstate (run w)) \<noteq> None \<and>
    (worker (run w) = None \<longrightarrow> acquire n (ws_queued_bytes (wstate (run w))) \<noteq> None)"
proof -
  obtain p q d wk1 w1 where res: "run_result wk p q d wk1 w w1 (run w)"
    and u: "worker (run w) = None \<Longrightarrow> used_bytes (run w) = 0"
    using run_cases [OF assms] by metis
  have "wait_for (top_seq (done_seq (wstate w)) (channel w)) (wstate (run w)) \<noteq> None"
    using res by (auto simp: run_result_def accounted_def wait_for_def status_error_def done_seq_def split: if_splits)
  with u show ?thesis by (auto simp: acquire_def)
qed

theorem no_waiter_left_behind_witness:
  "wait_for 2 (wstate (run (demo_world [demo_write 1 [7] True, demo_write 2 [8] True]))) \<noteq> None"
proof -
  have "top_seq (done_seq (worker_state_new 100)) [demo_write 1 [7] True, demo_write 2 [8] True] = 2"
    by (simp add: demo_write_def worker_state_new_def done_seq_def)
  with no_waiter_left_behind [of "demo_world [demo_write 1 [7] True, demo_write 2 [8] True]" demo_worker]
  show ?thesis by (simp del: not_None_eq)
qed

text \<open>
  C24. Callbacks are told the truth: in an iteration of the worker, under any faults and panics, a
  write callback receives \<open>Ok\<close> only if all bytes of the requests taken by the iteration are in the
  files, and if one of them asked for synchronisation, every file that was clean before or is open
  in the worker is synchronised.
\<close>

theorem ok_callback_means_written:
  assumes "run_iteration b wk w = (r, w')" and "files wk \<noteq> []"
  shows "\<exists>p evs. channel w = p @ channel w' \<and> events w' = events w @ evs \<and>
    (\<forall>cb. Notified cb (Inr ()) \<in> set evs \<longrightarrow>
       (\<forall>i. content_of w' i = content_of w i @ routed (cur_file wk) p i) \<and>
       (syncs_any p \<longrightarrow> (\<forall>i. clean w i \<or> i \<in> open_inodes wk \<longrightarrow> clean w' i)))"
proof (cases "channel w = []")
  case True
  then have "w' = w" using assms(1) run_iteration_idle [OF True, of b wk] by simp
  then show ?thesis using True by auto
next
  case False
  obtain p where "channel w = p @ channel w'" "acks_honest wk p w w'"
    by (rule run_iteration_busy [OF assms False])
  then show ?thesis unfolding acks_honest_def by blast
qed

theorem ok_callback_means_written_witness:
  "\<exists>p evs. [demo_write 1 [7] True] =
      p @ channel (snd (run_iteration (write_batch_new 8) demo_worker (demo_world [demo_write 1 [7] True]))) \<and>
    events (snd (run_iteration (write_batch_new 8) demo_worker (demo_world [demo_write 1 [7] True]))) =
      events (demo_world [demo_write 1 [7] True]) @ evs"
proof -
  let ?run = "run_iteration (write_batch_new 8) demo_worker (demo_world [demo_write 1 [7] True])"
  have "?run = (fst ?run, snd ?run)" by simp
  from ok_callback_means_written [OF this] show ?thesis by auto
qed

end
