(* ===== verification/Flush_Calm.thy ===== *)
theory Flush_Calm
  imports Flush_Thread
begin

text \<open>
  Progress of the flush worker when nothing goes wrong: on a system whose calls succeed and whose
  user code does not panic, a run completes every request. The only request that can fail then is to remove
  files that do not exist; \<open>serves\<close> excludes it. \<open>calm_post J m P\<close> says that \<open>m\<close> succeeds in every such
  state with \<open>J\<close> of directory and channel, leaves such a state and returns a value with \<open>P\<close>; it is closed
  under sequencing.
\<close>

section \<open>Calm worlds\<close>

definition plain :: "('cb, 'c) seq_request \<Rightarrow> bool" where
  "plain sr = (case req sr of RemoveChunks _ \<Rightarrow> False | _ \<Rightarrow> True)"

definition calm :: "('cb, 'c) world \<Rightarrow> bool" where
  "calm w = (script w = [] \<and> panic_on w = (\<lambda>_. False) \<and> list_all plain (channel w))"

type_synonym ('cb, 'c) outlook = "(string \<times> nat) list \<Rightarrow> string list \<Rightarrow> ('cb, 'c) seq_request list \<Rightarrow> bool"

definition serene :: "('cb, 'c) outlook \<Rightarrow> ('cb, 'c) world \<Rightarrow> bool" where
  "serene J w = (script w = [] \<and> panic_on w = (\<lambda>_. False) \<and> J (entries w) (dirs w) (channel w))"

lemma calm_serene: "calm = serene (\<lambda>_ _ ch. list_all plain ch)"
  by (simp add: calm_def serene_def fun_eq_iff)

definition calm_post :: "('cb, 'c) outlook \<Rightarrow> (('cb, 'c) world, 'a) io \<Rightarrow> ('a \<Rightarrow> bool) \<Rightarrow> bool" where
  "calm_post J m P = (\<forall>w. serene J w \<longrightarrow> (\<exists>x w'. m w = (Inr x, w') \<and> serene J w' \<and> P x))"

named_theorems calm_intros "programs that succeed in calm worlds"

lemma calm_post_bind [calm_intros]:
  assumes "calm_post J (m :: (('cb, 'c) world, 'x) io) Q" and "\<And>x. Q x \<Longrightarrow> calm_post J (k x) P"
  shows "calm_post J (io_bind m k) P"
  unfolding calm_post_def
proof (intro allI impI)
  fix w :: "('cb, 'c) world" assume "serene J w"
  with assms(1) obtain x w1 where m: "m w = (Inr x, w1)" "serene J w1" "Q x" unfolding calm_post_def by blast
  with assms(2) [OF m(3)] show "\<exists>y w'. io_bind m k w = (Inr y, w') \<and> serene J w' \<and> P y"
    by (auto simp: calm_post_def io_bind_app)
qed

lemma calm_post_return [calm_intros]: "P x \<Longrightarrow> calm_post J (io_return x) P"
  by (simp add: calm_post_def)

lemma calm_post_weaken: "calm_post J m Q \<Longrightarrow> (\<And>x. Q x \<Longrightarrow> P x) \<Longrightarrow> calm_post J m P"
  unfolding calm_post_def by blast

lemma calm_post_if [calm_intros]:
  "(c \<Longrightarrow> calm_post J m P) \<Longrightarrow> (\<not> c \<Longrightarrow> calm_post J n P) \<Longrightarrow> calm_post J (if c then m else n) P"
  by simp

lemma calm_instant_now: "calm_post J instant_now (\<lambda>_. True)"
  by (auto simp: calm_post_def serene_def instant_now_def split: list.splits)

lemma calm_emit: "calm_post J (emit ev) (\<lambda>_. True)"
  by (simp add: calm_post_def serene_def emit_def)

lemma calm_on_state: "calm_post J (on_state f) (\<lambda>_. True)"
  by (simp add: calm_post_def serene_def on_state_def)

lemma calm_on_metrics: "calm_post J (on_metrics f) (\<lambda>_. True)"
  by (simp add: calm_post_def serene_def on_metrics_def)

lemma calm_on_queued_bytes: "calm_post J (on_queued_bytes f) (\<lambda>_. True)"
  unfolding on_queued_bytes_def by (rule calm_on_state)

lemma serene_same_dir: "serene J w \<Longrightarrow> same_dir w w' \<Longrightarrow> script w' = [] \<Longrightarrow> serene J w'"
  by (frule same_dir_frame) (simp add: serene_def frame_def same_dir_def)

lemma calm_sync_file: "calm_post J (sync_file f) (\<lambda>_. True)"
  unfolding calm_post_def
proof (intro allI impI)
  fix w :: "('a, 'b) world" assume w: "serene J w"
  let ?w' = "set_inode f ((inode w f)\<lparr>synced := content_of w f\<rparr>) w"
  have "sync_file f w = (Inr (), ?w')" using w by (simp add: sync_file_def serene_def)
  moreover have "serene J ?w'" by (rule serene_same_dir [OF w]) (use w in \<open>simp_all add: serene_def\<close>)
  ultimately show "\<exists>x w'. sync_file f w = (Inr x, w') \<and> serene J w' \<and> True" by blast
qed

lemma calm_write_all: "calm_post J (write_all f bs) (\<lambda>_. True)"
  unfolding calm_post_def
proof (intro allI impI)
  fix w :: "('a, 'b) world" assume w: "serene J w"
  have "write_all f bs w = (Inr (), append_content f bs w)" using w by (simp add: serene_def)
  moreover have "serene J (append_content f bs w)"
    by (rule serene_same_dir [OF w]) (use w in \<open>simp_all add: serene_def\<close>)
  ultimately show "\<exists>x w'. write_all f bs w = (Inr x, w') \<and> serene J w' \<and> True" by blast
qed

lemma calm_syscall_id: "calm_post J (syscall (\<lambda>s. (Inr x, s))) (\<lambda>_. True)"
  by (simp add: calm_post_def serene_def)

lemmas calm_basic = calm_instant_now calm_emit calm_on_state calm_on_metrics calm_on_queued_bytes
  calm_sync_file calm_write_all calm_syscall_id

section \<open>The parts of an iteration\<close>

lemma calm_write_chunks: "calm_post J (write_chunks f chs) (\<lambda>_. True)"
proof (induction chs)
  case Nil
  show ?case unfolding write_chunks.simps by (rule calm_post_return) simp
next
  case (Cons ch chs)
  have "calm_post J (write_all_vectored f (filter (\<lambda>d. d \<noteq> []) (map (\<lambda>w. wr_data (qw_write w)) ch))) (\<lambda>_. True)"
    by (subst write_all_vectored_eq) (simp_all add: calm_write_all)
  then show ?case
    by (auto simp: Let_def intro!: calm_intros Cons.IH [THEN calm_post_weaken])
qed

text \<open>The worker keeps an open file and its settings.\<close>

definition sound :: "'c flush_worker \<Rightarrow> 'c flush_worker \<Rightarrow> bool" where
  "sound wk wk' = (files wk' \<noteq> [] \<and> wk_config wk' = wk_config wk)"

lemma calm_sync_predecessors:
  "fs \<noteq> [] \<Longrightarrow> calm_post J (sync_predecessors fs) (\<lambda>gs. gs \<noteq> [])"
proof (induction fs rule: sync_predecessors.induct)
  case (1 f g fs)
  then show ?case by (auto intro!: calm_post_bind [OF calm_sync_file])
qed (auto intro: calm_intros)

lemma calm_sync_data_files:
  "files wk \<noteq> [] \<Longrightarrow> calm_post J (sync_data_files off wk) (sound wk)"
  unfolding sync_data_files_def Let_def
  by (auto simp: sound_def intro!: calm_intros calm_basic calm_sync_predecessors
      intro: calm_post_bind [OF calm_sync_predecessors] calm_post_bind [OF calm_sync_file] calm_post_bind [OF calm_emit])

lemma calm_sync_if_needed:
  fixes b :: "('cb, 'c) write_batch"
  assumes "files wk \<noteq> []"
  shows "calm_post J (sync_if_needed (Inr ()) b wk bm) (\<lambda>(res, wk', _). res = Inr () \<and> sound wk wk')"
  unfolding sync_if_needed_def sum.case
proof (intro calm_post_if calm_post_bind [OF calm_instant_now] calm_post_return)
  fix t :: nat
  show "calm_post J (\<lambda>w :: ('cb, 'c) world. case sync_data_files (upto_offset (qw_write (last (writes b)))) wk w of
      (Inl (Err e), w') \<Rightarrow> io_bind instant_now (\<lambda>u. io_return (Inl (Err e), wk, record_sync_time (u - t) bm)) w'
    | (Inl e, w') \<Rightarrow> (Inl e, w')
    | (Inr wk', w') \<Rightarrow> io_bind instant_now (\<lambda>u. io_return (Inr (), wk', record_sync_time (u - t) bm)) w')
    (\<lambda>(res, wk', _). res = Inr () \<and> sound wk wk')" (is "calm_post J ?m ?P")
    unfolding calm_post_def
  proof (intro allI impI)
    fix w :: "('cb, 'c) world" assume "serene J w"
    with calm_sync_data_files [OF assms] obtain wk' w1 where
      one: "sync_data_files (upto_offset (qw_write (last (writes b)))) wk w = (Inr wk', w1)"
      and w1: "serene J w1" "sound wk wk'" unfolding calm_post_def by metis
    obtain u w2 where "instant_now w1 = (Inr u, w2)" "serene J w2"
      using calm_instant_now w1(1) unfolding calm_post_def by metis
    with one w1(2) show "\<exists>x w'. ?m w = (Inr x, w') \<and> serene J w' \<and> ?P x" by (auto simp: io_bind_app)
  qed
qed (use assms in \<open>simp_all add: sound_def\<close>)

lemma calm_write_and_sync:
  fixes b :: "('cb, 'c) write_batch"
  assumes "files wk \<noteq> []"
  shows "calm_post J (write_and_sync g b wk) (\<lambda>(res, wk'). res = Inr () \<and> sound wk wk')"
proof -
  have fin: "calm_post J (io_bind instant_now (\<lambda>t. io_bind (sync_if_needed (Inr ()) b wk (f t))
      (\<lambda>(res, wk', bm). io_bind instant_now (\<lambda>t. io_bind (on_metrics (h t bm)) (\<lambda>_. io_return (res, wk'))))))
      (\<lambda>(res, wk'). res = Inr () \<and> sound wk wk')" for f h
    by (intro calm_post_bind [OF calm_instant_now] calm_post_bind [OF calm_sync_if_needed [OF assms]])
       (auto intro!: calm_post_bind [OF calm_instant_now] calm_post_bind [OF calm_on_metrics] calm_post_return)
  have "calm_post J (\<lambda>w. let (write_res, w) = write_batch_vectored (fe_f (last (files wk))) (writes b) w
      in io_bind instant_now (\<lambda>t. io_bind (sync_if_needed write_res b wk (f t))
      (\<lambda>(res, wk', bm). io_bind instant_now (\<lambda>t. io_bind (on_metrics (h t bm)) (\<lambda>_. io_return (res, wk'))))) w)
      (\<lambda>(res, wk'). res = Inr () \<and> sound wk wk')" for f h
    unfolding calm_post_def
  proof (intro allI impI)
    fix w :: "('cb, 'c) world" assume "serene J w"
    then obtain w1 where "write_batch_vectored (fe_f (last (files wk))) (writes b) w = (Inr (), w1)" "serene J w1"
      using calm_write_chunks unfolding calm_post_def write_batch_vectored_def by (metis old.unit.exhaust)
    with fin [of f h] show "\<exists>x w'. (let (write_res, w) = write_batch_vectored (fe_f (last (files wk))) (writes b) w
      in io_bind instant_now (\<lambda>t. io_bind (sync_if_needed write_res b wk (f t))
      (\<lambda>(res, wk', bm). io_bind instant_now (\<lambda>t. io_bind (on_metrics (h t bm)) (\<lambda>_. io_return (res, wk'))))) w) =
      (Inr x, w') \<and> serene J w' \<and> (case x of (res, wk') \<Rightarrow> res = Inr () \<and> sound wk wk')"
      unfolding calm_post_def by simp
  qed
  then show ?thesis
    using assms unfolding write_and_sync_def
    by (auto simp: Let_def intro!: calm_post_bind [OF calm_instant_now])
qed

lemma calm_notify_all: "calm_post J (notify_all res ws) (\<lambda>_. True)"
proof (induction ws)
  case Nil
  show ?case unfolding notify_all.simps by (rule calm_post_return) simp
next
  case (Cons q ws)
  show ?case unfolding notify_all.simps
  proof (rule calm_post_bind)
    show "calm_post J (case wr_callback (qw_write q) of None \<Rightarrow> io_return ()
      | Some cb \<Rightarrow> emit (Notified cb res)) (\<lambda>_. True)"
      by (cases "wr_callback (qw_write q)") (simp_all only: option.case calm_emit calm_post_return)
  qed (rule Cons.IH)
qed

lemma calm_collect_stats: "calm_post J (collect_stats fs) (\<lambda>_. True)"
proof (induction fs)
  case Nil
  show ?case unfolding collect_stats.simps by (rule calm_post_return) simp
next
  case (Cons f fs)
  show ?case unfolding collect_stats.simps
    by (intro calm_post_bind [OF calm_syscall_id] calm_post_bind [OF Cons.IH] calm_post_return) simp
qed

lemma calm_handle_plain:
  assumes "plain sr" and "\<not> is_write sr" and "files wk \<noteq> []"
  shows "calm_post J (handle_non_flush_request (req sr) wk) (sound wk)"
  using assms
  by (cases "req sr")
     (auto simp: handle_non_flush_request_def plain_def is_write_def sound_def simp del: io_return_app
       intro!: calm_post_return calm_post_bind [OF calm_collect_stats] calm_post_bind [OF calm_emit])

section \<open>Requests that remove files\<close>

text \<open>
  The files that the requests remove exist and are removed once: \<open>E\<close> are the names in the directory, and
  \<open>D\<close> says that the directory itself exists.
\<close>

fun serves :: "bool \<Rightarrow> (string \<Rightarrow> bool) \<Rightarrow> ('cb, 'c) seq_request list \<Rightarrow> bool" where
  "serves D E [] = True"
| "serves D E (sr # q) =
     (case req sr of
        RemoveChunks ps \<Rightarrow> distinct ps \<and> list_all E ps \<and> (ps = [] \<or> D) \<and> serves D (\<lambda>p. E p \<and> p \<notin> set ps) q
      | _ \<Rightarrow> serves D E q)"

fun removed :: "('cb, 'c) seq_request list \<Rightarrow> string list" where
  "removed [] = []"
| "removed (sr # q) = (case req sr of RemoveChunks ps \<Rightarrow> ps | _ \<Rightarrow> []) @ removed q"

definition listed :: "(string \<times> nat) list \<Rightarrow> string \<Rightarrow> bool" where
  "listed es p = (map_of es p \<noteq> None)"

text \<open>What is left when the requests \<open>pend\<close> and those in the channel are done.\<close>

definition serving :: "config \<Rightarrow> (string \<times> nat) list \<Rightarrow> ('cb, 'c) seq_request list \<Rightarrow> ('cb, 'c) outlook" where
  "serving cfg es0 pend =
     (\<lambda>es ds ch. serves (dir cfg \<in> set ds) (listed es) (pend @ ch) \<and> filter (\<lambda>e. fst e \<notin> set (removed (pend @ ch))) es = es0)"

lemma serves_plain: "list_all plain q \<Longrightarrow> serves D E q \<and> removed q = []"
  by (induction D E q rule: serves.induct) (auto simp: plain_def split: worker_request.splits)

lemma serving_plain: "plain sr \<Longrightarrow> serving cfg es0 (sr # pend) = serving cfg es0 pend"
  by (auto simp: serving_def plain_def fun_eq_iff split: worker_request.splits)

lemma serving_channel: "serene (serving cfg es0 []) w \<Longrightarrow> channel w = sr # q \<Longrightarrow>
    serene (serving cfg es0 [sr]) (w\<lparr>channel := q\<rparr>)"
  by (cases "req sr") (simp_all add: serene_def serving_def)

lemma remove_files_calm:
  assumes "script s = []" and "distinct ps" and "list_all (listed (entries s)) ps"
  shows "remove_files ps s = (Inr (), s\<lparr>entries := filter (\<lambda>e. fst e \<notin> set ps) (entries s)\<rparr>)"
  using assms
proof (induction ps arbitrary: s)
  case (Cons p ps)
  let ?s = "s\<lparr>entries := filter (\<lambda>e. fst e \<noteq> p) (entries s)\<rparr>"
  have "map_of (filter (\<lambda>e. fst e \<noteq> p) es) x = map_of es x" if "x \<noteq> p" for es :: "(string \<times> nat) list" and x
    using that by (induction es) auto
  then have "list_all (listed (entries ?s)) ps" using Cons.prems(2,3) by (auto simp: list_all_iff listed_def)
  then have "remove_files ps ?s = (Inr (), ?s\<lparr>entries := filter (\<lambda>e. fst e \<notin> set ps) (entries ?s)\<rparr>)"
    using Cons.prems by (intro Cons.IH) auto
  moreover have "remove_file p s = (Inr (), ?s)" using Cons.prems by (simp add: remove_file_def listed_def)
  ultimately show ?case by (simp add: io_bind_app conj_commute)
qed simp

lemma listed_filter: "listed (filter (\<lambda>e. fst e \<notin> A) es) p = (listed es p \<and> p \<notin> A)"
  by (induction es) (auto simp: listed_def)

lemma calm_handle_remove:
  fixes w :: "('cb, 'c) world"
  assumes "req sr = RemoveChunks ps" and w: "serene (serving (wk_config wk) es0 [sr]) w"
  shows "\<exists>w'. handle_non_flush_request (req sr) wk w = (Inr wk, w') \<and> serene (serving (wk_config wk) es0 []) w'"
proof -
  let ?es = "filter (\<lambda>e. fst e \<notin> set ps) (entries w)"
  have sc: "script w = []" and ps: "distinct ps" "list_all (listed (entries w)) ps" "ps = [] \<or> dir (wk_config wk) \<in> set (dirs w)"
    and rest: "serves (dir (wk_config wk) \<in> set (dirs w)) (\<lambda>p. listed (entries w) p \<and> p \<notin> set ps) (channel w)"
    and es0: "filter (\<lambda>e. fst e \<notin> set ps \<and> fst e \<notin> set (removed (channel w))) (entries w) = es0"
    and pn: "panic_on w = (\<lambda>_. False)"
    using w assms(1) by (simp_all add: serene_def serving_def)
  have rm: "remove_files ps w = (Inr (), w\<lparr>entries := ?es\<rparr>)" by (rule remove_files_calm [OF sc ps(1,2)])
  have "serves (dir (wk_config wk) \<in> set (dirs w)) (listed ?es) (channel w)" using rest by (simp add: listed_filter [abs_def])
  moreover have "filter (\<lambda>e. fst e \<notin> set (removed (channel w))) ?es = es0" using es0 by (simp add: conj_commute)
  ultimately have ok: "serene (serving (wk_config wk) es0 []) (w\<lparr>entries := ?es\<rparr>)"
    "serene (serving (wk_config wk) es0 []) (w\<lparr>entries := ?es, synced_entries := ?es\<rparr>)"
    using sc pn by (simp_all add: serene_def serving_def)
  show ?thesis
  proof (cases "ps = []")
    case True
    then show ?thesis using rm ok(1) assms(1) by (simp add: handle_non_flush_request_def io_bind_app)
  next
    case False
    then show ?thesis using rm ok(2) sc ps(3) assms(1) by (simp add: handle_non_flush_request_def io_bind_app sync_dir_def)
  qed
qed

lemma calm_handle_non_flush_request:
  fixes w :: "('cb, 'c) world"
  assumes "\<not> is_write sr" and "files wk \<noteq> []" and w: "serene (serving (wk_config wk) es0 [sr]) w"
  shows "\<exists>wk' w'. handle_non_flush_request (req sr) wk w = (Inr wk', w') \<and>
    serene (serving (wk_config wk) es0 []) w' \<and> sound wk wk'"
proof (cases "plain sr")
  case True
  then show ?thesis
    using calm_handle_plain [OF True assms(1,2), of "serving (wk_config wk) es0 []"] w
    unfolding calm_post_def by (metis serving_plain)
next
  case False
  then obtain ps where "req sr = RemoveChunks ps" by (auto simp: plain_def split: worker_request.splits)
  from calm_handle_remove [OF this w] show ?thesis using assms(2) by (auto simp: sound_def)
qed

section \<open>A turn of the loop\<close>

definition held :: "('cb, 'c) write_batch \<Rightarrow> ('cb, 'c) seq_request list" where
  "held b = (case last_non_flush b of None \<Rightarrow> [] | Some nf \<Rightarrow> [nf])"

definition batch_ok :: "('cb, 'c) write_batch \<Rightarrow> bool" where
  "batch_ok b = (\<forall>nf. last_non_flush b = Some nf \<longrightarrow> \<not> is_write nf)"

lemma calm_finish_batch:
  fixes w :: "('cb, 'c) world"
  assumes "files wk \<noteq> []" and "batch_ok b" and w: "serene (serving (wk_config wk) es0 (held b)) w"
  shows "\<exists>wk' w'. finish_batch b (Inr ()) wk w = (Inr (Continue, wk'), w') \<and>
    serene (serving (wk_config wk) es0 []) w' \<and> sound wk wk'"
proof -
  let ?J = "serving (wk_config wk) es0"
  define m1 :: "(('cb, 'c) world, unit) io" where "m1 = io_bind (notify_all (Inr ()) (writes b))
    (\<lambda>_ :: unit. on_queued_bytes (release (sum_list (map (\<lambda>q. length (wr_data (qw_write q))) (writes b)))))"
  define m2 :: "(('cb, 'c) world, 'c flush_worker \<times> nat) io" where "m2 = (case last_non_flush b of None \<Rightarrow> io_return (wk, max_seq b)
      | Some nf \<Rightarrow> io_bind (handle_non_flush_request (req nf) wk)
         (\<lambda>wk. io_return (wk, max (max_seq b) (seq nf))))"
  have "calm_post (?J (held b)) m1 (\<lambda>_. True)"
    unfolding m1_def by (intro calm_post_bind [OF calm_notify_all] calm_on_queued_bytes)
  then obtain w1 where one: "m1 w = (Inr (), w1)" and w1: "serene (?J (held b)) w1"
    using w unfolding calm_post_def by (metis old.unit.exhaust)
  have "\<exists>wk' ms w2. m2 w1 = (Inr (wk', ms), w2) \<and> serene (?J []) w2 \<and> sound wk wk'"
  proof (cases "last_non_flush b")
    case None
    then show ?thesis using w1 assms(1) by (simp add: m2_def held_def sound_def)
  next
    case (Some nf)
    then have "\<not> is_write nf" "serene (?J [nf]) w1" using assms(2) w1 by (simp_all add: batch_ok_def held_def)
    from calm_handle_non_flush_request [OF this(1) assms(1) this(2)] show ?thesis
      using Some by (auto simp: m2_def io_bind_app)
  qed
  then obtain wk' ms w2 where two: "m2 w1 = (Inr (wk', ms), w2)" and w2: "serene (?J []) w2" "sound wk wk'" by blast
  obtain w3 where three: "on_state (complete ms) w2 = (Inr (), w3)" "serene (?J []) w3"
    using calm_on_state w2(1) unfolding calm_post_def by (metis old.unit.exhaust)
  have "finish_batch b (Inr ()) wk w =
      io_bind m1 (\<lambda>_. io_bind m2 (\<lambda>(wk, ms). io_bind (on_state (complete ms)) (\<lambda>_. io_return (Continue, wk)))) w"
    by (simp add: finish_batch_def m1_def m2_def Let_def io_bind_app split: prod.splits sum.splits)
  also have "\<dots> = (Inr (Continue, wk'), w3)" using one two three(1) by simp
  finally show ?thesis using three(2) w2(2) by blast
qed

lemma calm_collect_loop:
  fixes w :: "('cb, 'c) world"
  assumes "collect_loop dl b w = (b', w')" and "serene (serving cfg es0 (held b)) w" and "batch_ok b"
  shows "serene (serving cfg es0 (held b')) w' \<and> batch_ok b'"
  using assms
proof (induction dl b w rule: collect_loop.induct)
  case (1 dl b w)
  show ?case
  proof (cases "last_non_flush b = None \<and> length (writes b) < max_size b")
    case False
    then show ?thesis using "1.prems" by (auto simp: collect_loop.simps [of dl b w])
  next
    case guard: True
    then have hb: "held b = []" by (simp add: held_def)
    obtain now w1 where t: "instant_now w = (Inr now, w1)" and w1: "serene (serving cfg es0 []) w1"
      using calm_instant_now "1.prems"(2) hb unfolding calm_post_def by metis
    show ?thesis
    proof (cases "dl \<le> now \<or> channel w1 = []")
      case True
      then have "b' = b \<and> w' = w1" using "1.prems" guard t by (auto simp: collect_loop.simps [of dl b w] split: list.splits)
      then show ?thesis using w1 hb "1.prems"(3) by simp
    next
      case False
      then obtain sr q where q: "channel w1 = sr # q" by (cases "channel w1") auto
      obtain ok b1 where push: "push_seq_request sr b = (ok, b1)" by (cases "push_seq_request sr b")
      have w2: "serene (serving cfg es0 [sr]) (w1\<lparr>channel := q\<rparr>)" by (rule serving_channel [OF w1 q])
      have b1: "batch_ok b1" and ok: "ok = is_write sr"
        and hold: "held b1 = (if ok then [] else [sr])"
        using push guard by (auto simp: push_seq_request_cases batch_ok_def held_def split: if_splits)
      have w2': "serene (serving cfg es0 (held b1)) (w1\<lparr>channel := q\<rparr>)"
      proof (cases ok)
        case True
        then have "plain sr" using ok by (auto simp: is_write_def plain_def split: worker_request.splits)
        then show ?thesis using w2 hold True by (simp add: serving_plain)
      qed (use w2 hold in simp)
      show ?thesis
      proof (cases ok)
        case True
        then have "collect_loop dl b1 (w1\<lparr>channel := q\<rparr>) = (b', w')"
          using "1.prems" guard t False q push by (simp add: collect_loop.simps [of dl b w])
        from "1.IH" [OF guard t [symmetric] refl _ q push [symmetric] refl refl True this w2' b1] False
        show ?thesis by simp
      next
        case no: False
        then have "b' = b1" "w' = w1\<lparr>channel := q\<rparr>"
          using "1.prems" guard t False q push by (auto simp: collect_loop.simps [of dl b w])
        then show ?thesis using w2' b1 by simp
      qed
    qed
  qed
qed

lemma calm_collect_write_batch:
  fixes w :: "('cb, 'c) world"
  assumes "batch_ok b" and w: "serene (serving cfg' es0 (held b)) w"
  shows "\<exists>g b' w'. collect_write_batch cfg b w = (Inr (g, b'), w') \<and> serene (serving cfg' es0 (held b')) w' \<and> batch_ok b'"
proof -
  obtain t w1 where t: "instant_now w = (Inr t, w1)" and w1: "serene (serving cfg' es0 (held b)) w1"
    using calm_instant_now w unfolding calm_post_def by metis
  obtain b2 w2 where two: "collect_loop (t + flush_batch_wait cfg) b w1 = (b2, w2)"
    by (cases "collect_loop (t + flush_batch_wait cfg) b w1")
  with calm_collect_loop [OF this w1 assms(1)] have w2: "serene (serving cfg' es0 (held b2)) w2" "batch_ok b2" by blast+
  obtain u w3 where "instant_now w2 = (Inr u, w3)" "serene (serving cfg' es0 (held b2)) w3"
    using calm_instant_now w2(1) unfolding calm_post_def by metis
  then show ?thesis using t two w2(2) by (simp add: collect_write_batch_def io_bind_app)
qed

section \<open>The loop makes progress\<close>

lemma calm_run_iteration:
  fixes b :: "('cb, 'c) write_batch" and w :: "('cb, 'c) world"
  assumes "files wk \<noteq> []" and w: "serene (serving (wk_config wk) es0 []) w"
  shows "\<exists>c wk' w'. run_iteration b wk w = (Inr (c, wk'), w') \<and> serene (serving (wk_config wk) es0 []) w' \<and> sound wk wk'"
proof (cases "channel w")
  case Nil
  then show ?thesis using w assms by (simp add: run_iteration_def sound_def)
next
  case (Cons sr q)
  have w1: "serene (serving (wk_config wk) es0 [sr]) (w\<lparr>channel := q\<rparr>)" by (rule serving_channel [OF w Cons])
  show ?thesis
  proof (cases "is_write sr")
    case False
    obtain wk' w2 where two: "handle_non_flush_request (req sr) wk (w\<lparr>channel := q\<rparr>) = (Inr wk', w2)"
      "serene (serving (wk_config wk) es0 []) w2" "sound wk wk'"
      using calm_handle_non_flush_request [OF False assms(1) w1] by blast
    obtain w3 where "on_state (complete (seq sr)) w2 = (Inr (), w3)" "serene (serving (wk_config wk) es0 []) w3"
      using calm_on_state two(2) unfolding calm_post_def by (metis old.unit.exhaust)
    then show ?thesis
      using Cons False two(1,3) by (simp add: run_iteration_def push_seq_request_cases io_bind_app)
  next
    case True
    let ?b = "(reset b)\<lparr>max_seq := max (max_seq (reset b)) (seq sr), writes := writes (reset b) @ queued_of sr\<rparr>"
    have "plain sr" using True by (auto simp: is_write_def plain_def split: worker_request.splits)
    then have w1': "serene (serving (wk_config wk) es0 (held ?b)) (w\<lparr>channel := q\<rparr>)"
      using w1 by (simp add: held_def serving_plain)
    have "batch_ok ?b" by (simp add: batch_ok_def)
    from calm_collect_write_batch [OF this w1'] obtain g b2 w2 where
      two: "collect_write_batch (wk_config wk) ?b (w\<lparr>channel := q\<rparr>) = (Inr (g, b2), w2)"
      "serene (serving (wk_config wk) es0 (held b2)) w2" "batch_ok b2" by blast
    obtain wk3 w3 where three: "write_and_sync g b2 wk w2 = (Inr (Inr (), wk3), w3)"
      "serene (serving (wk_config wk) es0 (held b2)) w3" "sound wk wk3"
      using calm_write_and_sync [OF assms(1), of "serving (wk_config wk) es0 (held b2)" g b2] two(2)
      unfolding calm_post_def by fastforce
    have wk3: "files wk3 \<noteq> []" "wk_config wk3 = wk_config wk" using three(3) by (simp_all add: sound_def)
    obtain wk4 w4 where "finish_batch b2 (Inr ()) wk3 w3 = (Inr (Continue, wk4), w4)"
      "serene (serving (wk_config wk) es0 []) w4" "sound wk3 wk4"
      using calm_finish_batch [OF wk3(1) two(3), of es0 w3] three(2) wk3(2) by auto
    then show ?thesis
      using Cons True two(1) three(1) wk3(2)
      by (simp add: run_iteration_def push_seq_request_cases io_bind_app sound_def)
  qed
qed

lemma calm_run_inner:
  "files wk \<noteq> [] \<Longrightarrow> serene (serving (wk_config wk) es0 []) w \<Longrightarrow>
    \<exists>x w'. run_inner b wk w = (Inr x, w') \<and> serene (serving (wk_config wk) es0 []) w'"
proof (induction b wk w rule: run_inner.induct)
  case (1 b wk w)
  obtain c wk' w1 where one: "run_iteration b wk w = (Inr (c, wk'), w1)" "serene (serving (wk_config wk) es0 []) w1" "sound wk wk'"
    using calm_run_iteration [OF "1.prems"] by blast
  show ?case
  proof (cases c)
    case Continue
    then show ?thesis
      using "1.IH" [OF one(1) [symmetric] refl refl] one by (simp add: run_inner.simps [of b wk w] sound_def)
  qed (use one in \<open>simp_all add: run_inner.simps [of b wk w]\<close>)
qed

text \<open>A world in which every request can be served.\<close>

definition ready :: "config \<Rightarrow> ('cb, 'c) world \<Rightarrow> bool" where
  "ready cfg w = (script w = [] \<and> panic_on w = (\<lambda>_. False) \<and>
     serves (dir cfg \<in> set (dirs w)) (listed (entries w)) (channel w))"

lemma calm_ready: "calm w \<Longrightarrow> ready cfg w"
  using serves_plain by (auto simp: calm_def ready_def)

lemma ready_run:
  assumes "worker w = Some wk" and "files wk \<noteq> []" and "ready (wk_config wk) w"
  shows "\<exists>wk' w'. channel (run w) = [] \<and> processed wk (channel w) wk' w (run w) \<and>
    done_seq (wstate (run w)) = top_seq (done_seq (wstate w)) (channel w) \<and>
    (tx_alive w \<longrightarrow> worker (run w) = Some wk')"
    and "script (run w) = []" and "panic_on (run w) = (\<lambda>_. False)"
    and "entries (run w) = filter (\<lambda>e. fst e \<notin> set (removed (channel w))) (entries w)"
proof -
  let ?b = "write_batch_new (flush_batch_max_items (wk_config wk))"
  let ?es = "filter (\<lambda>e. fst e \<notin> set (removed (channel w))) (entries w)"
  have "serene (serving (wk_config wk) ?es []) w" using assms(3) by (simp add: ready_def serene_def serving_def)
  then obtain c wk' w' where inner: "run_inner ?b wk w = (Inr (c, wk'), w')" and w': "serene (serving (wk_config wk) ?es []) w'"
    using calm_run_inner [OF assms(2), of ?es w ?b] by force
  from run_inner_cases [OF inner assms(2)] have h: "c = (if tx_alive w then Waiting else Quit)" "channel w' = []"
    "processed wk (channel w) wk' w w'" "accounted (channel w) w w'" by auto
  then have run: "run w = (if tx_alive w then w'\<lparr>worker := Some wk'\<rparr> else stop_worker (Inr ()) w')"
    using assms(1) inner by (simp add: run_def)
  then have "inode (run w) = inode w'" by simp
  then have "processed wk (channel w) wk' w (run w)" using h(3) processed_cong [of w w "run w" w'] by simp
  then show "\<exists>wk' w'. channel (run w) = [] \<and> processed wk (channel w) wk' w (run w) \<and>
    done_seq (wstate (run w)) = top_seq (done_seq (wstate w)) (channel w) \<and>
    (tx_alive w \<longrightarrow> worker (run w) = Some wk')" using run h by (auto simp: accounted_def)
  have "entries w' = ?es" "script w' = []" "panic_on w' = (\<lambda>_. False)"
    using w' h(2) by (simp_all add: serene_def serving_def)
  then show "script (run w) = []" "panic_on (run w) = (\<lambda>_. False)" "entries (run w) = ?es"
    using run by (simp_all add: stop_worker_def Let_def)
qed

lemma calm_run:
  assumes "worker w = Some wk" and "files wk \<noteq> []" and "calm w"
  shows "\<exists>wk' w'. channel (run w) = [] \<and> processed wk (channel w) wk' w (run w) \<and>
    done_seq (wstate (run w)) = top_seq (done_seq (wstate w)) (channel w) \<and>
    (tx_alive w \<longrightarrow> worker (run w) = Some wk')"
  by (rule ready_run(1) [OF assms(1,2) calm_ready [OF assms(3)]])

lemma calm_after_run:
  assumes "calm w" and "\<And>wk. worker w = Some wk \<Longrightarrow> files wk \<noteq> []"
  shows "calm (run w)"
proof (cases "worker w")
  case (Some wk)
  note r = ready_run [OF Some assms(2) [OF Some] calm_ready [OF assms(1)]]
  then show ?thesis by (auto simp: calm_def)
qed (use assms(1) in \<open>simp add: run_def\<close>)

lemma calm_instant:
  assumes "calm w"
  obtains t w' where "instant_now w = (Inr t, w')" "calm w'"
  using assms calm_instant_now unfolding calm_post_def calm_serene by metis

section \<open>Properties\<close>

text \<open>
  C17. When no system call fails and no callback panics, the worker completes every request in the
  channel, writes, new files, statistics and removals, provided that the files to be removed exist (each is
  removed once) and so does the directory: waiting for the last request returns \<open>Ok\<close>, every file holds
  exactly the bytes of all requests for it, in order, and the directory lists what it listed before except for the files
  that were to be removed.
\<close>

theorem calm_run_completes:
  assumes "worker w = Some wk" and "files wk \<noteq> []" and "ready (wk_config wk) w"
  shows "wait_for (top_seq (done_seq (wstate w)) (channel w)) (wstate (run w)) = Some (Inr ()) \<and>
    (\<forall>i. content_of (run w) i = content_of w i @ routed (cur_file wk) (channel w) i) \<and>
    entries (run w) = [e \<leftarrow> entries w. fst e \<notin> set (removed (channel w))]"
  using ready_run(1,4) [OF assms] by (auto simp: processed_def wait_for_def done_seq_def)

theorem calm_run_completes_witness:
  "let w = demo_world [demo_write 1 [7] True, demo_write 2 [8, 9] False,
      \<lparr> seq = 3, queued_at = 0, req = RemoveChunks [chunk_path demo_config (ChunkId 0)] \<rparr>]
   in content_of (run w) 0 = [7, 8, 9] \<and> entries (run w) = [] \<and> wait_for 3 (wstate (run w)) = Some (Inr ())"
proof -
  let ?w = "demo_world [demo_write 1 [7] True, demo_write 2 [8, 9] False,
      \<lparr> seq = 3, queued_at = 0, req = RemoveChunks [chunk_path demo_config (ChunkId 0)] \<rparr>]"
  have "ready (wk_config demo_worker) ?w"
    by (simp add: ready_def listed_def demo_write_def demo_world_def demo_worker_def fs.defs world.defs demo_fs_def
        demo_config_def config_new_def)
  moreover have "worker ?w = Some demo_worker" "files demo_worker \<noteq> []" by (simp_all add: demo_worker_def)
  ultimately have r: "wait_for (top_seq (done_seq (wstate ?w)) (channel ?w)) (wstate (run ?w)) = Some (Inr ())"
    "content_of (run ?w) 0 = content_of ?w 0 @ routed (cur_file demo_worker) (channel ?w) 0"
    "entries (run ?w) = [e \<leftarrow> entries ?w. fst e \<notin> set (removed (channel ?w))]"
    using calm_run_completes by blast+
  have "top_seq (done_seq (wstate ?w)) (channel ?w) = 3" by (simp add: demo_write_def done_seq_def worker_state_new_def)
  moreover have "routed (cur_file demo_worker) (channel ?w) 0 = [7, 8, 9]"
    by (simp add: demo_write_def req_data_def demo_worker_def cur_file_def file_entry_new_def)
  moreover have "entries ?w = [(chunk_path demo_config (ChunkId 0), 0)]"
    by (simp add: demo_world_def fs.defs world.defs demo_fs_def)
  moreover have "removed (channel ?w) = [chunk_path demo_config (ChunkId 0)]" by (simp add: demo_write_def)
  ultimately show ?thesis using r unfolding Let_def by simp
qed

text \<open>
  C8. What \<open>wait_for\<close> promises is durable: if waiting for the sequence number of a synchronising
  write returns \<open>Ok\<close> after a run of the worker, then all bytes of that request and of all requests
  before it are on stable storage, in every file that was clean before or is open in the worker, even
  if later requests failed.
\<close>

theorem completed_sync_is_durable:
  assumes "worker w = Some wk" and "files wk \<noteq> []" and "channel w = p1 @ sr # p2" and "syncs_any [sr]"
    and "sorted_wrt (<) (map seq (channel w))" and "done_seq (wstate w) < seq sr"
    and "wait_for (seq sr) (wstate (run w)) = Some (Inr ())" and "clean w i \<or> i \<in> open_inodes wk"
  shows "prefix (content_of w i @ routed (cur_file wk) (p1 @ [sr]) i) (synced_of (run w) i)"
proof -
  obtain p q d wk1 w1 where res: "run_result wk p q d wk1 w w1 (run w)" by (rule run_cases [OF assms(1,2)])
  then have ch: "channel w = p @ q" and ds: "done_seq (wstate (run w)) = top_seq (done_seq (wstate w)) p"
    by (auto simp: run_result_def accounted_def)
  have "seq sr \<le> top_seq (done_seq (wstate w)) p"
    using assms(7) ds by (auto simp: wait_for_def done_seq_def status_error_def
        split: if_splits worker_status.splits)
  then have "sr \<notin> set q" using top_seq_strict [of p q sr "done_seq (wstate w)"] assms(5,6) ch by auto
  then obtain p3 where "p = p1 @ sr # p3"
    using ch assms(3) by (auto simp: append_eq_append_conv2 Cons_eq_append_conv append_eq_Cons_conv)
  from run_result_durable [OF res this assms(4,8)] show ?thesis .
qed

theorem completed_sync_is_durable_witness:
  "prefix [7, 8] (synced_of (run (demo_world [demo_write 1 [7] False, demo_write 2 [8] True])) 0)"
proof -
  let ?w = "demo_world [demo_write 1 [7] False, demo_write 2 [8] True]"
  have "calm ?w"
    by (simp add: calm_def plain_def demo_write_def demo_world_def fs.defs world.defs demo_fs_def)
  from calm_run [OF _ _ this, of demo_worker]
  have "wait_for (seq (demo_write 2 [8] True)) (wstate (run ?w)) = Some (Inr ())"
    by (auto simp: wait_for_def done_seq_def demo_write_def)
  from completed_sync_is_durable [of ?w demo_worker "[demo_write 1 [7] False]" "demo_write 2 [8] True" "[]" 0, OF _ _ _ _ _ _ this]
  show ?thesis
    by (simp add: demo_write_def req_data_def worker_state_new_def done_seq_def clean_def)
qed

end
