(* ===== verification/Flush_Client.thy ===== *)
theory Flush_Client
  imports Flush_Calm
begin

text \<open>
  \<open>src/wal/flush_client.rs\<close>: the sender's side of the request channel. While the sender waits, for
  queue memory, for space in the channel or for the completion of its requests, only the worker acts:
  waiting lets the worker run on the requests that are in the channel. A wait that this does not end
  is a \<open>Hang\<close>; the invariant of this theory excludes it as long as no other interleaving happens
  inside \<open>send\<close>, and the last property shows the one that does hang.
\<close>

section \<open>Operations\<close>

record flush_client =
  fc_tx :: bool
  fc_sent_seq :: nat

definition flush_client_new :: flush_client where
  "flush_client_new = \<lparr> fc_tx = True, fc_sent_seq = 0 \<rparr>"

text \<open>\<open>QueuedBytes::acquire\<close>, waiting for the worker when the bytes do not fit.\<close>

definition acquire_wait :: "nat \<Rightarrow> (('cb, 'c) world, unit) io" where
  "acquire_wait n = (\<lambda>w.
     case acquire n (ws_queued_bytes (wstate w)) of
       Some q \<Rightarrow> (Inr (), w\<lparr>wstate := (wstate w)\<lparr>ws_queued_bytes := q\<rparr>\<rparr>)
     | None \<Rightarrow>
        let w = run w in
        case acquire n (ws_queued_bytes (wstate w)) of
          Some q \<Rightarrow> (Inr (), w\<lparr>wstate := (wstate w)\<lparr>ws_queued_bytes := q\<rparr>\<rparr>)
        | None \<Rightarrow> (Inl Hang, w))"

definition CHANNEL_CAPACITY :: nat where
  "CHANNEL_CAPACITY = 1024"

text \<open>\<open>SyncSender::send\<close>: waits while the channel is full, fails when the receiver is gone.\<close>

definition channel_send :: "('cb, 'c) seq_request \<Rightarrow> (('cb, 'c) world, unit) io" where
  "channel_send sr = (\<lambda>w.
     let w = (if length (channel w) < CHANNEL_CAPACITY then w else run w) in
     if worker w = None then (Inl (Err Other), w)
     else if length (channel w) < CHANNEL_CAPACITY then (Inr (), w\<lparr>channel := channel w @ [sr]\<rparr>)
     else (Inl Hang, w))"

text \<open>The part of \<open>send\<close> after the reservation.\<close>

definition send_enqueue ::
    "nat \<Rightarrow> ('cb, 'c) worker_request \<Rightarrow> (flush_client \<times> ('cb, 'c) world, unit) io" where
  "send_enqueue reserved rq = (\<lambda>(fc, w).
     let fc = fc\<lparr>fc_sent_seq := u64_add (fc_sent_seq fc) 1\<rparr> in
     case io_bind instant_now (\<lambda>now.
            channel_send \<lparr> seq = fc_sent_seq fc, queued_at = now, req = rq \<rparr>) w of
       (Inr _, w) \<Rightarrow> (Inr (), (fc, w))
     | (Inl (Err e), w) \<Rightarrow> (Inl (Err e), (fc, snd (on_queued_bytes (release reserved) w)))
     | (Inl e, w) \<Rightarrow> (Inl e, (fc, w)))"

definition send :: "('cb, 'c) worker_request \<Rightarrow> (flush_client \<times> ('cb, 'c) world, unit) io" where
  "send rq = (\<lambda>(fc, w).
     if \<not> fc_tx fc then (Inl (Err Other), (fc, w))
     else
       let reserved = (case rq of Write x \<Rightarrow> length (wr_data x) | _ \<Rightarrow> 0) in
       case acquire_wait reserved w of
         (Inl e, w) \<Rightarrow> (Inl e, (fc, w))
       | (Inr _, w) \<Rightarrow> send_enqueue reserved rq (fc, w))"

definition close :: "flush_client \<times> ('cb, 'c) world \<Rightarrow> flush_client \<times> ('cb, 'c) world" where
  "close = (\<lambda>(fc, w). (fc\<lparr>fc_tx := False\<rparr>, w\<lparr>tx_alive := False\<rparr>))"

definition wait_idle :: "(flush_client \<times> ('cb, 'c) world, unit) io" where
  "wait_idle = (\<lambda>(fc, w).
     case wait_for (fc_sent_seq fc) (wstate w) of
       Some r \<Rightarrow> (r, (fc, w))
     | None \<Rightarrow>
        let w = run w in
        case wait_for (fc_sent_seq fc) (wstate w) of
          Some r \<Rightarrow> (r, (fc, w))
        | None \<Rightarrow> (Inl Hang, (fc, w)))"

section \<open>The invariant\<close>

text \<open>
  While the worker runs, the budget is the size of the queued writes and of the \<open>m\<close> bytes that are
  reserved for a request not yet queued, and the queued sequence numbers ascend from the completed
  one to the last one sent; once the worker has ended nothing else is reserved, and it has reported a
  failure.
\<close>

definition client_inv :: "nat \<Rightarrow> flush_client \<Rightarrow> ('cb, 'c) world \<Rightarrow> bool" where
  "client_inv m fc w =
     (used_bytes w = queue_bytes (channel w) + m \<and> used_bytes w < 2 ^ 64 \<and>
      (case worker w of
         Some wk \<Rightarrow> files wk \<noteq> [] \<and> tx_alive w \<and> fc_tx fc \<and>
           sorted_wrt (<) (map seq (channel w)) \<and> (\<forall>sr \<in> set (channel w). done_seq (wstate w) < seq sr) \<and>
           top_seq (done_seq (wstate w)) (channel w) = fc_sent_seq fc \<and>
           wp_status (progress (wstate w)) = Running
       | None \<Rightarrow> channel w = [] \<and> (\<exists>e. wp_status (progress (wstate w)) = Failed e)))"

abbreviation client_ok :: "flush_client \<Rightarrow> ('cb, 'c) world \<Rightarrow> bool" where
  "client_ok \<equiv> client_inv 0"

lemma run_env:
  assumes "worker w = Some wk" and "files wk \<noteq> []"
  shows "tx_alive (run w) = tx_alive w" and "panic_on (run w) = panic_on w"
proof -
  let ?b = "write_batch_new (flush_batch_max_items (wk_config wk))"
  obtain r w2 where inner: "run_inner ?b wk w = (r, w2)" by (cases "run_inner ?b wk w")
  have "env_frame w2 = env_frame w" using run_inner_cases [OF inner assms(2)] by (auto split: sum.splits)
  moreover have "tx_alive (run w) = tx_alive w2 \<and> panic_on (run w) = panic_on w2"
    using assms(1) inner
    by (auto simp: run_def stop_worker_def Let_def split: sum.splits prod.splits loop_control.splits)
  ultimately show "tx_alive (run w) = tx_alive w" and "panic_on (run w) = panic_on w"
    by (auto simp: env_frame_def)
qed

lemma client_ok_run:
  assumes "client_ok fc w"
  shows "client_ok fc (run w)" and "channel (run w) = []" and "used_bytes (run w) = 0"
proof -
  have "client_ok fc (run w) \<and> channel (run w) = [] \<and> used_bytes (run w) = 0"
  proof (cases "worker w")
    case None
    then show ?thesis using assms by (simp add: run_def client_inv_def)
  next
    case (Some wk)
    then have ok: "files wk \<noteq> []" "tx_alive w" "fc_tx fc" "used_bytes w = queue_bytes (channel w)" "used_bytes w < 2 ^ 64"
      "top_seq (done_seq (wstate w)) (channel w) = fc_sent_seq fc" "wp_status (progress (wstate w)) = Running"
      using assms by (auto simp: client_inv_def)
    obtain p q d wk1 w1 where res: "run_result wk p q d wk1 w w1 (run w)"
      and wk1: "worker (run w) = (if q = [] \<and> tx_alive w then Some wk1 else None)"
      and dead: "worker (run w) = None \<Longrightarrow> used_bytes (run w) = 0"
      and alive: "worker (run w) \<noteq> None \<Longrightarrow> accounted p w (run w)"
      using run_cases [OF Some ok(1)] by metis
    have ch: "channel w = p @ q" "channel (run w) = []" and ne: "files wk1 \<noteq> []"
      using res by (auto simp: run_result_def processed_def)
    show ?thesis
    proof (cases "q = []")
      case True
      then have "accounted (channel w) w (run w)" using alive wk1 ok(2) ch by simp
      then have "used_bytes (run w) = 0" "done_seq (wstate (run w)) = fc_sent_seq fc"
        "wp_status (progress (wstate (run w))) = Running"
        using ok by (auto simp: accounted_def)
      then show ?thesis using True wk1 ok ch ne run_env [OF Some ok(1)] by (simp add: client_inv_def)
    next
      case False
      then show ?thesis using wk1 dead ch res by (auto simp: client_inv_def run_result_def)
    qed
  qed
  then show "client_ok fc (run w)" "channel (run w) = []" "used_bytes (run w) = 0" by auto
qed

lemma client_inv_acquire:
  assumes "client_ok fc w" and "acquire n (ws_queued_bytes (wstate w)) = Some q" and "used_bytes w + n < 2 ^ 64"
  shows "client_inv n fc (w\<lparr>wstate := (wstate w)\<lparr>ws_queued_bytes := q\<rparr>\<rparr>)"
proof -
  have "q = (ws_queued_bytes (wstate w))\<lparr>qb_used := used_bytes w + n\<rparr>"
    using assms(2,3) by (auto simp: acquire_def offset_simps split: if_splits)
  then show ?thesis using assms(1,3) by (auto simp: client_inv_def split: option.splits)
qed

lemma acquire_empty: "used_bytes w = 0 \<Longrightarrow> acquire n (ws_queued_bytes (wstate w)) \<noteq> None"
  by (simp add: acquire_def)

lemma acquire_wait_reserved:
  assumes "client_ok fc w" and "used_bytes w + n < 2 ^ 64"
  obtains w' where "acquire_wait n w = (Inr (), w')" "client_inv n fc w'"
proof (cases "acquire n (ws_queued_bytes (wstate w))")
  case (Some q)
  then show ?thesis using that client_inv_acquire [OF assms(1) Some assms(2)] by (simp add: acquire_wait_def)
next
  case None
  note r = client_ok_run [OF assms(1)]
  obtain q where q: "acquire n (ws_queued_bytes (wstate (run w))) = Some q"
    using acquire_empty [OF r(3)] by auto
  have "client_inv n fc ((run w)\<lparr>wstate := (wstate (run w))\<lparr>ws_queued_bytes := q\<rparr>\<rparr>)"
    using client_inv_acquire [OF r(1) q] r(3) assms(2) by simp
  then show ?thesis using that None q by (simp add: acquire_wait_def Let_def)
qed

lemma frame_client_inv:
  assumes "frame w' = frame w"
  shows "client_inv n fc w' = client_inv n fc w"
proof -
  have "worker w' = worker w" "channel w' = channel w" "wstate w' = wstate w" "tx_alive w' = tx_alive w"
    using assms by (simp_all add: frame_def)
  then show ?thesis by (simp add: client_inv_def split: option.splits)
qed

lemma top_seq_upper: "(\<forall>sr \<in> set q. seq sr \<le> m) \<Longrightarrow> n \<le> m \<Longrightarrow> top_seq n q \<le> m"
  by (induction q arbitrary: n) auto

lemma top_seq_ge: "n \<le> top_seq n q"
  by (induction q arbitrary: n) (auto intro: order_trans [OF max.cobounded2])

lemma top_seq_mem: "sr \<in> set q \<Longrightarrow> seq sr \<le> top_seq n q"
proof (induction q arbitrary: n)
  case (Cons x q)
  then show ?case using top_seq_ge [of "max (seq x) n" q] by auto
qed simp

text \<open>What sending leaves: the request at the end of the channel, or the error of a stopped worker.\<close>

definition sent :: "('cb, 'c) worker_request \<Rightarrow> unit res \<Rightarrow> flush_client \<Rightarrow> flush_client \<Rightarrow>
    ('cb, 'c) world \<Rightarrow> ('cb, 'c) world \<Rightarrow> bool" where
  "sent rq r fc fc' w w' =
     (fc_tx fc' = fc_tx fc \<and> fc_sent_seq fc' = fc_sent_seq fc + 1 \<and> inode w' = inode w \<and>
      (if worker w = None then r = Inl (Err Other) \<and> worker w' = None
       else r = Inr () \<and> worker w' = worker w \<and>
         (\<exists>t. channel w' = channel w @ [\<lparr> seq = fc_sent_seq fc + 1, queued_at = t, req = rq \<rparr>])))"

lemma send_enqueue_ok:
  assumes res: "client_inv (length (req_data rq)) fc w" and room: "length (channel w) < CHANNEL_CAPACITY"
    and seq: "fc_sent_seq fc + 1 < 2 ^ 64"
  obtains r fc' w' where "send_enqueue (length (req_data rq)) rq (fc, w) = (r, (fc', w'))"
    "client_ok fc' w'" "sent rq r fc fc' w w'"
proof -
  let ?n = "length (req_data rq)"
  let ?fc = "fc\<lparr>fc_sent_seq := fc_sent_seq fc + 1\<rparr>"
  obtain t w1 where now: "instant_now w = (Inr t, w1)" and fr: "frame w1 = frame w" and ino: "inode w1 = inode w"
    by (metis instant_now_step)
  let ?sr = "\<lparr> seq = fc_sent_seq fc + 1, queued_at = t, req = rq \<rparr>"
  have wk: "worker w1 = worker w" "channel w1 = channel w" using fr by (simp_all add: frame_def)
  have res1: "client_inv ?n fc w1" using res frame_client_inv [OF fr] by simp
  have fc': "u64_add (fc_sent_seq fc) (Suc 0) = Suc (fc_sent_seq fc)" using seq by (simp add: offset_simps)
  show thesis
  proof (cases "worker w")
    case None
    let ?w' = "snd (on_queued_bytes (release ?n) w1)"
    have "send_enqueue ?n rq (fc, w) = (Inl (Err Other), (?fc, ?w'))"
      using None now wk room by (simp add: send_enqueue_def fc' io_bind_app channel_send_def Let_def)
    moreover have "client_ok ?fc ?w'"
      using res1 None wk
      by (simp add: client_inv_def on_queued_bytes_def on_state_def release_def offset_simps)
    moreover have "sent rq (Inl (Err Other)) fc ?fc w ?w'"
      using None ino wk by (simp add: sent_def on_queued_bytes_def on_state_def)
    ultimately show ?thesis by (rule that)
  next
    case (Some k)
    let ?w' = "w1\<lparr>channel := channel w1 @ [?sr]\<rparr>"
    have "send_enqueue ?n rq (fc, w) = (Inr (), (?fc, ?w'))"
      using Some now wk room by (simp add: send_enqueue_def fc' io_bind_app channel_send_def Let_def)
    moreover have "client_ok ?fc ?w'"
      using res1 Some wk top_seq_mem [of _ "channel w" "done_seq (wstate w1)"]
        top_seq_ge [of "done_seq (wstate w1)" "channel w"]
      by (auto simp: client_inv_def sorted_wrt_append less_Suc_eq_le)
    moreover have "sent rq (Inr ()) fc ?fc w ?w'"
      using Some ino wk by (simp add: sent_def)
    ultimately show ?thesis by (rule that)
  qed
qed

lemma acquire_wait_channel:
  assumes "acquire_wait n w = (Inr (), w')" and "client_ok fc w"
  shows "channel w' = channel w \<or> channel w' = []"
  using assms client_ok_run(2) [OF assms(2)]
  by (auto simp: acquire_wait_def Let_def split: option.splits)

lemma req_data_reserved: "(case rq of Write x \<Rightarrow> length (wr_data x) | _ \<Rightarrow> 0) = length (req_data rq)"
  by (simp add: req_data_def split: worker_request.splits)

lemma send_cases:
  assumes "client_ok fc w" and "fc_tx fc" and "length (channel w) < CHANNEL_CAPACITY"
    and "used_bytes w + length (req_data rq) < 2 ^ 64" and "fc_sent_seq fc + 1 < 2 ^ 64"
  obtains r fc' w1 w' where "send rq (fc, w) = (r, (fc', w'))" "client_ok fc' w'" "sent rq r fc fc' w1 w'"
    "acquire_wait (length (req_data rq)) w = (Inr (), w1)" "channel w1 = channel w \<or> channel w1 = []"
proof -
  obtain w1 where w1: "acquire_wait (length (req_data rq)) w = (Inr (), w1)"
    "client_inv (length (req_data rq)) fc w1"
    by (rule acquire_wait_reserved [OF assms(1,4)])
  have ch: "channel w1 = channel w \<or> channel w1 = []" by (rule acquire_wait_channel [OF w1(1) assms(1)])
  then have "length (channel w1) < CHANNEL_CAPACITY" using assms(3) by (auto simp: CHANNEL_CAPACITY_def)
  from send_enqueue_ok [OF w1(2) this assms(5)] obtain r fc' w' where
    s: "send_enqueue (length (req_data rq)) rq (fc, w1) = (r, (fc', w'))" "client_ok fc' w'" "sent rq r fc fc' w1 w'" .
  have "send rq (fc, w) = (r, (fc', w'))"
    using assms(2) w1(1) s(1) by (simp add: send_def req_data_reserved)
  from that [OF this s(2,3) w1(1) ch] show thesis .
qed

section \<open>Properties\<close>

text \<open>The start: the worker of a new log with its first file.\<close>

lemma client_ok_demo: "client_ok flush_client_new (demo_world [])"
  by (simp add: client_inv_def worker_state_new_def queued_bytes_new_def done_seq_def flush_client_new_def)

text \<open>
  C20. Sending keeps the accounting right and does not block for ever: with space in the channel,
  \<open>send\<close> returns; it returns \<open>Ok\<close> exactly when it appended the request, with the next sequence number,
  behind the requests that are still queued; an error (the worker has stopped) leaves no bytes
  reserved; and the budget is the size of the queued writes again.
\<close>

theorem send_keeps_accounts:
  assumes "client_ok fc w" and "fc_tx fc" and "length (channel w) < CHANNEL_CAPACITY"
    and "used_bytes w + length (req_data rq) < 2 ^ 64" and "fc_sent_seq fc + 1 < 2 ^ 64"
  shows "\<exists>r fc' w'. send rq (fc, w) = (r, (fc', w')) \<and> client_ok fc' w' \<and>
    fc_sent_seq fc' = fc_sent_seq fc + 1 \<and> used_bytes w' = queue_bytes (channel w') \<and>
    (r = Inl (Err Other) \<and> worker w' = None \<and> used_bytes w' = 0 \<or>
     r = Inr () \<and> (\<exists>q t. (q = channel w \<or> q = []) \<and>
       channel w' = q @ [\<lparr> seq = fc_sent_seq fc + 1, queued_at = t, req = rq \<rparr>]))"
proof -
  obtain r fc' w1 w' where s: "send rq (fc, w) = (r, (fc', w'))" "client_ok fc' w'" "sent rq r fc fc' w1 w'"
    "acquire_wait (length (req_data rq)) w = (Inr (), w1)" "channel w1 = channel w \<or> channel w1 = []"
    by (rule send_cases [OF assms])
  have used: "used_bytes w' = queue_bytes (channel w')" using s(2) by (simp add: client_inv_def)
  have "worker w' = None \<and> used_bytes w' = 0" if "worker w1 = None"
  proof -
    have "worker w' = None" using that s(3) by (simp add: sent_def)
    then show ?thesis using s(2) by (simp add: client_inv_def)
  qed
  then show ?thesis
    using s used by (intro exI [of _ r] exI [of _ fc'] exI [of _ w']) (auto simp: sent_def split: if_splits)
qed

theorem send_keeps_accounts_witness:
  "\<exists>r fc' w'. send (RemoveChunks []) (flush_client_new, demo_world []) = (r, (fc', w')) \<and> client_ok fc' w'"
proof -
  have "used_bytes (demo_world []) + length (req_data (RemoveChunks [])) < 2 ^ 64" "fc_tx flush_client_new"
    "length (channel (demo_world [])) < CHANNEL_CAPACITY" "fc_sent_seq flush_client_new + 1 < 2 ^ 64"
    by (simp_all add: worker_state_new_def queued_bytes_new_def req_data_def flush_client_new_def
        CHANNEL_CAPACITY_def)
  from send_keeps_accounts [OF client_ok_demo this(2,3) this(1,4)] show ?thesis by blast
qed

text \<open>
  C19. Waiting until the worker is idle always returns: with \<open>Ok\<close> exactly when the worker has
  completed everything sent so far, otherwise with the error that stopped it.
\<close>

theorem wait_idle_returns:
  assumes "client_ok fc w"
  shows "\<exists>r w'. wait_idle (fc, w) = (r, (fc, w')) \<and> client_ok fc w' \<and> (w' = w \<or> w' = run w) \<and>
    (if fc_sent_seq fc \<le> done_seq (wstate w') then r = Inr ()
     else \<exists>e. r = Inl (Err e) \<and> wp_status (progress (wstate w')) = Failed e)"
proof (cases "wait_for (fc_sent_seq fc) (wstate w)")
  case (Some r)
  then show ?thesis
    using assms
    by (auto simp: wait_idle_def wait_for_def status_error_def done_seq_def
        split: if_splits worker_status.splits)
next
  case None
  have ok: "client_ok fc (run w)" and ch: "channel (run w) = []" using client_ok_run [OF assms] by auto
  have "fc_sent_seq fc \<le> done_seq (wstate (run w)) \<or> (\<exists>e. wp_status (progress (wstate (run w))) = Failed e)"
    using ok ch by (auto simp: client_inv_def split: option.splits)
  then show ?thesis
    using None ok
    by (auto simp: wait_idle_def Let_def wait_for_def status_error_def done_seq_def
        split: if_splits worker_status.splits)
qed

theorem wait_idle_returns_witness:
  "\<exists>r w'. wait_idle (flush_client_new, demo_world []) = (r, (flush_client_new, w')) \<and>
    client_ok flush_client_new w'"
  using wait_idle_returns [OF client_ok_demo] by blast



end
