(* ===== verification/File_Lock.thy ===== *)
theory File_Lock
  imports Chunk_Load
begin

text \<open>
  \<open>src/file_lock.rs\<close>: the exclusive lock on the directory of a log. The advisory lock of the
  operating system (\<open>flock\<close> on the file \<open>LOCK\<close>) is the list \<open>held_locks\<close> of the file-system model:
  it survives the truncation of the file and is given back by \<open>unlock\<close>.
\<close>

record wal_lock =
  lock_file_path :: string
  lock_f :: nat

definition LOCK_FILE_NAME :: string where
  "LOCK_FILE_NAME = ''LOCK''"

definition lock_path :: "config \<Rightarrow> string" where
  "lock_path cfg = dir cfg @ ''/'' @ LOCK_FILE_NAME"

definition try_lock_exclusive :: "string \<Rightarrow> ('z fs_scheme, unit) io" where
  "try_lock_exclusive path = syscall (\<lambda>s.
     if path \<in> set (held_locks s) then (Inl (Err WouldBlock), s)
     else (Inr (), s\<lparr>held_locks := path # held_locks s\<rparr>))"

text \<open>Whatever error the lock call gives, the caller sees \<open>WouldBlock\<close>.\<close>

definition wal_lock_new :: "config \<Rightarrow> ('z fs_scheme, wal_lock) io" where
  "wal_lock_new cfg =
     io_bind (open_create_truncate (lock_path cfg)) (\<lambda>f s.
       case try_lock_exclusive (lock_path cfg) s of
         (Inl _, s') \<Rightarrow> (Inl (Err WouldBlock), s')
       | (Inr _, s') \<Rightarrow> (Inr \<lparr> lock_file_path = lock_path cfg, lock_f = f \<rparr>, s'))"

text \<open>Dropping the lock ignores an error of \<open>unlock\<close>; closing the file gives the lock back then.\<close>

definition wal_lock_drop :: "wal_lock \<Rightarrow> 'z fs_scheme \<Rightarrow> 'z fs_scheme" where
  "wal_lock_drop l s = s\<lparr>held_locks := removeAll (lock_file_path l) (held_locks s)\<rparr>"

section \<open>Facts\<close>

lemma held_locks_open_create_truncate:
  "open_create_truncate path s = (r, s') \<Longrightarrow> held_locks s' = held_locks s"
  by (auto simp: open_create_truncate_def syscall_def
      split: list.splits sys_outcome.splits option.splits if_splits)

lemma try_lock_held:
  "path \<in> set (held_locks s) \<Longrightarrow> \<exists>k s'. try_lock_exclusive path s = (Inl (Err k), s')"
  by (auto simp: try_lock_exclusive_def syscall_def split: list.splits sys_outcome.splits)

lemma try_lock_taken:
  assumes "try_lock_exclusive path s = (Inr u, s')"
  shows "path \<notin> set (held_locks s)" and "held_locks s' = path # held_locks s"
  using assms
  by (auto simp: try_lock_exclusive_def syscall_def split: list.splits sys_outcome.splits if_splits)

lemma wal_lock_new_held:
  assumes "lock_path cfg \<in> set (held_locks s)"
  shows "\<exists>k s'. wal_lock_new cfg s = (Inl (Err k), s')"
proof -
  obtain r s1 where open1: "open_create_truncate (lock_path cfg) s = (r, s1)"
    by (cases "open_create_truncate (lock_path cfg) s")
  then have held: "lock_path cfg \<in> set (held_locks s1)"
    using assms held_locks_open_create_truncate by metis
  have "\<exists>k. r = Inl (Err k) \<or> r \<in> range Inr"
    using open1
    by (auto simp: open_create_truncate_def syscall_def
        split: list.splits sys_outcome.splits option.splits if_splits)
  then show ?thesis
    using try_lock_held [OF held] open1 by (auto simp: wal_lock_new_def io_bind_app)
qed

lemma wal_lock_new_ok:
  assumes "wal_lock_new cfg s = (Inr l, s')"
  shows "lock_path cfg \<notin> set (held_locks s)" and "held_locks s' = lock_path cfg # held_locks s"
    and "lock_file_path l = lock_path cfg"
proof -
  obtain f s1 where open1: "open_create_truncate (lock_path cfg) s = (Inr f, s1)"
    using assms by (auto simp: wal_lock_new_def io_bind_app split: prod.splits sum.splits)
  then have "held_locks s1 = held_locks s" by (rule held_locks_open_create_truncate)
  moreover have "\<exists>u. try_lock_exclusive (lock_path cfg) s1 = (Inr u, s')"
    using assms open1 by (auto simp: wal_lock_new_def io_bind_app split: prod.splits sum.splits)
  ultimately show "lock_path cfg \<notin> set (held_locks s)"
    and "held_locks s' = lock_path cfg # held_locks s"
    using try_lock_taken by metis+
  show "lock_file_path l = lock_path cfg"
    using assms open1 by (auto simp: wal_lock_new_def io_bind_app split: prod.splits sum.splits)
qed

section \<open>Properties\<close>

text \<open>
  C39. The directory lock is exclusive: a lock is only handed out while nobody holds it; as long
  as it is not dropped, every further attempt in the same directory is an error, whatever happened
  to other files in between; dropping it makes the lock free again.
\<close>

theorem wal_lock_exclusive:
  assumes "wal_lock_new cfg s = (Inr l, s')"
  shows "lock_path cfg \<notin> set (held_locks s) \<and>
    (\<forall>t :: 'z fs_scheme. set (held_locks s') \<subseteq> set (held_locks t) \<longrightarrow>
        (\<exists>k t'. wal_lock_new cfg t = (Inl (Err k), t'))) \<and>
    lock_path cfg \<notin> set (held_locks (wal_lock_drop l s'))"
  using wal_lock_new_ok [OF assms] wal_lock_new_held [of cfg]
  by (auto simp: wal_lock_drop_def)

theorem wal_lock_exclusive_witness:
  "\<exists>k t'. wal_lock_new demo_config ((demo_fs [])\<lparr>held_locks := [''d/LOCK'']\<rparr>) = (Inl (Err k), t')"
proof -
  let ?s = "demo_fs []"
  have path: "lock_path demo_config = ''d/LOCK''"
    by (simp add: lock_path_def LOCK_FILE_NAME_def demo_config_def config_new_def)
  have no: "chunk_path demo_config (ChunkId 0) \<noteq> ''d/LOCK''"
    by (simp add: chunk_path_def chunk_file_name_def demo_config_def config_new_def)
  have "\<exists>l s'. wal_lock_new demo_config ?s = (Inr l, s') \<and> held_locks s' = [''d/LOCK'']"
    using no
    by (auto simp: wal_lock_new_def try_lock_exclusive_def open_create_truncate_def parent_exists_def
        path demo_fs_def io_bind_app new_file_def)
  then obtain l s' where "wal_lock_new demo_config ?s = (Inr l, s')" "held_locks s' = [''d/LOCK'']"
    by blast
  with wal_lock_exclusive [of demo_config ?s l s', THEN conjunct2, THEN conjunct1, rule_format,
      of "?s\<lparr>held_locks := [''d/LOCK'']\<rparr>"] show ?thesis by simp
qed

end
