(* ===== verification/Chunked_Wal.thy ===== *)
theory Chunked_Wal
  imports Flush_Client File_Lock
begin

text \<open>
  \<open>src/wal/chunked_wal.rs\<close>: the log itself. Opening a directory (listing the chunk files, discarding
  incomplete successors, replaying the records into the user's state machine), appending, handing data
  to the flush worker, closing a full chunk, reading, dumping, removing chunks and shutting down.

  The state machine of the user (\<open>src/api/state_machine.rs\<close>) is a record of two functions; \<open>apply\<close>
  returns whether it succeeded and the state it leaves. The operations of a log work on the log
  together with the world it shares with its flush worker.
\<close>

section \<open>State\<close>

record ('a, 'c, 'sm) state_machine =
  sm_apply :: "('a, 'c) wal_record \<Rightarrow> chunk_id \<Rightarrow> segment \<Rightarrow> 'sm \<Rightarrow> bool \<times> 'sm"
  sm_checkpoint :: "'sm \<Rightarrow> 'c"

record 'c chunked_wal =
  wal_config :: config
  wal_open :: open_chunk
  wal_closed :: "'c closed_chunks"
  wal_client :: flush_client
  worker_handle :: bool
  wal_dir_lock :: wal_lock

type_synonym ('cb, 'c) wal_state = "'c chunked_wal \<times> ('cb, 'c) world"

definition on_world :: "('w, 'a) io \<Rightarrow> ('s \<times> 'w, 'a) io" where
  "on_world m = (\<lambda>(s, w). case m w of (r, w') \<Rightarrow> (r, (s, w')))"

section \<open>Opening\<close>

definition acquire_lock :: "config \<Rightarrow> (('cb, 'c) world, wal_lock) io" where
  "acquire_lock cfg = wal_lock_new cfg"

definition chunk_ids_of :: "string list \<Rightarrow> chunk_id list" where
  "chunk_ids_of names =
     concat (map (\<lambda>fn_str.
       if fn_str = LOCK_FILE_NAME then []
       else case parse_chunk_file_name fn_str of
              Inr off \<Rightarrow> [ChunkId off]
            | Inl _ \<Rightarrow> []) names)"

definition load_chunk_ids :: "config \<Rightarrow> ('z fs_scheme, chunk_id list) io" where
  "load_chunk_ids cfg =
     io_bind (read_dir (dir cfg)) (\<lambda>names. io_return (sort (chunk_ids_of names)))"

definition has_complete_initial_record ::
    "('a, 'c) wal_types \<Rightarrow> config \<Rightarrow> chunk_id \<Rightarrow> ('z fs_scheme, bool) io" where
  "has_complete_initial_record W cfg cid =
     io_bind (open_chunk_file cfg cid) (\<lambda>f.
     io_bind (load_records_iter f cid) (\<lambda>it.
     case fst (iter_next W it) of
       None \<Rightarrow> io_return False
     | Some (Inr _) \<Rightarrow> io_return True
     | Some (Inl error) \<Rightarrow>
        if error = UnexpectedEof then io_return False
        else io_bind (verify_trailing_zeros f 0) (\<lambda>all_zero.
               if all_zero then io_return False else io_fail (Err error))))"

text \<open>The loop of \<open>remove_incomplete_tail_chunks\<close> on the identifiers from the last one backwards.\<close>

fun remove_tail_loop ::
    "('a, 'c) wal_types \<Rightarrow> config \<Rightarrow> chunk_id list \<Rightarrow> ('z fs_scheme, chunk_id list) io" where
  "remove_tail_loop W cfg [] = io_return []"
| "remove_tail_loop W cfg (cid # rest) =
     io_bind (has_complete_initial_record W cfg cid) (\<lambda>ok.
       if ok then io_return (cid # rest)
       else
         io_bind (remove_file (chunk_path cfg cid)) (\<lambda>_.
         io_bind (sync_dir cfg) (\<lambda>_. remove_tail_loop W cfg rest)))"

definition remove_incomplete_tail_chunks ::
    "('a, 'c) wal_types \<Rightarrow> config \<Rightarrow> chunk_id list \<Rightarrow> ('z fs_scheme, chunk_id list) io" where
  "remove_incomplete_tail_chunks W cfg chunk_ids =
     io_bind (remove_tail_loop W cfg (rev chunk_ids)) (\<lambda>ids. io_return (rev ids))"

definition ensure_consecutive_chunks :: "nat option \<Rightarrow> chunk_id \<Rightarrow> unit res" where
  "ensure_consecutive_chunks prev_end_offset cid =
     (case prev_end_offset of
        None \<Rightarrow> Inr ()
      | Some prev_end \<Rightarrow> if prev_end \<noteq> offset cid then Inl (Err InvalidData) else Inr ())"

text \<open>Applying the records of a chunk, from the index \<open>i\<close> on.\<close>

fun replay_records :: "('a, 'c, 'sm) state_machine \<Rightarrow> chunk \<Rightarrow> chunk_id \<Rightarrow> nat \<Rightarrow>
    ('a, 'c) wal_record list \<Rightarrow> 'sm \<Rightarrow> unit res \<times> 'sm" where
  "replay_records SM ch cid i [] sm = (Inr (), sm)"
| "replay_records SM ch cid i (r # rs) sm =
     (case record_segment ch i of
        Inl e \<Rightarrow> (Inl e, sm)
      | Inr seg \<Rightarrow>
         (case sm_apply SM r cid seg sm of
            (True, sm') \<Rightarrow> replay_records SM ch cid (i + 1) rs sm'
          | (False, sm') \<Rightarrow> (Inl (Err Other), sm')))"

definition on_sm :: "('sm \<Rightarrow> 'a res \<times> 'sm) \<Rightarrow> ('sm \<times> 'w, 'a) io" where
  "on_sm m = (\<lambda>(sm, w). case m sm of (r, sm') \<Rightarrow> (r, (sm', w)))"

text \<open>
  The loop over the chunks, with the closed chunks so far, the end of the previous chunk and the
  checkpoint after it; it returns the closed chunks and the end of the last one.
\<close>

fun open_loop :: "('a, 'c) wal_types \<Rightarrow> config \<Rightarrow> ('a, 'c, 'sm) state_machine \<Rightarrow> chunk_id option \<Rightarrow>
    chunk_id list \<Rightarrow> 'c closed_chunks \<Rightarrow> nat option \<Rightarrow> 'c option \<Rightarrow>
    ('sm \<times> ('cb, 'c) world, 'c closed_chunks \<times> nat option) io" where
  "open_loop W cfg SM tail_id [] closed prev_end prev_ckpt = io_return (closed, prev_end)"
| "open_loop W cfg SM tail_id (cid # ids) closed prev_end prev_ckpt =
     io_bind (io_lift (ensure_consecutive_chunks prev_end cid)) (\<lambda>_.
     io_bind (on_world (open_with_truncate W cfg cid (Some cid = tail_id))) (\<lambda>(ch, records).
     io_bind (on_world (emit (Persisted
         \<lparr> cp_starting_offset = global_start ch, cp_synced_offset = global_end ch \<rparr> prev_ckpt))) (\<lambda>_.
     io_bind (on_sm (replay_records SM ch cid 0 records)) (\<lambda>_.
     io_bind (io_lift (last_segment ch)) (\<lambda>seg (sm, w).
       let checkpoint = sm_checkpoint SM sm
       in open_loop W cfg SM tail_id ids (bt_insert cid (closed_chunk_new ch checkpoint) closed)
            (Some (seg_end seg)) (Some checkpoint) (sm, w))))))"

definition reopen_last_closed :: "'c closed_chunks \<Rightarrow> open_chunk option \<times> 'c closed_chunks" where
  "reopen_last_closed closed =
     (case bt_last_key_value closed of
        None \<Rightarrow> (None, closed)
      | Some (_, lst) \<Rightarrow>
         if is_truncated (cc_chunk lst) then (None, closed)
         else (Some (open_chunk_new (cc_chunk lst)), snd (bt_pop_last closed)))"

text \<open>The log after recovery: a new worker with the file of the open chunk, an empty channel.\<close>

definition wal_new :: "config \<Rightarrow> 'c closed_chunks \<Rightarrow> open_chunk \<Rightarrow> wal_lock \<Rightarrow>
    ('cb, 'c) world \<Rightarrow> ('cb, 'c) wal_state" where
  "wal_new cfg closed op lock w =
     (let prev_checkpoint = map_option (\<lambda>(_, c). cc_state c) (bt_last_key_value closed);
          entry = file_entry_new (global_start (oc_chunk op)) (chunk_file (oc_chunk op)) prev_checkpoint
      in (\<lparr> wal_config = cfg, wal_open = op, wal_closed = closed, wal_client = flush_client_new,
            worker_handle = True, wal_dir_lock = lock \<rparr>,
          w\<lparr>wstate := worker_state_new (flush_queue_max_bytes cfg),
            metrics := atomic_flush_metrics_default, channel := [], tx_alive := True,
            worker := Some \<lparr> files = [entry], wk_config = cfg \<rparr>\<rparr>))"

text \<open>
  The directory lock belongs to the function that holds it and passes it on to the log it returns:
  when it fails or panics instead, the lock is dropped.
\<close>

definition holding_lock :: "wal_lock \<Rightarrow> ('sm \<times> ('cb, 'c) world, 'a) io \<Rightarrow> ('sm \<times> ('cb, 'c) world, 'a) io" where
  "holding_lock lock m = (\<lambda>s.
     case m s of
       (Inl e, (sm, w)) \<Rightarrow> (Inl e, (sm, wal_lock_drop lock w))
     | (Inr a, s') \<Rightarrow> (Inr a, s'))"

definition open_locked :: "('a, 'c) wal_types \<Rightarrow> config \<Rightarrow> ('a, 'c, 'sm) state_machine \<Rightarrow> wal_lock \<Rightarrow>
    ('sm \<times> ('cb, 'c) world, 'c chunked_wal) io" where
  "open_locked W cfg SM lock = holding_lock lock (
     io_bind (io_lift (validate cfg)) (\<lambda>_.
     io_bind (on_world (load_chunk_ids cfg)) (\<lambda>ids.
     io_bind (on_world (remove_incomplete_tail_chunks W cfg ids)) (\<lambda>ids.
     let tail_chunk_id = (if ids = [] then None else Some (last ids)) in
     io_bind (open_loop W cfg SM tail_chunk_id ids [] None None) (\<lambda>(closed, prev_end).
     let (reopened, closed) = reopen_last_closed closed in
     io_bind (case reopened of
                Some op \<Rightarrow> io_return op
              | None \<Rightarrow> (\<lambda>(sm, w). on_world (create_with_initial_record W cfg
                    (ChunkId (case prev_end of None \<Rightarrow> 0 | Some e \<Rightarrow> e))
                    (Checkpoint (sm_checkpoint SM sm))) (sm, w)))
       (\<lambda>op (sm, w). let (wal, w') = wal_new cfg closed op lock w in (Inr wal, (sm, w'))))))))"

definition wal_open_dir :: "('a, 'c) wal_types \<Rightarrow> config \<Rightarrow> ('a, 'c, 'sm) state_machine \<Rightarrow>
    ('sm \<times> ('cb, 'c) world, 'c chunked_wal) io" where
  "wal_open_dir W cfg SM =
     io_bind (on_world (acquire_lock cfg)) (\<lambda>lock. open_locked W cfg SM lock)"

section \<open>Queries\<close>

definition open_chunk_id :: "'c chunked_wal \<Rightarrow> chunk_id" where
  "open_chunk_id wal = get_chunk_id (oc_chunk (wal_open wal))"

definition closed_chunk_stats :: "'c chunked_wal \<Rightarrow> 'c chunk_stat list" where
  "closed_chunk_stats wal = map closed_stat (bt_values (wal_closed wal))"

definition open_chunk_stat :: "'c \<Rightarrow> 'c chunked_wal \<Rightarrow> 'c chunk_stat" where
  "open_chunk_stat checkpoint wal = chunk_stat_of (oc_chunk (wal_open wal)) checkpoint"

definition closed_chunk_reader :: "'c chunked_wal \<Rightarrow> 'c closed_chunks" where
  "closed_chunk_reader wal = wal_closed wal"

definition on_disk_size :: "'c chunked_wal \<Rightarrow> nat" where
  "on_disk_size wal =
     (let fin = global_end (oc_chunk (wal_open wal));
          open_start = global_start (oc_chunk (wal_open wal));
          first_closed_start =
            (case bt_first_key_value (wal_closed wal) of
               None \<Rightarrow> open_start | Some (_, v) \<Rightarrow> global_start (cc_chunk v))
      in u64_sub fin first_closed_start)"

definition last_closed_chunk_truncated_file_size :: "'c chunked_wal \<Rightarrow> nat option" where
  "last_closed_chunk_truncated_file_size wal =
     (case bt_last_key_value (wal_closed wal) of
        None \<Rightarrow> None | Some (_, closed) \<Rightarrow> truncated_file_size (cc_chunk closed))"

definition wal_flush_metrics ::
    "(histogram \<Rightarrow> nat \<times> nat \<times> nat) \<Rightarrow> ('cb, 'c) world \<Rightarrow> flush_metrics" where
  "wal_flush_metrics P w = snapshot P (metrics w)"

definition is_open_chunk_full :: "'c chunked_wal \<Rightarrow> bool" where
  "is_open_chunk_full wal =
     (let ch = oc_chunk (wal_open wal)
      in records_count ch \<ge> chunk_max_records (wal_config wal) \<or>
         chunk_size ch \<ge> chunk_max_size (wal_config wal))"

definition wal_last_segment :: "'c chunked_wal \<Rightarrow> segment res" where
  "wal_last_segment wal = last_segment (oc_chunk (wal_open wal))"

definition load_record :: "('a, 'c) wal_types \<Rightarrow> 'c chunked_wal \<Rightarrow> chunk_id \<Rightarrow> segment \<Rightarrow>
    ('z fs_scheme, ('a, 'c) wal_record) io" where
  "load_record W wal cid seg =
     (case bt_get (wal_closed wal) cid of
        None \<Rightarrow> io_fail (Err NotFound)
      | Some closed \<Rightarrow> read_record W (cc_chunk closed) seg)"

text \<open>The loop of \<open>drain_closed_chunks_while\<close>: drained identifiers and what is left.\<close>

fun drain_loop :: "('c \<Rightarrow> bool) \<Rightarrow> 'c closed_chunks \<Rightarrow> chunk_id list \<times> 'c closed_chunks" where
  "drain_loop should_drain [] = ([], [])"
| "drain_loop should_drain ((cid, closed) # rest) =
     (if \<not> should_drain (cc_state closed) then ([], (cid, closed) # rest)
      else case drain_loop should_drain rest of (ids, left) \<Rightarrow> (cid # ids, left))"

definition drain_closed_chunks_while ::
    "('c \<Rightarrow> bool) \<Rightarrow> 'c chunked_wal \<Rightarrow> chunk_id list \<times> 'c chunked_wal" where
  "drain_closed_chunks_while should_drain wal =
     (case drain_loop should_drain (wal_closed wal) of
        (ids, left) \<Rightarrow> (ids, wal\<lparr>wal_closed := left\<rparr>))"

section \<open>Dumping\<close>

text \<open>
  The user function \<open>D\<close> receives the chunk, the index and the record or error, works on a state of its
  own and may fail.
\<close>

fun dump_items :: "(chunk_id \<Rightarrow> nat \<Rightarrow> 'i \<Rightarrow> 'd \<Rightarrow> unit res \<times> 'd) \<Rightarrow> chunk_id \<Rightarrow> nat \<Rightarrow> 'i list \<Rightarrow>
    'd \<Rightarrow> unit res \<times> 'd" where
  "dump_items D cid i [] d = (Inr (), d)"
| "dump_items D cid i (x # xs) d =
     (case D cid i x d of
        (Inl e, d') \<Rightarrow> (Inl e, d')
      | (Inr _, d') \<Rightarrow> dump_items D cid (i + 1) xs d')"

fun dump_chunks :: "('a, 'c) wal_types \<Rightarrow> config \<Rightarrow>
    (chunk_id \<Rightarrow> nat \<Rightarrow> (error_kind + (segment \<times> ('a, 'c) wal_record)) \<Rightarrow> 'd \<Rightarrow> unit res \<times> 'd) \<Rightarrow>
    chunk_id list \<Rightarrow> ('d \<times> 'z fs_scheme, unit) io" where
  "dump_chunks W cfg D [] = io_return ()"
| "dump_chunks W cfg D (cid # ids) =
     io_bind (on_world (dump W cfg cid)) (\<lambda>items.
     io_bind (on_sm (dump_items D cid 0 items)) (\<lambda>_. dump_chunks W cfg D ids))"

definition dump_records :: "('a, 'c) wal_types \<Rightarrow> config \<Rightarrow>
    (chunk_id \<Rightarrow> nat \<Rightarrow> (error_kind + (segment \<times> ('a, 'c) wal_record)) \<Rightarrow> 'd \<Rightarrow> unit res \<times> 'd) \<Rightarrow>
    ('d \<times> 'z fs_scheme, unit) io" where
  "dump_records W cfg D =
     io_bind (io_lift (validate cfg)) (\<lambda>_.
     io_bind (on_world (load_chunk_ids cfg)) (\<lambda>ids. dump_chunks W cfg D ids))"

definition dump_loaded_records :: "('a, 'c) wal_types \<Rightarrow> 'c chunked_wal \<Rightarrow>
    (chunk_id \<Rightarrow> nat \<Rightarrow> (error_kind + (segment \<times> ('a, 'c) wal_record)) \<Rightarrow> 'd \<Rightarrow> unit res \<times> 'd) \<Rightarrow>
    ('d \<times> 'z fs_scheme, unit) io" where
  "dump_loaded_records W wal D =
     dump_chunks W (wal_config wal) D
       (bt_keys (wal_closed wal) @ [get_chunk_id (oc_chunk (wal_open wal))])"

section \<open>Writing\<close>

definition wal_append :: "('a, 'c) wal_types \<Rightarrow> ('a, 'c) wal_record \<Rightarrow> (('cb, 'c) wal_state, unit) io" where
  "wal_append W r = (\<lambda>(wal, w).
     case append_record W (wal_open wal) r of
       (Inl e, op) \<Rightarrow> (Inl e, (wal\<lparr>wal_open := op\<rparr>, w))
     | (Inr _, op) \<Rightarrow> (Inr (), (wal\<lparr>wal_open := op\<rparr>, w)))"

definition send_request :: "('cb, 'c) worker_request \<Rightarrow> (('cb, 'c) wal_state, unit) io" where
  "send_request rq = (\<lambda>(wal, w).
     case send rq (wal_client wal, w) of (r, (fc, w')) \<Rightarrow> (r, (wal\<lparr>wal_client := fc\<rparr>, w')))"

definition wait_worker_idle :: "(('cb, 'c) wal_state, unit) io" where
  "wait_worker_idle = (\<lambda>(wal, w).
     case wait_idle (wal_client wal, w) of (r, (fc, w')) \<Rightarrow> (r, (wal\<lparr>wal_client := fc\<rparr>, w')))"

definition send_pending :: "bool \<Rightarrow> 'cb option \<Rightarrow> (('cb, 'c) wal_state, unit) io" where
  "send_pending sync callback = (\<lambda>(wal, w).
     let (data, op) = take_pending_data (wal_open wal); wal = wal\<lparr>wal_open := op\<rparr>
     in send_request (Write \<lparr> upto_offset = global_end (oc_chunk (wal_open wal)), wr_data = data,
          wr_sync = sync, wr_callback = callback \<rparr>) (wal, w))"

definition send_remove_chunks :: "chunk_id list \<Rightarrow> (('cb, 'c) wal_state, unit) io" where
  "send_remove_chunks ids = (\<lambda>(wal, w).
     send_request (RemoveChunks (map (chunk_path (wal_config wal)) ids)) (wal, w))"

text \<open>
  \<open>get_stat\<close> waits for the answer on a channel of its own, named by the number of events so far; the
  wait ends when the worker has answered or has dropped the request.
\<close>

definition get_stat :: "(('cb, 'c) wal_state, flush_stat list) io" where
  "get_stat = (\<lambda>(wal, w).
     let tx = length (events w) in
     io_bind (send_request (GetFlushStat tx)) (\<lambda>_ (wal, w).
       let w = run w in
       case List.find (\<lambda>ev. case ev of StatSent n _ \<Rightarrow> n = tx | _ \<Rightarrow> False) (drop tx (events w)) of
         Some (StatSent _ st) \<Rightarrow> (Inr st, (wal, w))
       | _ \<Rightarrow> (Inl (if worker w = None then Err Other else Hang), (wal, w))) (wal, w))"

definition try_close_full_chunk ::
    "('a, 'c) wal_types \<Rightarrow> ('a, 'c, 'sm) state_machine \<Rightarrow> 'sm \<Rightarrow> (('cb, 'c) wal_state, 'c option) io" where
  "try_close_full_chunk W SM sm = (\<lambda>(wal, w).
     if \<not> is_open_chunk_full wal then (Inr None, (wal, w))
     else
       io_bind (send_pending True None) (\<lambda>_ (wal, w).
       io_bind (io_lift (last_segment (oc_chunk (wal_open wal)))) (\<lambda>seg.
       let off = seg_end seg; checkpoint = sm_checkpoint SM sm in
       io_bind (on_world (create_empty (wal_config wal) (ChunkId off))) (\<lambda>new_open.
       io_bind (send_request (AppendFile
           (file_entry_new off (chunk_file (oc_chunk new_open)) (Some checkpoint)))) (\<lambda>_ (wal, w).
       let old_open = wal_open wal in
       io_bind (wal_append W (Checkpoint checkpoint)) (\<lambda>_.
       io_bind (send_pending False None) (\<lambda>_ (wal, w).
       let ch = oc_chunk old_open
       in (Inr (Some checkpoint),
           (wal\<lparr>wal_closed := bt_insert (get_chunk_id ch) (closed_chunk_new ch checkpoint) (wal_closed wal)\<rparr>, w))))
         (wal\<lparr>wal_open := new_open\<rparr>, w)))) (wal, w)) (wal, w))"

text \<open>
  Shutting down: the rest is sent, the sender closed and the thread joined, which lets the worker run
  to its end; the thread catches panics, so the join succeeds.
\<close>

definition shutdown :: "(('cb, 'c) wal_state, unit) io" where
  "shutdown = (\<lambda>(wal, w).
     if \<not> worker_handle wal then (Inr (), (wal, w))
     else
       case send_pending True None (wal\<lparr>worker_handle := False\<rparr>, w) of
         (flush_res, (wal, w)) \<Rightarrow>
           if flush_res = Inl Hang then (Inl Hang, (wal, w))
           else
             let (fc, w) = close (wal_client wal, w);
                 wal = wal\<lparr>wal_client := fc\<rparr>;
                 w = run w
             in case flush_res of
                  Inl e \<Rightarrow> (Inl e, (wal, w))
                | Inr _ \<Rightarrow> wait_worker_idle (wal, w))"

definition wal_drop :: "(('cb, 'c) wal_state, unit) io" where
  "wal_drop = (\<lambda>s.
     case shutdown s of
       (Inl Hang, s') \<Rightarrow> (Inl Hang, s')
     | (_, (wal, w)) \<Rightarrow> (Inr (), (wal, wal_lock_drop (wal_dir_lock wal) w)))"

end
