(* ===== verification/Recovery.thy ===== *)
theory Recovery
  imports Chunked_Wal "HOL-Library.Multiset"
begin

text \<open>
  Correctness of opening a log: on a directory that holds consecutive chunks, whose last file may be
  cut or damaged at its end and which may be followed by successors that were never committed, opening
  replays every record of the log into the state machine, in order and with the right positions.
\<close>

section \<open>What is on the disk\<close>

record ('a, 'c) disk_chunk =
  dc_id :: chunk_id
  dc_file :: nat
  dc_records :: "('a, 'c) wal_record list"

definition dc_end :: "('a, 'c) wal_types \<Rightarrow> ('a, 'c) disk_chunk \<Rightarrow> nat" where
  "dc_end W d = offset (dc_id d) + length (log_bytes W (dc_records d))"

fun consecutive :: "('a, 'c) wal_types \<Rightarrow> ('a, 'c) disk_chunk list \<Rightarrow> bool" where
  "consecutive W (d # e # ds) = (offset (dc_id e) = dc_end W d \<and> consecutive W (e # ds))"
| "consecutive W _ = True"

definition dc_ok :: "('a, 'c) wal_types \<Rightarrow> ('a, 'c) disk_chunk \<Rightarrow> bool" where
  "dc_ok W d = (list_all (encodable W) (dc_records d) \<and> dc_records d \<noteq> [] \<and> dc_end W d < 2 ^ 64)"

text \<open>A chunk file with the given bytes behind its records.\<close>

definition stored :: "('a, 'c) wal_types \<Rightarrow> config \<Rightarrow> 'z fs_scheme \<Rightarrow> byte list \<Rightarrow> ('a, 'c) disk_chunk \<Rightarrow> bool" where
  "stored W cfg s rest d =
     (dc_ok W d \<and> chunk_on_disk cfg (dc_id d) (dc_file d) (log_bytes W (dc_records d) @ rest) s)"

definition dc_loaded :: "('a, 'c) wal_types \<Rightarrow> nat option \<Rightarrow> ('a, 'c) disk_chunk \<Rightarrow> chunk" where
  "dc_loaded W trunc d = loaded W (dc_id d) (dc_file d) (dc_records d) trunc"

section \<open>Replaying\<close>

text \<open>The records of a chunk with their chunk and global segment, as the state machine sees them.\<close>

definition dc_entries :: "('a, 'c) wal_types \<Rightarrow> ('a, 'c) disk_chunk \<Rightarrow>
    (chunk_id \<times> segment \<times> ('a, 'c) wal_record) list" where
  "dc_entries W d = map (\<lambda>(seg, r). (dc_id d, seg, r)) (located W (offset (dc_id d)) (dc_records d))"

definition log_entries :: "('a, 'c) wal_types \<Rightarrow> ('a, 'c) disk_chunk list \<Rightarrow>
    (chunk_id \<times> segment \<times> ('a, 'c) wal_record) list" where
  "log_entries W ds = concat (map (dc_entries W) ds)"

fun apply_log :: "('a, 'c, 'sm) state_machine \<Rightarrow> (chunk_id \<times> segment \<times> ('a, 'c) wal_record) list \<Rightarrow>
    'sm \<Rightarrow> 'sm option" where
  "apply_log SM [] sm = Some sm"
| "apply_log SM ((cid, seg, r) # es) sm =
     (case sm_apply SM r cid seg sm of
        (True, sm') \<Rightarrow> apply_log SM es sm'
      | (False, _) \<Rightarrow> None)"

lemma apply_log_append:
  "apply_log SM (es @ fs) sm = Option.bind (apply_log SM es sm) (apply_log SM fs)"
  by (induction SM es sm rule: apply_log.induct) (auto split: prod.splits bool.splits)

lemma log_entries_simps [simp]:
  "log_entries W [] = []" "log_entries W (d # ds) = dc_entries W d @ log_entries W ds"
  "log_entries W (ds @ es) = log_entries W ds @ log_entries W es"
  by (simp_all add: log_entries_def)

lemma replay_records_suffix:
  assumes "offset cid + length (log_bytes W (pre @ suf)) < 2 ^ 64"
    and "apply_log SM (map (\<lambda>(seg, r). (cid, seg, r))
           (located W (offset cid + length (log_bytes W pre)) suf)) sm = Some sm'"
  shows "replay_records SM (loaded W cid f (pre @ suf) t) cid (length pre) suf sm = (Inr (), sm')"
  using assms
proof (induction suf arbitrary: pre sm)
  case Nil
  then show ?case by simp
next
  case (Cons r suf)
  have seg: "record_segment (loaded W cid f (pre @ r # suf) t) (length pre) =
      Inr (Segment (offset cid + length (log_bytes W pre)) (length (bytes_of W r)))"
    using record_segment_loaded [of "length pre" "pre @ r # suf" cid W f t] Cons.prems(1) by simp
  obtain sm1 where one: "sm_apply SM r cid (Segment (offset cid + length (log_bytes W pre)) (length (bytes_of W r))) sm
      = (True, sm1)"
    using Cons.prems(2) by (auto split: prod.splits bool.splits)
  then have "apply_log SM (map (\<lambda>(seg, r). (cid, seg, r))
      (located W (offset cid + length (log_bytes W (pre @ [r]))) suf)) sm1 = Some sm'"
    using Cons.prems(2) by (simp add: add.assoc)
  from Cons.IH [OF _ this] Cons.prems(1) seg one show ?case by simp
qed

lemma replay_records_loaded:
  assumes "dc_ok W d" and "apply_log SM (dc_entries W d) sm = Some sm'"
  shows "replay_records SM (dc_loaded W t d) (dc_id d) 0 (dc_records d) sm = (Inr (), sm')"
  using replay_records_suffix [of "dc_id d" W "[]" "dc_records d" SM sm sm' "dc_file d" t] assms
  by (simp add: dc_ok_def dc_entries_def dc_end_def dc_loaded_def)

lemma last_segment_loaded:
  assumes "dc_ok W d"
  obtains seg where "last_segment (dc_loaded W t d) = Inr seg" "seg_end seg = dc_end W d"
proof -
  let ?rs = "dc_records d" and ?off = "offset (dc_id d)"
  obtain init r where rs: "?rs = init @ [r]" using assms by (auto simp: dc_ok_def intro: rev_exhaust)
  have cnt: "records_count (dc_loaded W t d) = length ?rs" by (simp add: records_count_def dc_loaded_def loaded_def)
  have "last_segment (dc_loaded W t d) = record_segment (dc_loaded W t d) (length init)"
    using last_segment_record_segment [of "dc_loaded W t d"] cnt rs by simp
  also have "\<dots> = Inr (Segment (?off + length (log_bytes W init)) (length (bytes_of W r)))"
    using record_segment_loaded [of "length init" ?rs "dc_id d" W "dc_file d" t] assms rs
    by (simp add: dc_loaded_def dc_ok_def dc_end_def)
  finally have "last_segment (dc_loaded W t d) = \<dots>" .
  moreover have "seg_end (Segment (?off + length (log_bytes W init)) (length (bytes_of W r))) = dc_end W d"
    using assms rs by (simp add: seg_end_def dc_ok_def dc_end_def offset_simps)
  ultimately show thesis by (rule that)
qed

section \<open>The loop over the chunks\<close>

definition loaded_event :: "('a, 'c) wal_types \<Rightarrow> ('a, 'c) disk_chunk \<Rightarrow> 'c option \<Rightarrow> ('cb, 'c) event" where
  "loaded_event W d ck =
     Persisted \<lparr> cp_starting_offset = offset (dc_id d), cp_synced_offset = dc_end W d \<rparr> ck"

lemma global_loaded [simp]:
  "global_start (dc_loaded W t d) = offset (dc_id d)" "global_end (dc_loaded W t d) = dc_end W d"
  "get_chunk_id (dc_loaded W t d) = dc_id d" "chunk_file (dc_loaded W t d) = dc_file d"
  "is_truncated (dc_loaded W t d) = (t \<noteq> None)"
  by (simp_all add: global_start_def global_end_def get_chunk_id_def is_truncated_def dc_loaded_def
      loaded_def dc_end_def)

lemma open_loop_step:
  assumes "ensure_consecutive_chunks prev (dc_id d) = Inr ()"
    and "open_with_truncate W cfg (dc_id d) (Some (dc_id d) = tail_id) w =
           (Inr (dc_loaded W t d, dc_records d), w1)"
    and "panic_on w1 = (\<lambda>_. False)" and "dc_ok W d" and "apply_log SM (dc_entries W d) sm = Some sm1"
  shows "open_loop W cfg SM tail_id (dc_id d # ids) closed prev ck (sm, w) =
    open_loop W cfg SM tail_id ids
      (bt_insert (dc_id d) (closed_chunk_new (dc_loaded W t d) (sm_checkpoint SM sm1)) closed)
      (Some (dc_end W d)) (Some (sm_checkpoint SM sm1))
      (sm1, w1\<lparr>events := events w1 @ [loaded_event W d ck]\<rparr>)"
proof -
  obtain seg where seg: "last_segment (dc_loaded W t d) = Inr seg" "seg_end seg = dc_end W d"
    by (rule last_segment_loaded [OF assms(4)])
  show ?thesis
    using assms seg replay_records_loaded [OF assms(4,5), of t]
    by (simp add: io_bind_app on_world_def on_sm_def emit_def loaded_event_def Let_def)
qed

text \<open>The closed chunks after the chunks \<open>ds\<close>, each with the checkpoint that follows it.\<close>

fun recovered :: "('a, 'c) wal_types \<Rightarrow> ('a, 'c, 'sm) state_machine \<Rightarrow> ('a, 'c) disk_chunk list \<Rightarrow> 'sm \<Rightarrow>
    'c closed_chunks" where
  "recovered W SM [] sm = []"
| "recovered W SM (d # ds) sm =
     (let sm' = the (apply_log SM (dc_entries W d) sm)
      in (dc_id d, closed_chunk_new (dc_loaded W None d) (sm_checkpoint SM sm')) # recovered W SM ds sm')"

lemma recovered_chunks:
  "map (\<lambda>(k, c). (k, cc_chunk c)) (recovered W SM ds sm) = map (\<lambda>d. (dc_id d, dc_loaded W None d)) ds"
  by (induction W SM ds sm rule: recovered.induct) (auto simp: Let_def closed_chunk_new_def)

lemma recovered_keys: "map fst (recovered W SM ds sm) = map dc_id ds"
  by (induction W SM ds sm rule: recovered.induct) (auto simp: Let_def)

lemma inode_events [simp]: "inode (w\<lparr>events := e\<rparr>) i = inode w i"
  by (simp add: inode_def)

lemma stored_events [simp]: "stored W cfg (w\<lparr>events := e\<rparr>) rest d = stored W cfg w rest d"
  by (simp add: stored_def chunk_on_disk_def)

lemma dc_end_greater:
  assumes "wal_types W" and "dc_ok W d"
  shows "offset (dc_id d) < dc_end W d"
proof -
  obtain r rs where "dc_records d = r # rs" "encodable W r"
    using assms(2) by (cases "dc_records d") (auto simp: dc_ok_def)
  then show ?thesis
    using wal_types.bytes_of_decode(2) [OF assms(1), of r] by (auto simp: dc_end_def)
qed

lemma consecutive_ascending:
  assumes "wal_types W" and "consecutive W (d # ds)" and "list_all (dc_ok W) (d # ds)" and "e \<in> set ds"
  shows "dc_end W d \<le> offset (dc_id e)"
  using assms(2-4)
proof (induction ds arbitrary: d)
  case Nil
  then show ?case by simp
next
  case (Cons f ds)
  then have "dc_end W d = offset (dc_id f)" by simp
  moreover have "offset (dc_id f) < dc_end W f" using dc_end_greater [OF assms(1)] Cons.prems(2) by simp
  ultimately show ?case using Cons.IH [of f] Cons.prems by (cases "e = f") auto
qed

lemma consecutive_sorted:
  assumes "wal_types W" and "consecutive W ds" and "list_all (dc_ok W) ds"
  shows "sorted_wrt (<) (map dc_id ds)"
  using assms(2,3)
proof (induction ds)
  case (Cons d ds)
  have "consecutive W ds" using Cons.prems(1) by (cases ds) auto
  moreover have "dc_id d < dc_id e" if "e \<in> set ds" for e
    using consecutive_ascending [OF assms(1) Cons.prems that] dc_end_greater [OF assms(1), of d] Cons.prems(2)
    by (simp add: less_chunk_id_def)
  ultimately show ?case using Cons by simp
qed simp

text \<open>What precedes a chunk: nothing, or a chunk that ends where it starts.\<close>

definition follows :: "nat option \<Rightarrow> chunk_id \<Rightarrow> bool" where
  "follows prev cid = (prev = None \<or> prev = Some (offset cid))"

lemma ensure_consecutive_follows: "ensure_consecutive_chunks prev cid = Inr () \<longleftrightarrow> follows prev cid"
  by (auto simp: ensure_consecutive_chunks_def follows_def split: option.splits)

lemma open_stored:
  assumes "wal_types W" and "stored W cfg w [] d"
  shows "open_with_truncate W cfg (dc_id d) allow w = (Inr (dc_loaded W None d, dc_records d), w)"
  using wal_types.open_intact [OF assms(1), of cfg "dc_id d" "dc_file d" "dc_records d" w allow] assms(2)
  by (simp add: stored_def dc_ok_def dc_loaded_def)

lemma open_loop_intact:
  fixes w :: "('cb, 'c) world"
  assumes W: "wal_types W" and "list_all (stored W cfg w []) ds" and "consecutive W ds"
    and "ds \<noteq> [] \<Longrightarrow> follows prev (dc_id (hd ds))" and "panic_on w = (\<lambda>_. False)"
    and "apply_log SM (log_entries W ds) sm = Some sm'"
    and "\<forall>k \<in> set (map fst closed). \<forall>d \<in> set ds. k < dc_id d"
  shows "\<exists>evs. open_loop W cfg SM tail_id (map dc_id ds @ ids) closed prev ck (sm, w) =
    open_loop W cfg SM tail_id ids (closed @ recovered W SM ds sm)
      (if ds = [] then prev else Some (dc_end W (last ds)))
      (if ds = [] then ck else Some (sm_checkpoint SM sm'))
      (sm', w\<lparr>events := events w @ evs\<rparr>)"
  using assms(2-7)
proof (induction ds arbitrary: sm closed prev ck w)
  case Nil
  have "w\<lparr>events := events w @ []\<rparr> = w" by simp
  then show ?case using Nil by (intro exI [of _ "[]"]) simp
next
  case (Cons d ds)
  obtain sm1 where sm1: "apply_log SM (dc_entries W d) sm = Some sm1" "apply_log SM (log_entries W ds) sm1 = Some sm'"
    using Cons.prems(5) by (auto simp: apply_log_append bind_eq_Some_conv)
  have st: "stored W cfg w [] d" and ok: "dc_ok W d" and oks: "list_all (dc_ok W) (d # ds)"
    using Cons.prems(1) by (auto simp: stored_def list_all_iff)
  have cons: "consecutive W ds" using Cons.prems(2) by (cases ds) auto
  let ?w1 = "w\<lparr>events := events w @ [loaded_event W d ck]\<rparr>"
  let ?cc = "closed_chunk_new (dc_loaded W None d) (sm_checkpoint SM sm1)"
  have ins: "bt_insert (dc_id d) ?cc closed = closed @ [(dc_id d, ?cc)]"
    using Cons.prems(6) by (intro bt_insert_last) auto
  have step: "open_loop W cfg SM tail_id (dc_id d # map dc_id ds @ ids) closed prev ck (sm, w) =
      open_loop W cfg SM tail_id (map dc_id ds @ ids) (closed @ [(dc_id d, ?cc)]) (Some (dc_end W d))
        (Some (sm_checkpoint SM sm1)) (sm1, ?w1)"
    using open_loop_step [of prev d W cfg tail_id w None w SM sm sm1] open_stored [OF W st] Cons.prems(3,4) ok sm1(1) ins
    by (simp add: ensure_consecutive_follows)
  have less: "dc_id d < dc_id e" if "e \<in> set ds" for e
    using consecutive_ascending [OF W Cons.prems(2) oks that] dc_end_greater [OF W ok]
    by (simp add: less_chunk_id_def)
  have fol: "follows (Some (dc_end W d)) (dc_id (hd ds))" if "ds \<noteq> []"
    using Cons.prems(2) that by (cases ds) (auto simp: follows_def)
  have all: "list_all (stored W cfg ?w1 []) ds" using Cons.prems(1) by (simp add: list_all_iff)
  have "\<exists>evs. open_loop W cfg SM tail_id (map dc_id ds @ ids) (closed @ [(dc_id d, ?cc)]) (Some (dc_end W d))
      (Some (sm_checkpoint SM sm1)) (sm1, ?w1) =
    open_loop W cfg SM tail_id ids ((closed @ [(dc_id d, ?cc)]) @ recovered W SM ds sm1)
      (if ds = [] then Some (dc_end W d) else Some (dc_end W (last ds)))
      (if ds = [] then Some (sm_checkpoint SM sm1) else Some (sm_checkpoint SM sm'))
      (sm', ?w1\<lparr>events := events ?w1 @ evs\<rparr>)"
    using Cons.prems(4,6) less by (intro Cons.IH [OF all cons fol _ sm1(2)]) auto
  then obtain evs where IH: "open_loop W cfg SM tail_id (map dc_id ds @ ids) (closed @ [(dc_id d, ?cc)])
      (Some (dc_end W d)) (Some (sm_checkpoint SM sm1)) (sm1, ?w1) =
    open_loop W cfg SM tail_id ids ((closed @ [(dc_id d, ?cc)]) @ recovered W SM ds sm1)
      (if ds = [] then Some (dc_end W d) else Some (dc_end W (last ds)))
      (if ds = [] then Some (sm_checkpoint SM sm1) else Some (sm_checkpoint SM sm'))
      (sm', ?w1\<lparr>events := events ?w1 @ evs\<rparr>)" by blast
  have ck': "ds = [] \<Longrightarrow> sm1 = sm'" using sm1(2) by auto
  show ?case
    using step IH sm1(1) ck' by (intro exI [of _ "loaded_event W d ck # evs"]) (auto simp: Let_def)
qed

section \<open>Listing and discarding chunk files\<close>

lemma load_chunk_ids_calm:
  assumes "script s = []" and "dir cfg \<in> set (dirs s)" and "sorted ids"
    and "mset (chunk_ids_of (dir_names (dir cfg) s)) = mset ids"
  shows "load_chunk_ids cfg s = (Inr ids, s)"
  using assms properties_for_sort [of ids "chunk_ids_of (dir_names (dir cfg) s)"]
  by (simp add: load_chunk_ids_def read_dir_def io_bind_app)

text \<open>A chunk file in the directory is listed.\<close>

lemma chunk_listed:
  assumes "lookup s (chunk_path cfg cid) = Some f" and "offset cid < 2 ^ 64"
  shows "cid \<in> set (chunk_ids_of (dir_names (dir cfg) s))"
proof -
  have "chunk_file_name cid \<noteq> LOCK_FILE_NAME" by (simp add: chunk_file_name_def LOCK_FILE_NAME_def)
  moreover have "(chunk_path cfg cid, f) \<in> set (entries s)" using assms(1) by (rule map_of_SomeD)
  then have "chunk_file_name cid \<in> set (dir_names (dir cfg) s)"
    using slash_not_in_name [of cid]
    by (auto simp: dir_names_def chunk_path_def intro!: bexI [of _ "(chunk_path cfg cid, f)"])
  ultimately show ?thesis
    using assms(2) by (auto simp: chunk_ids_of_def intro!: bexI [of _ "chunk_file_name cid"])
qed

text \<open>A file without a complete first record: empty, cut, or full of zeros.\<close>

definition blank :: "('a, 'c) wal_types \<Rightarrow> byte list \<Rightarrow> bool" where
  "blank W bs = (bs = [] \<or> (case wal_decode W bs of Inl e \<Rightarrow> torn_tail e bs | Inr _ \<Rightarrow> False))"

lemma iter_next_new:
  "n = length bs \<Longrightarrow> fst (iter_next W (record_iterator_new bs n cid)) =
     (if bs = [] then None
      else case wal_decode W bs of
             Inl e \<Rightarrow> Some (Inl e)
           | Inr (r, n) \<Rightarrow> Some (Inr (Segment 0 (length (take n bs)), r)))"
  by (auto simp: iter_next_def record_iterator_new_def offset_reader_new_def offset_reader_read_def Let_def
      split: sum.splits prod.splits)

lemma has_complete_stored:
  assumes "wal_types W" and "stored W cfg s rest d"
  shows "has_complete_initial_record W cfg (dc_id d) s = (Inr True, s)"
proof -
  obtain r rs where r: "dc_records d = r # rs" "encodable W r"
    using assms(2) by (cases "dc_records d") (auto simp: stored_def dc_ok_def)
  let ?bs = "log_bytes W (dc_records d) @ rest"
  have disk: "chunk_on_disk cfg (dc_id d) (dc_file d) ?bs s" using assms(2) by (simp add: stored_def)
  have "wal_decode W ?bs = Inr (r, length (bytes_of W r))" "?bs \<noteq> []"
    using wal_types.bytes_of_decode [OF assms(1) r(2)] r(1) by (auto simp: append_assoc)
  then show ?thesis
    using disk
    by (simp add: has_complete_initial_record_def chunk_on_disk_def open_chunk_file_calm
        load_records_iter_calm io_bind_app iter_next_new)
qed

lemma has_complete_blank:
  assumes "chunk_on_disk cfg cid f bs s" and "blank W bs"
  shows "has_complete_initial_record W cfg cid s = (Inr False, s)"
proof (cases "bs = []")
  case True
  then show ?thesis
    using assms
    by (simp add: has_complete_initial_record_def chunk_on_disk_def open_chunk_file_calm
        load_records_iter_calm io_bind_app iter_next_new)
next
  case False
  then obtain e where e: "wal_decode W bs = Inl e" "torn_tail e bs"
    using assms(2) by (auto simp: blank_def split: sum.splits)
  have "verify_trailing_zeros f 0 s = (Inr (all_zero bs), s)"
    using verify_trailing_zeros_calm [of s 0 f] assms(1) by (simp add: chunk_on_disk_def)
  then show ?thesis
    using assms(1) False e
    by (auto simp: has_complete_initial_record_def chunk_on_disk_def open_chunk_file_calm
        load_records_iter_calm io_bind_app iter_next_new torn_tail_def)
qed

definition unlink :: "config \<Rightarrow> chunk_id \<Rightarrow> 'z fs_scheme \<Rightarrow> 'z fs_scheme" where
  "unlink cfg cid s =
     (let es = filter (\<lambda>e. fst e \<noteq> chunk_path cfg cid) (entries s)
      in s\<lparr>entries := es, synced_entries := es\<rparr>)"

lemma unlink_frame [simp]:
  "script (unlink cfg cid s) = script s" "dirs (unlink cfg cid s) = dirs s"
  "inode (unlink cfg cid s) i = inode s i" "held_locks (unlink cfg cid s) = held_locks s"
  by (simp_all add: unlink_def Let_def)

lemma remove_and_sync_calm:
  assumes "script s = []" and "dir cfg \<in> set (dirs s)" and "lookup s (chunk_path cfg cid) = Some f"
  shows "remove_file (chunk_path cfg cid) s =
      (Inr (), s\<lparr>entries := filter (\<lambda>e. fst e \<noteq> chunk_path cfg cid) (entries s)\<rparr>)"
    and "sync_dir cfg (s\<lparr>entries := filter (\<lambda>e. fst e \<noteq> chunk_path cfg cid) (entries s)\<rparr>) =
      (Inr (), unlink cfg cid s)"
  using assms by (simp_all add: remove_file_def sync_dir_def io_bind_app unlink_def Let_def)

lemma chunk_on_disk_unlink:
  assumes "chunk_on_disk cfg cid f bs s" and "cid \<noteq> cid'" and "offset cid' < 2 ^ 64"
  shows "chunk_on_disk cfg cid f bs (unlink cfg cid' s)"
  using assms chunk_path_eq_iff [of cid cid' cfg]
  by (auto simp: chunk_on_disk_def unlink_def Let_def)

type_synonym blank_chunk = "chunk_id \<times> nat \<times> byte list"

definition blank_stored :: "('a, 'c) wal_types \<Rightarrow> config \<Rightarrow> 'z fs_scheme \<Rightarrow> blank_chunk \<Rightarrow> bool" where
  "blank_stored W cfg s b = (case b of (cid, f, bs) \<Rightarrow> chunk_on_disk cfg cid f bs s \<and> blank W bs)"

lemma remove_tail_loop_blank:
  assumes "list_all (blank_stored W cfg s) bl" and "distinct (map fst bl)" and "script s = []"
    and "dir cfg \<in> set (dirs s)"
  shows "remove_tail_loop W cfg (map fst bl @ rest) s =
    remove_tail_loop W cfg rest (fold (\<lambda>b. unlink cfg (fst b)) bl s)"
  using assms
proof (induction bl arbitrary: s)
  case Nil
  then show ?case by simp
next
  case (Cons b bl)
  obtain cid f bs where b: "b = (cid, f, bs)" by (cases b)
  have disk: "chunk_on_disk cfg cid f bs s" and bl: "blank W bs"
    using Cons.prems(1) b by (auto simp: blank_stored_def)
  have lk: "lookup s (chunk_path cfg cid) = Some f" and off: "offset cid < 2 ^ 64"
    using disk by (auto simp: chunk_on_disk_def)
  have "blank_stored W cfg (unlink cfg cid s) c" if "c \<in> set bl" for c
  proof -
    obtain cid' f' bs' where c: "c = (cid', f', bs')" by (cases c)
    have "cid' \<noteq> cid" using that Cons.prems(2) b c by force
    moreover have "chunk_on_disk cfg cid' f' bs' s" "blank W bs'"
      using that Cons.prems(1) c by (auto simp: blank_stored_def list_all_iff)
    ultimately show ?thesis using chunk_on_disk_unlink [OF _ _ off] c by (simp add: blank_stored_def)
  qed
  then have "list_all (blank_stored W cfg (unlink cfg cid s)) bl" by (simp add: list_all_iff)
  then have "remove_tail_loop W cfg (map fst bl @ rest) (unlink cfg cid s) =
      remove_tail_loop W cfg rest (fold (\<lambda>b. unlink cfg (fst b)) bl (unlink cfg cid s))"
    using Cons.prems(2-4) by (intro Cons.IH) auto
  then show ?case
    using b has_complete_blank [OF disk bl] remove_and_sync_calm [OF Cons.prems(3,4) lk]
    by (simp add: io_bind_app)
qed

section \<open>A directory as it may be found\<close>

text \<open>
  The directory holds the chunks \<open>ds\<close>, in whatever order the kernel lists them; behind the records of
  the last one are the bytes \<open>rest\<close>; after them there may be successors \<open>bl\<close> without a first record.
\<close>

definition dir_image :: "('a, 'c) wal_types \<Rightarrow> config \<Rightarrow> 'z fs_scheme \<Rightarrow> ('a, 'c) disk_chunk list \<Rightarrow>
    byte list \<Rightarrow> blank_chunk list \<Rightarrow> bool" where
  "dir_image W cfg s ds rest bl =
     (ds \<noteq> [] \<and> list_all (stored W cfg s []) (butlast ds) \<and>
      stored W cfg s rest (last ds) \<and> list_all (blank_stored W cfg s) bl \<and>
      sorted_wrt (<) (map dc_id ds @ map fst bl) \<and>
      mset (chunk_ids_of (dir_names (dir cfg) s)) = mset (map dc_id ds @ map fst bl) \<and>
      dir cfg \<in> set (dirs s) \<and> script s = [])"

definition log_image :: "('a, 'c) wal_types \<Rightarrow> config \<Rightarrow> 'z fs_scheme \<Rightarrow> ('a, 'c) disk_chunk list \<Rightarrow>
    byte list \<Rightarrow> blank_chunk list \<Rightarrow> bool" where
  "log_image W cfg s ds rest bl = (dir_image W cfg s ds rest bl \<and> consecutive W ds)"

lemma log_image_dir: "log_image W cfg s ds rest bl \<Longrightarrow> dir_image W cfg s ds rest bl"
  by (simp add: log_image_def)

text \<open>The directory after the successors were removed.\<close>

definition cleaned :: "config \<Rightarrow> blank_chunk list \<Rightarrow> 'z fs_scheme \<Rightarrow> 'z fs_scheme" where
  "cleaned cfg bl s = fold (\<lambda>b. unlink cfg (fst b)) (rev bl) s"

lemma fold_unlink_frame:
  "script (fold (\<lambda>b. unlink cfg (fst b)) bl s) = script s" "dirs (fold (\<lambda>b. unlink cfg (fst b)) bl s) = dirs s"
  "inode (fold (\<lambda>b. unlink cfg (fst b)) bl s) i = inode s i"
  "fs.more (fold (\<lambda>b. unlink cfg (fst b)) bl s) = fs.more s"
  "held_locks (fold (\<lambda>b. unlink cfg (fst b)) bl s) = held_locks s"
  by (induction bl arbitrary: s) (simp_all add: unlink_def Let_def)

lemma cleaned_frame [simp]:
  "script (cleaned cfg bl s) = script s" "dirs (cleaned cfg bl s) = dirs s"
  "inode (cleaned cfg bl s) i = inode s i" "fs.more (cleaned cfg bl s) = fs.more s"
  "held_locks (cleaned cfg bl s) = held_locks s"
  by (simp_all add: cleaned_def fold_unlink_frame)

lemma cleaned_world [simp]:
  "panic_on (cleaned cfg bl w) = panic_on w" "events (cleaned cfg bl w) = events w"
proof -
  have "fs.more (cleaned cfg bl w) = fs.more w" by simp
  then show "panic_on (cleaned cfg bl w) = panic_on w" "events (cleaned cfg bl w) = events w"
    by (cases w; cases "cleaned cfg bl w"; simp)+
qed

lemma chunk_on_disk_fold_unlink:
  assumes "chunk_on_disk cfg cid f bs s" and "\<forall>b \<in> set bl. fst b \<noteq> cid \<and> offset (fst b) < 2 ^ 64"
  shows "chunk_on_disk cfg cid f bs (fold (\<lambda>b. unlink cfg (fst b)) bl s)"
  using assms
proof (induction bl arbitrary: s)
  case (Cons b bl)
  have "cid \<noteq> fst b" "offset (fst b) < 2 ^ 64" using Cons.prems(2) by auto
  then have "chunk_on_disk cfg cid f bs (unlink cfg (fst b) s)"
    by (rule chunk_on_disk_unlink [OF Cons.prems(1)])
  then show ?case using Cons by simp
qed simp

lemma image_blank_ids:
  assumes "dir_image W cfg s ds rest bl" and "d \<in> set ds" and "b \<in> set bl"
  shows "fst b \<noteq> dc_id d" and "offset (fst b) < 2 ^ 64"
proof -
  have "dc_id d < fst b" using assms by (auto simp: dir_image_def sorted_wrt_append)
  then show "fst b \<noteq> dc_id d" by auto
  obtain cid f bs where b: "b = (cid, f, bs)" by (cases b)
  have "blank_stored W cfg s b" using assms(1,3) by (simp add: dir_image_def list_all_iff)
  then show "offset (fst b) < 2 ^ 64" by (simp add: b blank_stored_def chunk_on_disk_def)
qed

lemma stored_cleaned:
  assumes "dir_image W cfg s ds rest bl" and "d \<in> set ds" and "stored W cfg s tl' d"
  shows "stored W cfg (cleaned cfg bl s) tl' d"
  using assms(3) image_blank_ids [OF assms(1,2)]
  by (auto simp: stored_def cleaned_def intro!: chunk_on_disk_fold_unlink)

lemma image_ids:
  assumes "wal_types W" and "dir_image W cfg s ds rest bl"
  shows "load_chunk_ids cfg s = (Inr (map dc_id ds @ map fst bl), s)"
    and "remove_incomplete_tail_chunks W cfg (map dc_id ds @ map fst bl) s = (Inr (map dc_id ds), cleaned cfg bl s)"
proof -
  note im = assms(2) [unfolded dir_image_def]
  have "sorted (map dc_id ds @ map fst bl)" using im strict_sorted_iff by blast
  then show "load_chunk_ids cfg s = (Inr (map dc_id ds @ map fst bl), s)"
    using im by (intro load_chunk_ids_calm) auto
  have "distinct (map fst bl)"
    using im strict_sorted_iff [of "map dc_id ds @ map fst bl"] by (metis distinct_append)
  then have bl: "distinct (map fst (rev bl))" by (simp flip: rev_map)
  have "remove_tail_loop W cfg (map fst (rev bl) @ rev (map dc_id ds)) s =
      remove_tail_loop W cfg (rev (map dc_id ds)) (cleaned cfg bl s)"
    unfolding cleaned_def using im bl by (intro remove_tail_loop_blank) (auto simp: list_all_iff)
  moreover have "rev (map dc_id ds) = dc_id (last ds) # rev (map dc_id (butlast ds))"
    using im by (cases ds rule: rev_cases) auto
  moreover have "stored W cfg (cleaned cfg bl s) rest (last ds)"
    using im assms(2) by (intro stored_cleaned) auto
  ultimately have "remove_tail_loop W cfg (map fst (rev bl) @ rev (map dc_id ds)) s =
      (Inr (rev (map dc_id ds)), cleaned cfg bl s)"
    using has_complete_stored [OF assms(1), of cfg "cleaned cfg bl s" rest "last ds"] by (simp add: io_bind_app)
  then show "remove_incomplete_tail_chunks W cfg (map dc_id ds @ map fst bl) s =
      (Inr (map dc_id ds), cleaned cfg bl s)"
    by (simp add: remove_incomplete_tail_chunks_def io_bind_app rev_map)
qed

section \<open>Opening the directory\<close>

lemma recovered_append:
  assumes "apply_log SM (log_entries W ds) sm = Some sm1"
  shows "recovered W SM (ds @ es) sm = recovered W SM ds sm @ recovered W SM es sm1"
  using assms
  by (induction W SM ds sm rule: recovered.induct) (auto simp: Let_def apply_log_append bind_eq_Some_conv)

text \<open>
  The loop over the directory, for whatever \<open>open_with_truncate\<close> does to the last chunk: the world
  \<open>u\<close> it leaves, and the length \<open>t\<close> it cut the file from.
\<close>

lemma open_loop_image:
  fixes w :: "('cb, 'c) world" and u :: "('cb, 'c) world"
  assumes W: "wal_types W" and im: "log_image W cfg w ds rest bl" and "panic_on w = (\<lambda>_. False)"
    and log: "apply_log SM (log_entries W ds) sm = Some sm'"
    and tail: "\<And>e. open_with_truncate W cfg (dc_id (last ds)) True ((cleaned cfg bl w)\<lparr>events := e\<rparr>) =
      (Inr (dc_loaded W t (last ds), dc_records (last ds)), u\<lparr>events := e\<rparr>)"
    and upd: "panic_on u = (\<lambda>_. False)"
  shows "\<exists>evs. open_loop W cfg SM (Some (dc_id (last ds))) (map dc_id ds) [] None None (sm, cleaned cfg bl w) =
    (Inr (recovered W SM (butlast ds) sm @
       [(dc_id (last ds), closed_chunk_new (dc_loaded W t (last ds)) (sm_checkpoint SM sm'))],
       Some (dc_end W (last ds))), (sm', u\<lparr>events := events w @ evs\<rparr>))"
proof -
  obtain init d where ds: "ds = init @ [d]" using im by (cases ds rule: rev_cases) (auto simp: log_image_def dir_image_def)
  obtain sm1 where sm1: "apply_log SM (log_entries W init) sm = Some sm1" "apply_log SM (dc_entries W d) sm1 = Some sm'"
    using log by (auto simp: ds apply_log_append bind_eq_Some_conv)
  have cons: "consecutive W (init @ [d])" and ok: "dc_ok W d" and srt: "sorted_wrt (<) (map dc_id (init @ [d]))"
    using im by (auto simp: ds log_image_def dir_image_def stored_def sorted_wrt_append)
  have st: "list_all (stored W cfg (cleaned cfg bl w) []) init"
    using im stored_cleaned [OF log_image_dir [OF im], of _ "[]"] by (auto simp: ds log_image_def dir_image_def list_all_iff)
  have fol: "follows (if init = [] then None else Some (dc_end W (last init))) (dc_id d)"
    using cons by (induction init rule: consecutive.induct) (auto simp: follows_def)
  have "consecutive W init" using cons by (induction init rule: consecutive.induct) auto
  then have "\<exists>evs. open_loop W cfg SM (Some (dc_id d)) (map dc_id init @ [dc_id d]) [] None None (sm, cleaned cfg bl w) =
      open_loop W cfg SM (Some (dc_id d)) [dc_id d] ([] @ recovered W SM init sm)
        (if init = [] then None else Some (dc_end W (last init)))
        (if init = [] then None else Some (sm_checkpoint SM sm1))
        (sm1, (cleaned cfg bl w)\<lparr>events := events (cleaned cfg bl w) @ evs\<rparr>)"
    using assms(3) by (intro open_loop_intact [OF W st _ _ _ sm1(1)]) (auto simp: follows_def)
  then obtain evs where init: "open_loop W cfg SM (Some (dc_id d)) (map dc_id init @ [dc_id d]) [] None None (sm, cleaned cfg bl w) =
      open_loop W cfg SM (Some (dc_id d)) [dc_id d] (recovered W SM init sm)
        (if init = [] then None else Some (dc_end W (last init)))
        (if init = [] then None else Some (sm_checkpoint SM sm1))
        (sm1, (cleaned cfg bl w)\<lparr>events := events w @ evs\<rparr>)" by auto
  have ins: "bt_insert (dc_id d) v (recovered W SM init sm) = recovered W SM init sm @ [(dc_id d, v)]" for v
    using srt recovered_keys [of W SM init sm]
    by (intro bt_insert_last) (auto simp: sorted_wrt_append simp flip: set_map)
  have step: "open_loop W cfg SM (Some (dc_id d)) [dc_id d] (recovered W SM init sm) prev ck
        (sm1, (cleaned cfg bl w)\<lparr>events := events w @ evs\<rparr>) =
      (Inr (recovered W SM init sm @ [(dc_id d, closed_chunk_new (dc_loaded W t d) (sm_checkpoint SM sm'))],
         Some (dc_end W d)), (sm', u\<lparr>events := events w @ evs @ [loaded_event W d ck]\<rparr>))"
    if "follows prev (dc_id d)" for prev ck
    using open_loop_step [of prev d W cfg "Some (dc_id d)" "(cleaned cfg bl w)\<lparr>events := events w @ evs\<rparr>" t
        "u\<lparr>events := events w @ evs\<rparr>" SM sm1 sm' "[]" "recovered W SM init sm" ck] that tail upd ok sm1(2)
    by (simp add: ensure_consecutive_follows ds ins)
  show ?thesis
    unfolding ds using init step [OF fol] by (intro exI) simp
qed

lemma last_recovered:
  assumes "apply_log SM (log_entries W (ds @ [d])) sm = Some sm'"
  shows "recovered W SM (ds @ [d]) sm =
    recovered W SM ds sm @ [(dc_id d, closed_chunk_new (dc_loaded W None d) (sm_checkpoint SM sm'))]"
  using assms recovered_append [of SM W ds sm _ "[d]"]
  by (auto simp: apply_log_append bind_eq_Some_conv Let_def)

lemma open_locked_clean:
  fixes w :: "('cb, 'c) world"
  assumes W: "wal_types W" and im: "log_image W cfg w ds [] bl" and "panic_on w = (\<lambda>_. False)"
    and log: "apply_log SM (log_entries W ds) sm = Some sm'" and "validate cfg = Inr ()"
  shows "\<exists>evs wal w'. open_locked W cfg SM lock (sm, w) = (Inr wal, (sm', w')) \<and>
    (wal, w') = wal_new cfg (recovered W SM (butlast ds) sm) (open_chunk_new (dc_loaded W None (last ds))) lock
      ((cleaned cfg bl w)\<lparr>events := events w @ evs\<rparr>)"
proof -
  have ne: "ds \<noteq> []" and "stored W cfg (cleaned cfg bl w) [] (last ds)"
    using im by (auto simp: log_image_def dir_image_def intro: stored_cleaned [OF log_image_dir [OF im]])
  then have tail: "open_with_truncate W cfg (dc_id (last ds)) True ((cleaned cfg bl w)\<lparr>events := e\<rparr>) =
      (Inr (dc_loaded W None (last ds), dc_records (last ds)), (cleaned cfg bl w)\<lparr>events := e\<rparr>)" for e
    using open_stored [OF W, of cfg "(cleaned cfg bl w)\<lparr>events := e\<rparr>" "last ds" True] by simp
  obtain evs where loop: "open_loop W cfg SM (Some (dc_id (last ds))) (map dc_id ds) [] None None (sm, cleaned cfg bl w) =
    (Inr (recovered W SM (butlast ds) sm @
       [(dc_id (last ds), closed_chunk_new (dc_loaded W None (last ds)) (sm_checkpoint SM sm'))],
       Some (dc_end W (last ds))), (sm', (cleaned cfg bl w)\<lparr>events := events w @ evs\<rparr>))"
    using open_loop_image [OF W im assms(3) log tail] assms(3) by (auto simp del: cleaned_frame)
  show ?thesis
    using loop assms(5) image_ids [OF W log_image_dir [OF im]] ne
    by (intro exI [of _ evs])
       (auto simp: open_locked_def holding_lock_def io_bind_app on_world_def last_map reopen_last_closed_def bt_last_key_value_def
         bt_pop_last_def closed_chunk_new_def Let_def split: prod.splits)
qed

lemma lookup_fold_unlink:
  "lookup (fold (\<lambda>b. unlink cfg (fst b)) bl s) p =
     (if p \<in> (\<lambda>b. chunk_path cfg (fst b)) ` set bl then None else lookup s p)"
  by (induction bl arbitrary: s) (auto simp: unlink_def Let_def)

text \<open>The place behind the last chunk is free once the successors are gone.\<close>

lemma image_end_free:
  assumes W: "wal_types W" and im: "log_image W cfg s ds rest bl" and "dc_end W (last ds) < 2 ^ 64"
  shows "lookup (cleaned cfg bl s) (chunk_path cfg (ChunkId (dc_end W (last ds)))) = None"
proof (cases "ChunkId (dc_end W (last ds)) \<in> set (map fst bl)")
  case True
  then show ?thesis by (force simp: cleaned_def lookup_fold_unlink)
next
  case False
  have oks: "list_all (dc_ok W) ds" and ne: "ds \<noteq> []" and cons: "consecutive W ds"
    using im by (auto simp: log_image_def dir_image_def stored_def list_all_iff)
       (metis Un_iff append_butlast_last_id empty_iff empty_set set_ConsD set_append)
  have "dc_id d \<noteq> ChunkId (dc_end W (last ds))" if "d \<in> set ds" for d
  proof -
    have "dc_id d \<le> dc_id (last ds)"
      using consecutive_sorted [OF W cons oks] that ne
      by (cases ds rule: rev_cases) (auto simp: sorted_wrt_append)
    moreover have "offset (dc_id (last ds)) < dc_end W (last ds)"
      using dc_end_greater [OF W, of "last ds"] oks ne by (simp add: list_all_iff)
    ultimately show ?thesis by (auto simp: less_eq_chunk_id_def)
  qed
  then have "ChunkId (dc_end W (last ds)) \<notin> set (map dc_id ds @ map fst bl)"
    using False by (metis Un_iff imageE set_append set_map)
  moreover have "set (chunk_ids_of (dir_names (dir cfg) s)) = set (map dc_id ds @ map fst bl)"
    using im by (metis log_image_def dir_image_def set_mset_mset)
  ultimately have "lookup s (chunk_path cfg (ChunkId (dc_end W (last ds)))) = None"
    using chunk_listed [of s cfg "ChunkId (dc_end W (last ds))"] assms(3) by fastforce
  then show ?thesis by (auto simp: cleaned_def lookup_fold_unlink)
qed

text \<open>The directory once a torn end was cut off.\<close>

definition cut_tail :: "('a, 'c) wal_types \<Rightarrow> config \<Rightarrow> ('a, 'c) disk_chunk \<Rightarrow> blank_chunk list \<Rightarrow>
    'z fs_scheme \<Rightarrow> 'z fs_scheme" where
  "cut_tail W cfg d bl s = truncated_fs (dc_file d) (log_bytes W (dc_records d)) (cleaned cfg bl s)"

lemma truncated_fs_events:
  "truncated_fs f bs (w\<lparr>events := e\<rparr>) = (truncated_fs f bs w)\<lparr>events := e\<rparr>"
  "panic_on (truncated_fs f bs w) = panic_on w"
  by (cases w; simp add: truncated_fs_def set_inode_def)+

lemma open_locked_torn:
  fixes w :: "('cb, 'c) world"
  assumes W: "wal_types W" and im: "log_image W cfg w ds rest bl" and "panic_on w = (\<lambda>_. False)"
    and log: "apply_log SM (log_entries W ds) sm = Some sm'" and "validate cfg = Inr ()"
    and rest: "rest \<noteq> []" "wal_decode W rest = Inl e" "torn_tail e rest" and cut: "truncate_incomplete_record cfg"
    and ck: "encodable W (Checkpoint (sm_checkpoint SM sm'))"
      "dc_end W (last ds) + length (bytes_of W (Checkpoint (sm_checkpoint SM sm'))) < 2 ^ 64"
  defines "d \<equiv> last ds" and "cid \<equiv> ChunkId (dc_end W (last ds))" and "r \<equiv> Checkpoint (sm_checkpoint SM sm')"
  shows "\<exists>evs wal w'. open_locked W cfg SM lock (sm, w) = (Inr wal, (sm', w')) \<and>
    (wal, w') = wal_new cfg
      (recovered W SM (butlast ds) sm @ [(dc_id d, closed_chunk_new
         (dc_loaded W (Some (length (log_bytes W (dc_records d) @ rest))) d) (sm_checkpoint SM sm'))])
      (open_chunk_new (loaded W cid (next_ino (cut_tail W cfg d bl w)) [r] None)) lock
      (created cfg cid (bytes_of W r) ((cut_tail W cfg d bl w)\<lparr>events := events w @ evs\<rparr>))"
proof -
  have ne: "ds \<noteq> []" and st: "stored W cfg (cleaned cfg bl w) rest d"
    using im by (auto simp: log_image_def dir_image_def d_def intro: stored_cleaned [OF log_image_dir [OF im]])
  let ?n = "length (log_bytes W (dc_records d) @ rest)" and ?w = "cut_tail W cfg d bl w"
  have tail: "open_with_truncate W cfg (dc_id d) True ((cleaned cfg bl w)\<lparr>events := e'\<rparr>) =
      (Inr (dc_loaded W (Some ?n) d, dc_records d), ?w\<lparr>events := e'\<rparr>)" for e'
    using wal_types.open_damaged [OF W _ _ rest(1,2), of cfg "dc_id d" "dc_file d" "dc_records d"
        "(cleaned cfg bl w)\<lparr>events := e'\<rparr>" True] st rest(3) cut
    by (simp add: stored_def dc_ok_def dc_loaded_def cut_tail_def truncated_fs_events chunk_on_disk_def)
  obtain evs where loop: "open_loop W cfg SM (Some (dc_id d)) (map dc_id ds) [] None None (sm, cleaned cfg bl w) =
    (Inr (recovered W SM (butlast ds) sm @
       [(dc_id d, closed_chunk_new (dc_loaded W (Some ?n) d) (sm_checkpoint SM sm'))],
       Some (dc_end W d)), (sm', ?w\<lparr>events := events w @ evs\<rparr>))"
    using open_loop_image [OF W im assms(3) log tail [unfolded d_def]] assms(3)
    by (auto simp: d_def cut_tail_def truncated_fs_events)
  have free: "lookup (?w\<lparr>events := events w @ evs\<rparr>) (chunk_path cfg cid) = None"
    using image_end_free [OF W im] ck(2) by (simp add: cut_tail_def truncated_fs_def cid_def)
  have calm: "script (?w\<lparr>events := events w @ evs\<rparr>) = []" "dir cfg \<in> set (dirs (?w\<lparr>events := events w @ evs\<rparr>))"
    using im by (simp_all add: cut_tail_def truncated_fs_def log_image_def dir_image_def)
  have mk: "create_with_initial_record W cfg cid r (?w\<lparr>events := events w @ evs\<rparr>) =
      (Inr (open_chunk_new (loaded W cid (next_ino ?w) [r] None)),
       created cfg cid (bytes_of W r) (?w\<lparr>events := events w @ evs\<rparr>))"
    using create_with_initial_record_calm [OF W calm(1) free calm(2)] ck by (simp add: r_def cid_def)
  show ?thesis
    using loop mk assms(5) image_ids [OF W log_image_dir [OF im]] ne
    by (intro exI [of _ evs])
       (auto simp: open_locked_def holding_lock_def io_bind_app on_world_def last_map reopen_last_closed_def bt_last_key_value_def
         closed_chunk_new_def Let_def cid_def d_def r_def split: prod.splits)
qed

end
