(* ===== verification/Recovery_Open.thy ===== *)
theory Recovery_Open
  imports Recovery
begin

text \<open>
  What opening a log establishes: the log in memory agrees with the chunks on the disk (\<open>wal_holds\<close>),
  the directory is again the image of a log without damage, so that opening it once more finds the
  same records, and the state machine has seen every record of the log. Directories the code refuses:
  chunks with a gap or an overlap between them, and an empty chunk before the last one (a panic where
  the next chunk is expected).
\<close>

section \<open>The directory listing after a change\<close>

definition entry_ids :: "string \<Rightarrow> string \<times> nat \<Rightarrow> chunk_id list" where
  "entry_ids d e = chunk_ids_of [n. (p, _) \<leftarrow> [e], prefix (d @ ''/'') p,
     n \<leftarrow> [drop (length d + 1) p], CHR ''/'' \<notin> set n]"

lemma chunk_ids_of_append: "chunk_ids_of (a @ b) = chunk_ids_of a @ chunk_ids_of b"
  by (simp add: chunk_ids_of_def)

lemma chunk_ids_entries: "chunk_ids_of (dir_names d s) = concat (map (entry_ids d) (entries s))"
proof -
  have "chunk_ids_of (concat xss) = concat (map chunk_ids_of xss)" for xss
    by (induction xss) (simp_all add: chunk_ids_of_append, simp add: chunk_ids_of_def)
  then show ?thesis by (simp add: dir_names_def entry_ids_def [abs_def] comp_def)
qed

lemma entry_ids_chunk_path:
  assumes "offset cid < 2 ^ 64"
  shows "entry_ids (dir cfg) (chunk_path cfg cid, f) = [cid]"
proof -
  have "chunk_file_name cid \<noteq> LOCK_FILE_NAME" by (simp add: chunk_file_name_def LOCK_FILE_NAME_def)
  then show ?thesis
    using assms slash_not_in_name [of cid] by (simp add: entry_ids_def chunk_path_def chunk_ids_of_def)
qed

lemma concat_filter_unique:
  assumes "\<And>e. fst e = p \<Longrightarrow> g e = [c]" and "distinct (concat (map g es))" and "p \<in> fst ` set es"
  shows "concat (map g (filter (\<lambda>e. fst e \<noteq> p) es)) = filter (\<lambda>x. x \<noteq> c) (concat (map g es))"
  using assms(2,3)
proof (induction es)
  case (Cons e es)
  have notin: "c \<notin> set (concat (map g es)) \<Longrightarrow> filter (\<lambda>e. fst e \<noteq> p) es = es"
    using assms(1) by (fastforce simp: filter_id_conv)
  show ?case
  proof (cases "fst e = p")
    case True
    then have "c \<notin> set (concat (map g es))" using Cons.prems(1) assms(1) by auto
    moreover from this have "filter (\<lambda>x. x \<noteq> c) (concat (map g es)) = concat (map g es)"
      by (intro filter_True) auto
    ultimately show ?thesis using True notin assms(1) by simp
  next
    case False
    then obtain e' where "e' \<in> set es" "fst e' = p" using Cons.prems(2) by auto
    then have "c \<in> set (concat (map g es))" using assms(1) [of e'] by (auto intro!: bexI [of _ e'])
    then have "c \<notin> set (g e)" using Cons.prems(1) by auto
    then have "filter (\<lambda>x. x \<noteq> c) (g e) = g e" by (auto simp: filter_id_conv)
    with False Cons show ?thesis by auto
  qed
qed simp

lemma listing_unlink:
  assumes "lookup s (chunk_path cfg cid) = Some f" and "offset cid < 2 ^ 64"
    and "distinct (chunk_ids_of (dir_names (dir cfg) s))"
  shows "chunk_ids_of (dir_names (dir cfg) (unlink cfg cid s)) =
    filter (\<lambda>x. x \<noteq> cid) (chunk_ids_of (dir_names (dir cfg) s))"
proof -
  have "(chunk_path cfg cid, f) \<in> set (entries s)" using assms(1) by (rule map_of_SomeD)
  then have mem: "chunk_path cfg cid \<in> fst ` set (entries s)" by force
  have ids: "entry_ids (dir cfg) e = [cid]" if "fst e = chunk_path cfg cid" for e
    using entry_ids_chunk_path [OF assms(2), of cfg "snd e"] that by (cases e) simp
  show ?thesis
    using concat_filter_unique [OF ids _ mem] assms(3)
    by (simp add: chunk_ids_entries unlink_def Let_def)
qed

lemma listing_fold_unlink:
  assumes "list_all (blank_stored W cfg s) bl" and "distinct (map fst bl)"
    and "distinct (chunk_ids_of (dir_names (dir cfg) s))"
  shows "chunk_ids_of (dir_names (dir cfg) (fold (\<lambda>b. unlink cfg (fst b)) bl s)) =
    filter (\<lambda>x. x \<notin> fst ` set bl) (chunk_ids_of (dir_names (dir cfg) s))"
  using assms
proof (induction bl arbitrary: s)
  case (Cons b bl)
  obtain cid f bs where b: "b = (cid, f, bs)" by (cases b)
  have disk: "lookup s (chunk_path cfg cid) = Some f" "offset cid < 2 ^ 64"
    using Cons.prems(1) b by (auto simp: blank_stored_def chunk_on_disk_def)
  note one = listing_unlink [OF disk Cons.prems(3)]
  have "list_all (blank_stored W cfg (unlink cfg cid s)) bl"
    using Cons.prems(1,2) b chunk_on_disk_unlink [OF _ _ disk(2)]
    by (fastforce simp: list_all_iff blank_stored_def)
  then have "chunk_ids_of (dir_names (dir cfg) (fold (\<lambda>b. unlink cfg (fst b)) bl (unlink cfg cid s))) =
      filter (\<lambda>x. x \<notin> fst ` set bl) (chunk_ids_of (dir_names (dir cfg) (unlink cfg cid s)))"
    using Cons.prems(2,3) one by (intro Cons.IH) auto
  then show ?case using one b by (simp add: conj_commute)
qed simp

lemma listing_cleaned:
  assumes "dir_image W cfg s ds rest bl"
  shows "mset (chunk_ids_of (dir_names (dir cfg) (cleaned cfg bl s))) = mset (map dc_id ds)"
proof -
  note im = assms [unfolded dir_image_def]
  let ?ids = "map dc_id ds @ map fst bl"
  have dist: "distinct ?ids" using im strict_sorted_iff by blast
  then have "distinct (chunk_ids_of (dir_names (dir cfg) s))"
    using im by (metis mset_eq_imp_distinct_iff)
  moreover have "distinct (map fst (rev bl))" using dist by (simp flip: rev_map)
  ultimately have "chunk_ids_of (dir_names (dir cfg) (cleaned cfg bl s)) =
      filter (\<lambda>x. x \<notin> fst ` set (rev bl)) (chunk_ids_of (dir_names (dir cfg) s))"
    unfolding cleaned_def using im by (intro listing_fold_unlink) (auto simp: list_all_iff)
  then have "mset (chunk_ids_of (dir_names (dir cfg) (cleaned cfg bl s))) =
      mset (filter (\<lambda>x. x \<notin> fst ` set bl) ?ids)"
    using im by (simp only: mset_filter set_rev)
  moreover have "filter (\<lambda>x. x \<notin> fst ` set bl) ?ids = map dc_id ds"
    using dist by (auto simp: filter_id_conv filter_empty_conv)
  ultimately show ?thesis by (simp only:)
qed

lemma listing_world [simp]: "dir_names d (w\<lparr>events := e\<rparr>) = dir_names d w"
  by (simp add: dir_names_def)

section \<open>The log in memory\<close>

definition closed_match :: "('a, 'c) wal_types \<Rightarrow> chunk_id \<times> 'c closed_chunk \<Rightarrow> ('a, 'c) disk_chunk \<Rightarrow> bool" where
  "closed_match W e d =
     (fst e = dc_id d \<and> (cc_chunk (snd e))\<lparr>truncated := None\<rparr> = dc_loaded W None d)"

text \<open>
  The log holds the chunks \<open>ds\<close>, the last of them open; of the open chunk the bytes \<open>out\<close> have left
  its buffer.
\<close>

definition wal_holds :: "('a, 'c) wal_types \<Rightarrow> 'c chunked_wal \<Rightarrow> ('a, 'c) disk_chunk list \<Rightarrow> byte list \<Rightarrow> bool" where
  "wal_holds W wal ds out =
     (ds \<noteq> [] \<and> consecutive W ds \<and> list_all (dc_ok W) ds \<and>
      list_all2 (closed_match W) (wal_closed wal) (butlast ds) \<and>
      chunk_file (oc_chunk (wal_open wal)) = dc_file (last ds) \<and>
      open_holds W (offset (dc_id (last ds))) (dc_records (last ds)) out (wal_open wal))"

lemma closed_match_loaded: "closed_match W (dc_id d, closed_chunk_new (dc_loaded W t d) ck) d"
  by (simp add: closed_match_def closed_chunk_new_def dc_loaded_def loaded_def)

lemma recovered_match: "list_all2 (closed_match W) (recovered W SM ds sm) ds"
  by (induction W SM ds sm rule: recovered.induct) (auto simp: Let_def closed_match_loaded)

lemma open_holds_loaded:
  assumes "dc_ok W d"
  shows "open_holds W (offset (dc_id d)) (dc_records d) (log_bytes W (dc_records d))
    (open_chunk_new (dc_loaded W None d))"
  using assms by (simp add: open_holds_def dc_ok_def dc_end_def open_chunk_new_def dc_loaded_def loaded_def)

lemma list_all_last: "ds \<noteq> [] \<Longrightarrow> list_all P ds \<longleftrightarrow> list_all P (butlast ds) \<and> P (last ds)"
  by (cases ds rule: rev_cases) auto

lemma image_ok: "dir_image W cfg s ds rest bl \<Longrightarrow> list_all (dc_ok W) ds"
  using list_all_last [of ds "dc_ok W"] by (auto simp: dir_image_def stored_def list_all_iff)

section \<open>Stability of the directory\<close>

text \<open>What is said of the directory depends on the file system only.\<close>

lemma dir_image_cong:
  assumes "inodes w' = inodes w" and "entries w' = entries w" and "dirs w' = dirs w" and "script w' = script w"
  shows "dir_image W cfg w' ds rest bl = dir_image W cfg w ds rest bl"
proof -
  have "chunk_on_disk cfg cid f bs w' = chunk_on_disk cfg cid f bs w" for cid f bs
    using assms by (simp add: chunk_on_disk_def inode_def)
  then have "stored W cfg w' = stored W cfg w" "blank_stored W cfg w' = blank_stored W cfg w"
    by (auto simp: fun_eq_iff stored_def blank_stored_def)
  then show ?thesis using assms by (simp add: dir_image_def dir_names_def)
qed

lemma cleaned_image:
  assumes "dir_image W cfg s ds rest bl"
  shows "dir_image W cfg (cleaned cfg bl s) ds rest []"
proof -
  have "sorted_wrt (<) (map dc_id ds)" using assms by (simp add: dir_image_def sorted_wrt_append)
  then show ?thesis
    using assms listing_cleaned [OF assms] stored_cleaned [OF assms]
    by (auto simp: dir_image_def list_all_iff dest: in_set_butlastD)
qed

lemma stored_truncated:
  assumes "stored W cfg s tl' d" and "f \<noteq> dc_file d"
  shows "stored W cfg (truncated_fs f bs s) tl' d"
  using assms by (simp add: stored_def chunk_on_disk_def truncated_fs_def)

lemma cut_image:
  assumes "dir_image W cfg s ds rest []" and "wf_fs s"
  shows "dir_image W cfg (truncated_fs (dc_file (last ds)) (log_bytes W (dc_records (last ds))) s) ds [] []"
proof -
  note im = assms(1) [unfolded dir_image_def]
  have "dc_file (last ds) \<noteq> dc_file d" if d: "d \<in> set (butlast ds)" for d
  proof
    assume same: "dc_file (last ds) = dc_file d"
    have disk: "chunk_on_disk cfg (dc_id d) (dc_file d) (log_bytes W (dc_records d)) s"
      "chunk_on_disk cfg (dc_id (last ds)) (dc_file (last ds)) (log_bytes W (dc_records (last ds)) @ rest) s"
      using im d by (auto simp: stored_def list_all_iff)
    then have "chunk_path cfg (dc_id d) = chunk_path cfg (dc_id (last ds))"
      using same wf_fs_lookup_inject [OF assms(2)] by (simp add: chunk_on_disk_def)
    then have "dc_id d = dc_id (last ds)"
      using disk chunk_path_eq_iff [of "dc_id d" "dc_id (last ds)" cfg] by (auto simp: chunk_on_disk_def)
    moreover have "dc_id d < dc_id (last ds)"
      using im d by (cases ds rule: rev_cases) (auto simp: sorted_wrt_append)
    ultimately show False by simp
  qed
  then have "list_all (stored W cfg (truncated_fs (dc_file (last ds)) (log_bytes W (dc_records (last ds))) s) [])
      (butlast ds)"
    using im by (auto simp: list_all_iff intro: stored_truncated)
  moreover have "stored W cfg (truncated_fs (dc_file (last ds)) (log_bytes W (dc_records (last ds))) s) [] (last ds)"
    using im by (simp add: stored_def chunk_on_disk_def truncated_fs_def)
  ultimately show ?thesis using im by (simp add: dir_image_def truncated_fs_def dir_names_def)
qed

lemma stored_created:
  assumes "stored W cfg s tl' d" and "dc_file d \<noteq> next_ino s" and "lookup s (chunk_path cfg cid) = None"
  shows "stored W cfg (created cfg cid bs s) tl' d"
  using assms by (auto simp: stored_def chunk_on_disk_def created_def append_content_def map_add_def)

lemma created_image:
  assumes W: "wal_types W" and im: "dir_image W cfg s ds [] []" and wf: "wf_fs s"
    and cons: "consecutive W (ds @ [n])" and n: "dc_ok W n" "dc_file n = next_ino s"
    and free: "lookup s (chunk_path cfg (dc_id n)) = None"
  shows "dir_image W cfg (created cfg (dc_id n) (log_bytes W (dc_records n)) s) (ds @ [n]) [] []"
proof -
  note dim = im [unfolded dir_image_def]
  let ?s = "created cfg (dc_id n) (log_bytes W (dc_records n)) s"
  have off: "offset (dc_id n) < 2 ^ 64" using n(1) by (simp add: dc_ok_def dc_end_def)
  have old: "stored W cfg s [] d" if "d \<in> set ds" for d
    using dim that list_all_last [of ds "stored W cfg s []"] by (auto simp: list_all_iff)
  have "list_all (stored W cfg ?s []) ds"
    unfolding list_all_iff
  proof
    fix d assume d: "d \<in> set ds"
    then have "dc_file d < next_ino s"
      using old wf_fs_lookup_bound [OF wf] by (auto simp: stored_def chunk_on_disk_def)
    then show "stored W cfg ?s [] d" using old [OF d] free by (intro stored_created) auto
  qed
  moreover have "stored W cfg ?s [] n"
    using n dim free by (auto simp: stored_def chunk_on_disk_def created_def append_content_def map_add_def
        dc_ok_def dc_end_def)
  moreover have "sorted_wrt (<) (map dc_id (ds @ [n]))"
    using consecutive_sorted [OF W cons] image_ok [OF im] n(1) by simp
  moreover have "chunk_ids_of (dir_names (dir cfg) ?s) = chunk_ids_of (dir_names (dir cfg) s) @ [dc_id n]"
    using entry_ids_chunk_path [OF off] by (simp add: chunk_ids_entries created_def)
  ultimately show ?thesis using dim by (simp add: dir_image_def created_def)
qed

lemma wf_fs_unlink: "wf_fs s \<Longrightarrow> wf_fs (unlink cfg cid s)"
  by (auto simp: wf_fs_def unlink_def Let_def distinct_map_filter)

lemma wf_fs_cleaned: "wf_fs s \<Longrightarrow> wf_fs (cleaned cfg bl s)"
proof -
  have "wf_fs s \<Longrightarrow> wf_fs (fold (\<lambda>b. unlink cfg (fst b)) cs s)" for cs
    by (induction cs arbitrary: s) (auto simp: wf_fs_unlink)
  then show "wf_fs s \<Longrightarrow> wf_fs (cleaned cfg bl s)" by (simp add: cleaned_def)
qed

lemma wf_fs_truncated [simp]: "wf_fs (truncated_fs f bs s) = wf_fs s"
  by (simp add: wf_fs_def truncated_fs_def)

section \<open>A directory for the witnesses\<close>

definition vote_chunk :: "nat \<Rightarrow> nat \<Rightarrow> (byte list, byte list) disk_chunk" where
  "vote_chunk off f = \<lparr> dc_id = ChunkId off, dc_file = f, dc_records = [demo_vote] \<rparr>"

text \<open>Two chunks and an empty successor, listed backwards; the second ends with the bytes \<open>rest\<close>.\<close>

definition demo_dir :: "byte list \<Rightarrow> fs" where
  "demo_dir rest =
     \<lparr> inodes = (\<lambda>i. map_option (\<lambda>b. \<lparr>content = b, synced = b\<rparr>)
         (map_of [(0, bytes_of test_wal demo_vote), (1, bytes_of test_wal demo_vote @ rest), (2, [])] i)),
       next_ino = 3,
       entries = [(chunk_path demo_config (ChunkId 24), 2), (chunk_path demo_config (ChunkId 12), 1),
         (chunk_path demo_config (ChunkId 0), 0)],
       synced_entries = [], dirs = [''d''], held_locks = [], script = [] \<rparr>"

definition demo_disk :: "byte list \<Rightarrow> (nat, byte list) world" where
  "demo_disk rest = fs.extend (demo_dir rest)
     (world.fields 0 [] [] True (worker_state_new 100) atomic_flush_metrics_default [] (\<lambda>_. False) None)"

definition demo_sm :: "(byte list, byte list, (byte list, byte list) wal_record list) state_machine" where
  "demo_sm = \<lparr> sm_apply = (\<lambda>r cid seg st. (True, st @ [r])), sm_checkpoint = (\<lambda>_. [115, 116, 97, 116, 101]) \<rparr>"

lemma demo_disk_sel [simp]:
  "script (demo_disk rest) = []" "dirs (demo_disk rest) = [''d'']" "panic_on (demo_disk rest) = (\<lambda>_. False)"
  "content_of (demo_disk rest) 0 = bytes_of test_wal demo_vote"
  "content_of (demo_disk rest) 1 = bytes_of test_wal demo_vote @ rest" "content_of (demo_disk rest) 2 = []"
  "content_of (demo_disk rest) (Suc 0) = bytes_of test_wal demo_vote @ rest"
  "entries (demo_disk rest) = entries (demo_dir [])" "next_ino (demo_disk rest) = 3"
  by (simp_all add: demo_disk_def demo_dir_def fs.defs world.defs inode_def)

lemma demo_config_dir: "dir demo_config = ''d''" "validate demo_config = Inr ()"
  by (simp_all add: demo_config_def config_new_def validate_def reject_zero_def res_bind_def
      read_buffer_size_def unwrap_or_def DEFAULT_READ_BUFFER_SIZE_def MAX_READ_BUFFER_SIZE_def)

lemma vote_chunk_ok: "off < 1000 \<Longrightarrow> dc_ok test_wal (vote_chunk off f)" "dc_end test_wal (vote_chunk off f) = off + 12"
  by (simp_all add: dc_ok_def dc_end_def vote_chunk_def encodable_vote bytes_of_vote)

lemma demo_lookup:
  "lookup (demo_disk rest) (chunk_path demo_config (ChunkId 0)) = Some 0"
  "lookup (demo_disk rest) (chunk_path demo_config (ChunkId 12)) = Some 1"
  "lookup (demo_disk rest) (chunk_path demo_config (ChunkId 24)) = Some 2"
  by (simp_all add: demo_dir_def chunk_path_eq_iff)

lemma demo_image:
  assumes "length rest < 1000"
  shows "log_image test_wal demo_config (demo_disk rest) [vote_chunk 0 0, vote_chunk 12 1] rest
    [(ChunkId 24, 2, [])]"
proof -
  have "chunk_ids_of (dir_names (dir demo_config) (demo_disk rest)) = [ChunkId 24, ChunkId 12, ChunkId 0]"
    by (simp add: chunk_ids_entries demo_dir_def entry_ids_chunk_path)
  then show ?thesis
    using assms vote_chunk_ok [of 0 0] vote_chunk_ok [of 12 1] demo_lookup
    by (simp add: log_image_def dir_image_def stored_def chunk_on_disk_def blank_stored_def blank_def
        vote_chunk_def less_chunk_id_def bytes_of_vote demo_config_dir)
qed

lemma demo_replay:
  "apply_log demo_sm (log_entries test_wal [vote_chunk 0 0, vote_chunk 12 1]) [] = Some [demo_vote, demo_vote]"
  by (simp add: dc_entries_def vote_chunk_def demo_sm_def)

section \<open>Properties\<close>

lemma cleaned_next_ino: "next_ino (cleaned cfg bl s) = next_ino s"
proof -
  have "next_ino (fold (\<lambda>b. unlink cfg (fst b)) cs s) = next_ino s" for cs
    by (induction cs arbitrary: s) (simp_all add: unlink_def Let_def)
  then show ?thesis by (simp add: cleaned_def)
qed

lemma consecutive_snoc:
  "consecutive W ds \<Longrightarrow> (ds \<noteq> [] \<Longrightarrow> offset (dc_id n) = dc_end W (last ds)) \<Longrightarrow> consecutive W (ds @ [n])"
  by (induction ds rule: consecutive.induct) auto

lemma consecutive_prefix: "consecutive W (a @ b) \<Longrightarrow> consecutive W a"
  by (induction a rule: consecutive.induct) auto

definition demo_lock :: wal_lock where
  "demo_lock = \<lparr> lock_file_path = ''d/LOCK'', lock_f = 9 \<rparr>"

text \<open>A chunk at 24 where 12 is expected; an empty chunk before one with a record.\<close>

definition gap_disk :: "(nat, byte list) world" where
  "gap_disk = (demo_disk [])\<lparr>entries :=
     [(chunk_path demo_config (ChunkId 24), 1), (chunk_path demo_config (ChunkId 0), 0)]\<rparr>"

definition hole_disk :: "(nat, byte list) world" where
  "hole_disk = (demo_disk [])\<lparr>entries := [(chunk_path demo_config (ChunkId 24), 1),
     (chunk_path demo_config (ChunkId 12), 2), (chunk_path demo_config (ChunkId 0), 0)]\<rparr>"

lemma open_locked_fails:
  fixes w w' :: "('cb, 'c) world"
  assumes "validate cfg = Inr ()" and "load_chunk_ids cfg w = (Inr ids, w)"
    and "remove_incomplete_tail_chunks W cfg ids w = (Inr ids', w1)"
    and "open_loop W cfg SM (if ids' = [] then None else Some (last ids')) ids' [] None None (sm, w1) = (Inl e, (sm', w'))"
  shows "open_locked W cfg SM lock (sm, w) = (Inl e, (sm', wal_lock_drop lock w'))"
  using assms by (simp add: open_locked_def holding_lock_def io_bind_app on_world_def Let_def)

lemma wal_new_fs:
  assumes "(wal, w') = wal_new cfg closed op lock w"
  shows "wal_closed wal = closed" "wal_open wal = op" "inodes w' = inodes w" "entries w' = entries w"
    "dirs w' = dirs w" "script w' = script w" "wal_config wal = cfg" "wal_dir_lock wal = lock"
    "held_locks w' = held_locks w"
  using assms by (simp_all add: wal_new_def Let_def)

lemma open_clean_holds:
  fixes w :: "('cb, 'c) world"
  assumes "wal_types W" and "log_image W cfg w ds [] bl" and "panic_on w = (\<lambda>_. False)"
    and "validate cfg = Inr ()" and "apply_log SM (log_entries W ds) sm = Some sm'"
  shows "\<exists>wal w'. open_locked W cfg SM lock (sm, w) = (Inr wal, (sm', w')) \<and>
    wal_holds W wal ds (log_bytes W (dc_records (last ds))) \<and> log_image W cfg w' ds [] [] \<and>
    (\<forall>i. inode w' i = inode w i)"
proof -
  obtain evs wal w' where op: "open_locked W cfg SM lock (sm, w) = (Inr wal, (sm', w'))"
    and new: "(wal, w') = wal_new cfg (recovered W SM (butlast ds) sm)
      (open_chunk_new (dc_loaded W None (last ds))) lock ((cleaned cfg bl w)\<lparr>events := events w @ evs\<rparr>)"
    using open_locked_clean [OF assms(1-3,5,4)] by metis
  note new = wal_new_fs [OF new] and im = log_image_dir [OF assms(2)]
  have cons: "consecutive W ds" and ne: "ds \<noteq> []" using assms(2) by (auto simp: log_image_def dir_image_def)
  have "dc_ok W (last ds)" using image_ok [OF im] ne by (simp add: list_all_iff)
  then have holds: "wal_holds W wal ds (log_bytes W (dc_records (last ds)))"
    using new(1,2) cons ne image_ok [OF im] recovered_match open_holds_loaded
    by (auto simp: wal_holds_def open_chunk_new_def)
  have "dir_image W cfg w' ds [] []"
    using dir_image_cong [of w' "cleaned cfg bl w" W cfg ds "[]" "[]"] new(3-6) cleaned_image [OF im] by simp
  moreover have "inode w' i = inode w i" for i
    using new(3) inode_def [of w' i] inode_def [of "cleaned cfg bl w" i] by (simp flip: inode_def)
  ultimately show ?thesis using op holds cons by (auto simp: log_image_def)
qed

text \<open>
  C4. Opening a log whose files are whole. The directory may list its files in any order and may hold
  successors without a first record after the last chunk. Opening succeeds; the state machine has
  applied every record of every chunk, in the order of the log and with its chunk and position; the
  log in memory holds exactly these chunks, the last one open; no file was changed, only the
  incomplete successors are gone, so that opening again finds the same log.
\<close>

theorem open_replays_log:
  fixes w :: "('cb, 'c) world"
  assumes "wal_types W" and "log_image W cfg w ds [] bl" and "panic_on w = (\<lambda>_. False)"
    and "validate cfg = Inr ()" and "apply_log SM (log_entries W ds) sm = Some sm'"
  shows "\<exists>wal w'. open_locked W cfg SM lock (sm, w) = (Inr wal, (sm', w')) \<and>
    wal_holds W wal ds (log_bytes W (dc_records (last ds))) \<and> log_image W cfg w' ds [] [] \<and>
    (\<forall>i. inode w' i = inode w i)"
  using open_clean_holds [OF assms] .

theorem open_replays_log_witness:
  "\<exists>wal w'. open_locked test_wal demo_config demo_sm demo_lock ([], demo_disk []) =
     (Inr wal, ([demo_vote, demo_vote], w')) \<and>
   wal_holds test_wal wal [vote_chunk 0 0, vote_chunk 12 1] (bytes_of test_wal demo_vote)"
  using open_replays_log [OF test_wal_ok demo_image [of "[]"] _ _ demo_replay, of demo_lock]
  by (auto simp: demo_config_dir vote_chunk_def)

text \<open>The directory after a torn end was cut off and the next chunk was created.\<close>

lemma torn_image:
  fixes w :: "('cb, 'c) world" and evs :: "('cb, 'c) event list"
  assumes W: "wal_types W" and im: "log_image W cfg w ds rest bl" and wf: "wf_fs w"
    and n: "dc_ok W n" "dc_id n = ChunkId (dc_end W (last ds))" "dc_file n = next_ino w"
  defines "u \<equiv> cut_tail W cfg (last ds) bl w"
  defines "v \<equiv> created cfg (dc_id n) (log_bytes W (dc_records n)) (u\<lparr>events := evs\<rparr>)"
  shows "dir_image W cfg v (ds @ [n]) [] []" and "consecutive W (ds @ [n])" and "next_ino u = next_ino w"
    and "d \<in> set ds \<Longrightarrow> dc_file d < next_ino w"
    and "synced_of v (dc_file (last ds)) = log_bytes W (dc_records (last ds))"
    and "i < next_ino w \<Longrightarrow> i \<noteq> dc_file (last ds) \<Longrightarrow> inode v i = inode w i"
    and "wf_fs v" and "synced_entries v = entries v" and "synced_of v (dc_file n) = []"
proof -
  note dim = log_image_dir [OF im]
  have cons: "consecutive W ds" and ne: "ds \<noteq> []" using im by (auto simp: log_image_def dir_image_def)
  show ino: "next_ino u = next_ino w" by (simp add: u_def cut_tail_def truncated_fs_def cleaned_next_ino)
  show cons': "consecutive W (ds @ [n])" using consecutive_snoc [OF cons] n(2) by simp
  have "offset (dc_id n) < 2 ^ 64" using n(1) by (simp add: dc_ok_def dc_end_def)
  then have free: "lookup u (chunk_path cfg (dc_id n)) = None"
    using image_end_free [OF W im] n(2) by (simp add: u_def cut_tail_def truncated_fs_def)
  have cut: "dir_image W cfg u ds [] []" and wfu: "wf_fs u"
    using cut_image [OF cleaned_image [OF dim] wf_fs_cleaned [OF wf]] wf_fs_cleaned [OF wf]
    by (simp_all add: u_def cut_tail_def)
  have wfe: "wf_fs (u\<lparr>events := evs\<rparr>)" using wfu by (simp add: wf_fs_def)
  have "dir_image W cfg (u\<lparr>events := evs\<rparr>) ds [] [] = dir_image W cfg u ds [] []" by (rule dir_image_cong) simp_all
  then show "dir_image W cfg v (ds @ [n]) [] []"
    unfolding v_def using cut n free ino by (intro created_image [OF W _ wfe cons']) simp_all
  show below: "dc_file d < next_ino w" if "d \<in> set ds" for d
  proof -
    have "stored W cfg u [] d" using cut that list_all_last [of ds "stored W cfg u []"] by (auto simp: dir_image_def list_all_iff)
    then show ?thesis
      using wf_fs_lookup_bound [OF wfu, of "chunk_path cfg (dc_id d)"] ino by (simp add: stored_def chunk_on_disk_def)
  qed
  have "dc_file (last ds) < next_ino w" using below ne by simp
  then show "synced_of v (dc_file (last ds)) = log_bytes W (dc_records (last ds))"
    using ino by (simp add: v_def created_def u_def cut_tail_def truncated_fs_def)
  show "inode v i = inode w i" if "i < next_ino w" "i \<noteq> dc_file (last ds)"
    using that ino by (simp add: v_def created_def u_def cut_tail_def truncated_fs_def)
  show "wf_fs v" using wf_fs_new_file [OF wfe, of "chunk_path cfg (dc_id n)"] free
    by (simp add: v_def created_def wf_fs_def append_content_def set_inode_def)
  show "synced_entries v = entries v" by (simp add: v_def created_def append_content_def set_inode_def new_file_def)
  show "synced_of v (dc_file n) = []" using n(3) ino by (simp add: v_def created_def append_content_def)
qed

text \<open>
  C5. Opening a log whose last file was torn: behind its records there are bytes that do not decode,
  because the file ends too early or because they are zeros. When the configuration allows it, opening
  succeeds with the same state as for the whole log: the file is cut to its records and synchronised,
  its chunk is closed, and a new chunk that starts at its end and holds a checkpoint of the recovered
  state is created and open. The directory afterwards is the image of that log, without damage.
\<close>

theorem open_repairs_torn_tail:
  fixes w :: "('cb, 'c) world"
  assumes "wal_types W" and "log_image W cfg w ds rest bl" and "panic_on w = (\<lambda>_. False)"
    and "validate cfg = Inr ()" and "apply_log SM (log_entries W ds) sm = Some sm'" and "wf_fs w"
    and "rest \<noteq> []" and "wal_decode W rest = Inl e" and "e = UnexpectedEof \<or> all_zero rest"
    and "truncate_incomplete_record cfg" and "encodable W (Checkpoint (sm_checkpoint SM sm'))"
    and "dc_end W (last ds) + length (bytes_of W (Checkpoint (sm_checkpoint SM sm'))) < 2 ^ 64"
  shows "\<exists>wal w' n. open_locked W cfg SM lock (sm, w) = (Inr wal, (sm', w')) \<and>
    n = \<lparr> dc_id = ChunkId (dc_end W (last ds)), dc_file = next_ino w,
          dc_records = [Checkpoint (sm_checkpoint SM sm')] \<rparr> \<and>
    wal_holds W wal (ds @ [n]) (log_bytes W (dc_records n)) \<and> log_image W cfg w' (ds @ [n]) [] [] \<and>
    synced_of w' (dc_file (last ds)) = log_bytes W (dc_records (last ds))"
proof -
  let ?r = "Checkpoint (sm_checkpoint SM sm')" and ?d = "last ds" and ?cid = "ChunkId (dc_end W (last ds))"
  let ?n = "\<lparr> dc_id = ?cid, dc_file = next_ino w, dc_records = [?r] \<rparr>" and ?u = "cut_tail W cfg (last ds) bl w"
  have torn: "torn_tail e rest" using assms(9) by (simp add: torn_tail_def)
  obtain evs wal w' where op: "open_locked W cfg SM lock (sm, w) = (Inr wal, (sm', w'))"
    and new: "(wal, w') = wal_new cfg
      (recovered W SM (butlast ds) sm @ [(dc_id ?d, closed_chunk_new
         (dc_loaded W (Some (length (log_bytes W (dc_records ?d) @ rest))) ?d) (sm_checkpoint SM sm'))])
      (open_chunk_new (loaded W ?cid (next_ino ?u) [?r] None)) lock
      (created cfg ?cid (bytes_of W ?r) (?u\<lparr>events := events w @ evs\<rparr>))"
    using open_locked_torn [OF assms(1-3,5,4,7,8) torn assms(10-12), of lock] by metis
  note new = wal_new_fs [OF new] and im = log_image_dir [OF assms(2)]
  have ne: "ds \<noteq> []" using assms(2) by (auto simp: log_image_def dir_image_def)
  have n: "dc_ok W ?n" using assms(11,12) by (simp add: dc_ok_def dc_end_def)
  note t = torn_image [OF assms(1,2,6) n, simplified]
  have "list_all2 (closed_match W) (wal_closed wal) (butlast ds @ [?d])"
    using new(1) by (simp add: list_all2_appendI recovered_match closed_match_loaded)
  then have holds: "wal_holds W wal (ds @ [?n]) (log_bytes W (dc_records ?n))"
    using new(2) t(2,3) ne image_ok [OF im] n open_holds_loaded [OF n]
    by (simp add: wal_holds_def open_chunk_new_def dc_loaded_def loaded_def)
  let ?v = "created cfg ?cid (bytes_of W ?r) (?u\<lparr>events := events w @ evs\<rparr>)"
  have "dir_image W cfg w' (ds @ [?n]) [] []"
    using dir_image_cong [of w' ?v W cfg "ds @ [?n]" "[]" "[]"] new(3-6) t(1) by simp
  moreover have "synced_of w' (dc_file ?d) = log_bytes W (dc_records ?d)"
    using t(5) [of "events w @ evs"] new(3) by (simp add: inode_def)
  ultimately show ?thesis using op holds t(2) by (auto simp: log_image_def)
qed

theorem open_repairs_torn_tail_witness:
  "\<exists>wal w'. open_locked test_wal demo_config demo_sm demo_lock ([], demo_disk [0, 0, 0]) =
     (Inr wal, ([demo_vote, demo_vote], w')) \<and> synced_of w' 1 = bytes_of test_wal demo_vote"
proof -
  have dec: "wal_decode test_wal [0, 0, 0] = Inl UnexpectedEof"
    by (simp add: wal_decode_def test_wal_defs)
  have ck: "encodable test_wal (Checkpoint (sm_checkpoint demo_sm [demo_vote, demo_vote]))"
    "length (bytes_of test_wal (Checkpoint (sm_checkpoint demo_sm [demo_vote, demo_vote]))) = 21"
    by (simp_all add: demo_sm_def encodable_def bytes_of_def test_vector_checkpoint del: wal_encode.simps)
  have wf: "wf_fs (demo_disk [0, 0, 0])"
    by (simp add: wf_fs_def) (simp add: demo_dir_def chunk_path_eq_iff)
  show ?thesis
    using open_repairs_torn_tail [OF test_wal_ok demo_image [of "[0, 0, 0]"] _ _ demo_replay wf _ dec _ demo_truncates
        ck(1), of demo_lock] ck(2) vote_chunk_ok(2) [of 12 1]
    by (auto simp: demo_config_dir vote_chunk_def)
qed

text \<open>
  C22. A log with a gap or an overlap is refused: when a chunk does not start where the one before it
  ends, opening fails with \<open>InvalidData\<close>, after the records before it were applied.
\<close>

theorem open_refuses_gap:
  fixes w :: "('cb, 'c) world"
  assumes "wal_types W" and "dir_image W cfg w (ds @ e # es) rest bl" and "consecutive W ds" and "ds \<noteq> []"
    and "offset (dc_id e) \<noteq> dc_end W (last ds)" and "panic_on w = (\<lambda>_. False)" and "validate cfg = Inr ()"
    and "apply_log SM (log_entries W ds) sm = Some sm'"
  shows "\<exists>w'. open_locked W cfg SM lock (sm, w) = (Inl (Err InvalidData), (sm', w'))"
proof -
  let ?w = "cleaned cfg bl w" and ?ids = "map dc_id (ds @ e # es)"
  have "stored W cfg w [] d" if "d \<in> set ds" for d
    using assms(2) that by (auto simp: dir_image_def list_all_iff butlast_append)
  then have st: "list_all (stored W cfg ?w []) ds"
    using stored_cleaned [OF assms(2)] by (simp add: list_all_iff)
  have loop: "\<exists>evs. open_loop W cfg SM tail_id (map dc_id ds @ dc_id e # map dc_id es) [] None None (sm, ?w) =
      open_loop W cfg SM tail_id (dc_id e # map dc_id es) ([] @ recovered W SM ds sm)
        (if ds = [] then None else Some (dc_end W (last ds)))
        (if ds = [] then None else Some (sm_checkpoint SM sm'))
        (sm', ?w\<lparr>events := events ?w @ evs\<rparr>)" for tail_id
    using assms(6) by (intro open_loop_intact [OF assms(1) st assms(3) _ _ assms(8)]) (auto simp: follows_def)
  obtain w' where "open_loop W cfg SM (if ?ids = [] then None else Some (last ?ids)) ?ids [] None None (sm, ?w) =
      (Inl (Err InvalidData), (sm', w'))"
    using loop [of "if ?ids = [] then None else Some (last ?ids)"] assms(4,5)
    by (auto simp: io_bind_app ensure_consecutive_chunks_def)
  then show ?thesis by (intro exI) (rule open_locked_fails [OF assms(7) image_ids [OF assms(1,2)]])
qed

theorem open_refuses_gap_witness:
  "\<exists>w'. open_locked test_wal demo_config demo_sm demo_lock ([], gap_disk) =
     (Inl (Err InvalidData), ([demo_vote], w'))"
proof -
  have "chunk_ids_of (dir_names (dir demo_config) gap_disk) = [ChunkId 24, ChunkId 0]"
    by (simp add: gap_disk_def chunk_ids_entries demo_dir_def entry_ids_chunk_path)
  then have im: "dir_image test_wal demo_config gap_disk ([vote_chunk 0 0] @ [vote_chunk 24 1]) [] []"
    using vote_chunk_ok [of 0 0] vote_chunk_ok [of 24 1]
    by (simp add: gap_disk_def dir_image_def stored_def chunk_on_disk_def chunk_path_eq_iff
        vote_chunk_def less_chunk_id_def bytes_of_vote demo_config_dir)
  have "apply_log demo_sm (log_entries test_wal [vote_chunk 0 0]) [] = Some [demo_vote]"
    by (simp add: dc_entries_def vote_chunk_def demo_sm_def)
  then show ?thesis
    using open_refuses_gap [OF test_wal_ok im, of demo_sm "[]" "[demo_vote]" demo_lock] vote_chunk_ok(2) [of 0 0]
    by (simp add: gap_disk_def demo_config_dir) (simp add: vote_chunk_def)
qed

text \<open>
  Opening a directory whose first chunks \<open>ds\<close> are whole and follow each other, and that fails at the
  chunk behind them: the files are left as they are.
\<close>

lemma open_fails_after:
  fixes w :: "('cb, 'c) world"
  assumes W: "wal_types W" and st: "list_all (stored W cfg w []) ds" and cons: "consecutive W ds"
    and l: "stored W cfg w rest l" and srt: "sorted_wrt (<) (map dc_id ds @ cid # ids @ [dc_id l])"
    and dir: "dir cfg \<in> set (dirs w)"
    and names: "mset (chunk_ids_of (dir_names (dir cfg) w)) = mset (map dc_id ds @ cid # ids @ [dc_id l])"
    and pn: "panic_on w = (\<lambda>_. False)" and val: "validate cfg = Inr ()"
    and replay: "apply_log SM (log_entries W ds) sm = Some sm'"
    and fails: "\<And>tail_id closed ck evs. \<exists>evs'. open_loop W cfg SM tail_id (cid # ids @ [dc_id l]) closed
      (if ds = [] then None else Some (dc_end W (last ds))) ck (sm', w\<lparr>events := evs\<rparr>) =
      (Inl e, (sm', w\<lparr>events := evs'\<rparr>))"
  shows "\<exists>w'. open_locked W cfg SM lock (sm, w) = (Inl e, (sm', w')) \<and> inodes w' = inodes w \<and> entries w' = entries w"
proof -
  let ?ids = "map dc_id ds @ cid # ids @ [dc_id l]"
  have sc: "script w = []" using l by (simp add: stored_def chunk_on_disk_def)
  have "sorted ?ids" using srt strict_sorted_iff by blast
  then have ids: "load_chunk_ids cfg w = (Inr ?ids, w)" by (rule load_chunk_ids_calm [OF sc dir _ names])
  have "remove_tail_loop W cfg (rev ?ids) w = (Inr (rev ?ids), w)"
    using has_complete_stored [OF W l] by (simp add: io_bind_app)
  then have rm: "remove_incomplete_tail_chunks W cfg ?ids w = (Inr ?ids, w)"
    by (simp add: remove_incomplete_tail_chunks_def io_bind_app)
  have "\<exists>evs. open_loop W cfg SM tail_id ?ids [] None None (sm, w) =
      open_loop W cfg SM tail_id (cid # ids @ [dc_id l]) ([] @ recovered W SM ds sm)
        (if ds = [] then None else Some (dc_end W (last ds)))
        (if ds = [] then None else Some (sm_checkpoint SM sm')) (sm', w\<lparr>events := events w @ evs\<rparr>)" for tail_id
    using pn by (intro open_loop_intact [OF W st cons _ _ replay]) (auto simp: follows_def)
  then obtain evs where "open_loop W cfg SM (if ?ids = [] then None else Some (last ?ids)) ?ids [] None None (sm, w) =
      (Inl e, (sm', w\<lparr>events := evs\<rparr>))"
    using fails by metis
  from open_locked_fails [OF val ids rm this] show ?thesis by (auto simp: wal_lock_drop_def)
qed

text \<open>An empty chunk file behind the chunks \<open>ds\<close>, when the loop reaches it.\<close>

lemma open_loop_empty:
  fixes w :: "('cb, 'c) world"
  assumes W: "wal_types W" and disk: "chunk_on_disk cfg cid f [] w" and pn: "panic_on w = (\<lambda>_. False)"
  shows "\<exists>evs'. open_loop W cfg SM tail_id (cid # ids) closed prev ck (sm, w\<lparr>events := evs\<rparr>) =
    (Inl (if follows prev cid then Panic else Err InvalidData), (sm, w\<lparr>events := evs'\<rparr>))"
proof (cases "follows prev cid")
  case True
  then have next_ok: "ensure_consecutive_chunks prev cid = Inr ()" by (simp add: ensure_consecutive_follows)
  let ?w = "w\<lparr>events := evs\<rparr>"
  have "chunk_on_disk cfg cid f [] ?w" using disk by (simp add: chunk_on_disk_def)
  then have op: "open_with_truncate W cfg cid b ?w = (Inr (loaded W cid f [] None, []), ?w)" for b
    using wal_types.open_intact [OF W, of cfg cid f "[]" ?w b] by simp
  have "last_segment (loaded W cid f [] None) = Inl Panic"
    by (simp add: last_segment_def loaded_def)
  then show ?thesis
    using op next_ok pn True
    by (intro exI) (simp add: io_bind_app on_world_def on_sm_def emit_def)
next
  case False
  then have "ensure_consecutive_chunks prev cid = Inl (Err InvalidData)"
    by (auto simp: ensure_consecutive_chunks_def follows_def split: option.splits)
  then show ?thesis using False by (intro exI [of _ evs]) (simp add: io_bind_app)
qed

text \<open>
  C30. An empty chunk file that is not the last one. The chunks \<open>ds\<close> before it are whole and follow each
  other (there may be none), any files come behind it, and the last of them has a complete first record
  (otherwise it would be removed as an incomplete successor). Opening applies the records of \<open>ds\<close> and
  then, when the empty file stands where the next chunk is expected, panics, because the empty chunk is
  asked for its last segment; when it stands anywhere else, the result is \<open>InvalidData\<close>. The files are
  left as they are, so that every later opening ends in the same way.
\<close>

theorem open_empty_chunk_panics:
  fixes w :: "('cb, 'c) world"
  assumes "wal_types W" and "list_all (stored W cfg w []) ds" and "consecutive W ds"
    and "chunk_on_disk cfg cid f [] w" and "stored W cfg w rest l"
    and "sorted_wrt (<) (map dc_id ds @ cid # ids @ [dc_id l])" and "dir cfg \<in> set (dirs w)"
    and "mset (chunk_ids_of (dir_names (dir cfg) w)) = mset (map dc_id ds @ cid # ids @ [dc_id l])"
    and "panic_on w = (\<lambda>_. False)" and "validate cfg = Inr ()"
    and "apply_log SM (log_entries W ds) sm = Some sm'"
  shows "\<exists>w'. open_locked W cfg SM lock (sm, w) =
      (Inl (if ds = [] \<or> offset cid = dc_end W (last ds) then Panic else Err InvalidData), (sm', w')) \<and>
    inodes w' = inodes w \<and> entries w' = entries w"
proof -
  let ?prev = "if ds = [] then None else Some (dc_end W (last ds))"
  have "(ds = [] \<or> offset cid = dc_end W (last ds)) = follows ?prev cid" by (auto simp: follows_def)
  then show ?thesis
    using open_loop_empty [OF assms(1,4,9), where prev = ?prev]
    by (simp only:) (rule open_fails_after [OF assms(1-3,5-11)])
qed

theorem open_empty_chunk_panics_witness:
  "\<exists>w'. open_locked test_wal demo_config demo_sm demo_lock ([], hole_disk) = (Inl Panic, ([demo_vote], w'))"
proof -
  have names: "chunk_ids_of (dir_names (dir demo_config) hole_disk) = [ChunkId 24, ChunkId 12, ChunkId 0]"
    by (simp add: hole_disk_def chunk_ids_entries demo_dir_def entry_ids_chunk_path)
  have files: "stored test_wal demo_config hole_disk [] (vote_chunk 0 0)"
    "chunk_on_disk demo_config (ChunkId 12) 2 [] hole_disk"
    "stored test_wal demo_config hole_disk [] (vote_chunk 24 1)"
    using vote_chunk_ok(1) [of 0 0] vote_chunk_ok(1) [of 24 1]
    by (simp_all add: hole_disk_def stored_def chunk_on_disk_def chunk_path_eq_iff demo_dir_def
        vote_chunk_def bytes_of_vote demo_config_dir)
  have replay: "apply_log demo_sm (log_entries test_wal [vote_chunk 0 0]) [] = Some [demo_vote]"
    by (simp add: dc_entries_def vote_chunk_def demo_sm_def)
  show ?thesis
    using open_empty_chunk_panics [OF test_wal_ok _ _ files(2,3) _ _ _ _ _ replay, of "[]" demo_lock] names files(1)
      vote_chunk_ok(2) [of 0 0]
    by (auto simp: hole_disk_def demo_config_dir) (auto simp: vote_chunk_def less_chunk_id_def)
qed

end
