(* ===== verification/Flush_Dir.thy ===== *)
theory Flush_Dir
  imports Flush_Client
begin

text \<open>
  The flush worker changes the directory only when it is asked to remove chunk files: on a channel
  without such requests a run leaves every directory entry as it is, whatever the system calls answer.
\<close>

definition dir_frame where
  "dir_frame (w :: ('cb, 'c) world) = (entries w, synced_entries w, dirs w, next_ino w, held_locks w)"

lemma frame_dir: "frame w' = frame w \<Longrightarrow> dir_frame w' = dir_frame w"
  by (simp add: frame_def dir_frame_def)

lemma same_dir_dir: "same_dir w w' \<Longrightarrow> dir_frame w' = dir_frame w"
  by (simp add: same_dir_def dir_frame_def)

lemma dir_frame_updates [simp]:
  "dir_frame (w\<lparr>channel := a\<rparr>) = dir_frame w" "dir_frame (w\<lparr>wstate := b\<rparr>) = dir_frame w"
  "dir_frame (w\<lparr>worker := c\<rparr>) = dir_frame w" "dir_frame (w\<lparr>events := d\<rparr>) = dir_frame w"
  "dir_frame (stop_worker res w) = dir_frame w"
  by (simp_all add: dir_frame_def stop_worker_def Let_def)

text \<open>Programs that leave the directory alone.\<close>

definition keeps_dir :: "(('cb, 'c) world, 'a) io \<Rightarrow> bool" where
  "keeps_dir m = (\<forall>w. dir_frame (snd (m w)) = dir_frame w)"

named_theorems dir_intros "programs that leave the directory alone"

lemma keeps_dir_bind [dir_intros]:
  "keeps_dir m \<Longrightarrow> (\<And>x. keeps_dir (k x)) \<Longrightarrow> keeps_dir (io_bind m k)"
  unfolding keeps_dir_def io_bind_app by (auto split: prod.splits sum.splits) (metis snd_conv)+

lemma keeps_dir_basic [dir_intros]:
  "keeps_dir (io_return x)" "keeps_dir (io_lift r)" "keeps_dir (io_fail e)" "keeps_dir (emit ev)"
  "keeps_dir (on_state f)" "keeps_dir (on_queued_bytes g)"
  by (simp_all add: keeps_dir_def emit_def on_state_def on_queued_bytes_def io_lift_def io_fail_def)

lemma keeps_dir_notify_all [dir_intros]: "keeps_dir (notify_all res ws)"
  unfolding keeps_dir_def using notify_all_cases frame_dir by (metis prod.collapse)

lemma keeps_dir_collect_stats [dir_intros]: "keeps_dir (collect_stats fs :: (('cb, 'c) world, flush_stat list) io)"
proof (induction fs)
  case (Cons f fs)
  have "keeps_dir (syscall (\<lambda>s. (Inr (fe_f f), s)) :: (('cb, 'c) world, nat) io)"
    by (auto simp: keeps_dir_def syscall_def dir_frame_def split: list.splits sys_outcome.splits)
  then show ?case using Cons by (auto intro!: dir_intros)
qed (unfold collect_stats.simps, rule dir_intros)

lemma keeps_dir_non_flush:
  "plain sr \<Longrightarrow> keeps_dir (handle_non_flush_request (req sr) wk)"
  by (cases "req sr") (auto simp: handle_non_flush_request_def plain_def intro!: dir_intros)

lemma keeps_dir_finish_batch:
  assumes "\<And>nf. last_non_flush b = Some nf \<Longrightarrow> plain nf"
  shows "keeps_dir (finish_batch b res wk)"
  using assms unfolding finish_batch_def Let_def
  by (cases "last_non_flush b") (auto intro!: dir_intros keeps_dir_non_flush split: prod.split)

lemma run_iteration_dir:
  assumes "run_iteration b wk w = (r, w')" and "files wk \<noteq> []" and "list_all plain (channel w)"
  shows "dir_frame w' = dir_frame w"
proof (cases "channel w")
  case Nil
  then show ?thesis using assms(1) by (simp add: run_iteration_def)
next
  case (Cons sr q)
  show ?thesis
  proof (cases "is_write sr")
    case False
    have "keeps_dir (io_bind (handle_non_flush_request (req sr) wk) (\<lambda>wk.
        io_bind (on_state (complete (seq sr))) (\<lambda>_. io_return (Continue, wk))))"
      using assms(3) Cons by (auto intro!: dir_intros keeps_dir_non_flush)
    then have "dir_frame (snd (io_bind (handle_non_flush_request (req sr) wk) (\<lambda>wk.
        io_bind (on_state (complete (seq sr))) (\<lambda>_. io_return (Continue, wk))) (w\<lparr>channel := q\<rparr>))) = dir_frame w"
      by (simp add: keeps_dir_def)
    then show ?thesis using assms(1) Cons False by (simp add: run_iteration_def push_seq_request_cases)
  next
    case True
    obtain b1 where push: "push_seq_request sr (reset b) = (True, b1)" and b1: "batch_holds [sr] b1"
      using push_batch_holds(1,2) [of "[]" "reset b" sr] True
      by (cases "push_seq_request sr (reset b)") (auto simp: batch_holds_def)
    obtain r2 w2 where two: "collect_write_batch (wk_config wk) b1 (w\<lparr>channel := q\<rparr>) = (r2, w2)"
      by (cases "collect_write_batch (wk_config wk) b1 (w\<lparr>channel := q\<rparr>)")
    from collect_write_batch_holds [OF two b1] obtain g b2 p where
      p: "r2 = Inr (g, b2)" "q = p @ channel w2" "batch_holds ([sr] @ p) b2" "frame w2 = frame (w\<lparr>channel := channel w2\<rparr>)"
      by auto
    then have d2: "dir_frame w2 = dir_frame w" by (simp add: frame_def dir_frame_def)
    have "plain nf" if "last_non_flush b2 = Some nf" for nf
    proof -
      obtain p' where "[sr] @ p = p' @ [nf]" using p(3) unfolding batch_holds_def \<open>last_non_flush b2 = Some nf\<close> by auto
      then have "nf \<in> set ([sr] @ p)" by simp
      then show ?thesis using p(2) assms(3) Cons by (auto simp: list_all_iff)
    qed
    then have fin: "keeps_dir (finish_batch b2 res wk')" for res wk' by (intro keeps_dir_finish_batch)
    obtain r3 w3 where three: "write_and_sync g b2 wk w2 = (r3, w3)" by (cases "write_and_sync g b2 wk w2")
    have d3: "dir_frame w3 = dir_frame w2" using write_and_sync_written [OF three assms(2)] frame_dir by blast
    show ?thesis
      using assms(1) Cons push two p(1) three d2 d3 fin
      by (auto simp: run_iteration_def io_bind_app keeps_dir_def split: sum.splits prod.splits) (metis snd_conv)
  qed
qed

lemma run_inner_dir:
  assumes "run_inner b wk w = (r, w')" and "files wk \<noteq> []" and "list_all plain (channel w)"
  shows "dir_frame w' = dir_frame w"
  using assms
proof (induction b wk w rule: run_inner.induct)
  case (1 b wk w)
  obtain r1 w1 where one: "run_iteration b wk w = (r1, w1)" by (cases "run_iteration b wk w")
  have d1: "dir_frame w1 = dir_frame w" by (rule run_iteration_dir [OF one "1.prems"(2,3)])
  show ?case
  proof (cases "\<exists>wk'. r1 = Inr (Continue, wk')")
    case False
    then have "w' = w1" using "1.prems"(1) one
      by (auto simp: run_inner.simps [of b wk w] split: sum.splits prod.splits loop_control.splits)
    then show ?thesis using d1 by simp
  next
    case True
    then obtain wk' where r1: "r1 = Inr (Continue, wk')" by blast
    then have ne: "channel w \<noteq> []" using one run_iteration_idle [of w b wk] by (auto split: if_splits)
    obtain p where "channel w = p @ channel w1" and "processed wk p wk' w w1"
      using run_iteration_busy [OF one "1.prems"(2) ne] r1 by (auto split: sum.splits)
    then have "files wk' \<noteq> []" "list_all plain (channel w1)" using "1.prems"(3) by (auto simp: processed_def)
    with "1.IH" [OF one [symmetric] r1 refl refl] "1.prems"(1) one r1 d1 show ?thesis
      by (simp add: run_inner.simps [of b wk w])
  qed
qed

lemma run_dir:
  assumes "\<And>wk. worker w = Some wk \<Longrightarrow> files wk \<noteq> []" and "list_all plain (channel w)"
  shows "dir_frame (run w) = dir_frame w"
proof (cases "worker w")
  case (Some wk)
  let ?b = "write_batch_new (flush_batch_max_items (wk_config wk))"
  obtain r w2 where inner: "run_inner ?b wk w = (r, w2)" by (cases "run_inner ?b wk w")
  have "dir_frame w2 = dir_frame w" by (rule run_inner_dir [OF inner assms(1) [OF Some] assms(2)])
  then show ?thesis
    using Some inner by (auto simp: run_def split: sum.splits prod.splits loop_control.splits)
qed (simp add: run_def)

end
