(* ===== verification/Write_Flow.thy ===== *)
theory Write_Flow
  imports Flush_Dir
begin

text \<open>
  What the files of a log hold while bytes travel through the channel and the flush worker. The files
  are a list of targets, in the order of the chunks: each with the bytes it has once everything queued
  is written. \<open>flow\<close> is the invariant while the worker runs: the files before the worker's current one
  are complete and on stable storage, those after it are empty, and every switch to a new file is
  preceded by a synchronising write. \<open>settled\<close> is what holds at any time, also after the worker
  failed: some files are complete and stable, one may be cut, the later ones are empty.
\<close>

section \<open>Requests\<close>

definition appended :: "('cb, 'c) seq_request \<Rightarrow> nat list" where
  "appended sr = (case req sr of AppendFile e \<Rightarrow> [fe_f e] | _ \<Rightarrow> [])"

definition new_files :: "('cb, 'c) seq_request list \<Rightarrow> nat list" where
  "new_files q = concat (map appended q)"

lemma new_files_simps [simp]:
  "new_files [] = []" "new_files (sr # q) = appended sr @ new_files q" "new_files (p @ q) = new_files p @ new_files q"
  by (simp_all add: new_files_def)

text \<open>Whether the current file is synchronised after the requests, given whether it was before.\<close>

definition sync_step :: "bool \<Rightarrow> ('cb, 'c) seq_request \<Rightarrow> bool" where
  "sync_step b sr = (case req sr of Write x \<Rightarrow> wr_sync x | AppendFile _ \<Rightarrow> False | _ \<Rightarrow> b)"

fun sync_state :: "bool \<Rightarrow> ('cb, 'c) seq_request list \<Rightarrow> bool" where
  "sync_state b [] = b"
| "sync_state b (sr # q) = sync_state (sync_step b sr) q"

text \<open>Every switch to a new file happens when the current one is synchronised.\<close>

fun guarded :: "bool \<Rightarrow> ('cb, 'c) seq_request list \<Rightarrow> bool" where
  "guarded b [] = True"
| "guarded b (sr # q) = ((appended sr \<noteq> [] \<longrightarrow> b) \<and> guarded (sync_step b sr) q)"

lemma sync_state_append [simp]: "sync_state b (p @ q) = sync_state (sync_state b p) q"
  by (induction b p rule: sync_state.induct) auto

lemma guarded_append [simp]: "guarded b (p @ q) \<longleftrightarrow> guarded b p \<and> guarded (sync_state b p) q"
  by (induction b p rule: guarded.induct) auto

definition inert :: "('cb, 'c) seq_request list \<Rightarrow> bool" where
  "inert q = list_all (\<lambda>sr. \<not> is_write sr \<and> appended sr = []) q"

lemma inert_simps [simp]:
  "inert []" "inert (sr # q) \<longleftrightarrow> \<not> is_write sr \<and> appended sr = [] \<and> inert q" "inert (p @ q) \<longleftrightarrow> inert p \<and> inert q"
  by (auto simp: inert_def)

lemma inert_request:
  assumes "\<not> is_write sr" and "appended sr = []"
  shows "req_data (req sr) = []" and "(case req sr of AppendFile e \<Rightarrow> fe_f e | _ \<Rightarrow> cur) = cur"
    and "sync_step b sr = b"
  using assms by (auto simp: is_write_def appended_def req_data_def sync_step_def split: worker_request.splits)

lemma inert_routed: "inert q \<Longrightarrow> routed cur q i = [] \<and> cur_after cur q = cur"
  by (induction q) (auto simp: inert_request)

lemma sync_state_split:
  assumes "sync_state b p"
  shows "(\<exists>r1 sr r2. p = r1 @ sr # r2 \<and> syncs_any [sr] \<and> inert r2) \<or> b \<and> inert p"
  using assms
proof (induction p rule: rev_induct)
  case (snoc sr p)
  show ?case
  proof (cases "is_write sr \<or> appended sr \<noteq> []")
    case True
    then have "syncs_any [sr]"
      using snoc.prems by (auto simp: sync_step_def is_write_def appended_def split: worker_request.splits)
    then show ?thesis by (intro disjI1 exI [of _ p] exI [of _ sr] exI [of _ "[]"]) simp
  next
    case False
    then have inert: "inert [sr]" and "sync_state b p" using snoc.prems by (auto simp: inert_request)
    from snoc.IH [OF this(2)] show ?thesis
    proof
      assume "\<exists>r1 s r2. p = r1 @ s # r2 \<and> syncs_any [s] \<and> inert r2"
      then obtain r1 s r2 where "p = r1 @ s # r2" "syncs_any [s]" "inert r2" by blast
      then show ?thesis using inert by (intro disjI1 exI [of _ r1] exI [of _ s] exI [of _ "r2 @ [sr]"]) auto
    qed (use inert in auto)
  qed
qed simp

lemma routed_elsewhere: "i \<noteq> cur \<Longrightarrow> i \<notin> set (new_files q) \<Longrightarrow> routed cur q i = []"
  by (induction q arbitrary: cur) (auto simp: appended_def split: worker_request.splits)

lemma cur_after_new_files: "cur_after cur q = last (cur # new_files q)"
  by (induction q arbitrary: cur) (auto simp: appended_def split: worker_request.splits)

lemma left_file_split:
  assumes "f \<in> set (butlast (cur # new_files p))"
  shows "\<exists>p1 sr e p2. p = p1 @ sr # p2 \<and> req sr = AppendFile e \<and> cur_after cur p1 = f"
  using assms
proof (induction p arbitrary: cur)
  case (Cons sr p)
  show ?case
  proof (cases "appended sr = []")
    case True
    then have "(case req sr of AppendFile e \<Rightarrow> fe_f e | _ \<Rightarrow> cur) = cur" "f \<in> set (butlast (cur # new_files p))"
      using Cons.prems by (auto simp: appended_def split: worker_request.splits)
    with Cons.IH [of cur] obtain p1 s x p2 where
      "p = p1 @ s # p2" "req s = AppendFile x" "cur_after cur p1 = f" by blast
    then show ?thesis using \<open>_ = cur\<close> by (intro exI [of _ "sr # p1"]) auto
  next
    case False
    then obtain e where e: "req sr = AppendFile e" by (auto simp: appended_def split: worker_request.splits)
    show ?thesis
    proof (cases "f = cur")
      case True
      then show ?thesis using e by (intro exI [of _ "[]"]) auto
    next
      case False
      then have "f \<in> set (butlast (fe_f e # new_files p))" using Cons.prems e by (simp add: appended_def)
      from Cons.IH [OF this] obtain p1 s x p2 where
        "p = p1 @ s # p2" "req s = AppendFile x" "cur_after (fe_f e) p1 = f" by blast
      then show ?thesis using e by (intro exI [of _ "sr # p1"]) auto
    qed
  qed
qed simp

section \<open>What a run does to a single file\<close>

lemma run_result_moves:
  assumes "run_result wk p q d wk1 w w1 w'"
  shows "prefix (content_of w i) (content_of w' i)"
    and "prefix (synced_of w i) (content_of w i) \<Longrightarrow> prefix (synced_of w' i) (content_of w' i)"
    and "clean w i \<Longrightarrow> content_of w' i = content_of w i \<Longrightarrow> clean w' i"
proof -
  have pr: "content_of w1 i = content_of w i @ routed (cur_file wk) p i"
    "sync_moves (content_of w i) (synced_of w i) (synced_of w1 i) (content_of w1 i)"
    and gr: "content_of w' i = content_of w1 i @ (if i = cur_file wk1 then d else [])"
    "synced_of w' i = synced_of w1 i \<or> synced_of w' i = content_of w' i"
    using assms unfolding run_result_def processed_def grown_def by blast+
  show "prefix (content_of w i) (content_of w' i)" using pr(1) gr(1) by simp
  show "prefix (synced_of w' i) (content_of w' i)" if "prefix (synced_of w i) (content_of w i)"
  proof -
    have "prefix (content_of w1 i) (content_of w' i)" "prefix (content_of w i) (content_of w1 i)"
      using pr(1) gr(1) by simp_all
    with that pr(2) gr(2) show ?thesis unfolding sync_moves_def by (metis prefix_order.refl prefix_order.trans)
  qed
  show "clean w' i" if "clean w i" "content_of w' i = content_of w i"
  proof -
    have "content_of w1 i = content_of w i" using that(2) pr(1) gr(1) by simp
    with that pr(2) gr(2) show ?thesis unfolding sync_moves_def clean_def by (metis prefix_order.antisym)
  qed
qed

text \<open>A file that is synchronised after the processed requests \<open>p\<close> is on stable storage.\<close>

lemma run_result_clean:
  assumes res: "run_result wk p q d wk1 w w1 w'" and p: "p = p1 @ p2"
    and st: "sync_state (clean w (cur_file wk)) p1" and i: "i = cur_after (cur_file wk) p1"
    and open_i: "clean w i \<or> i \<in> open_inodes wk" and synced: "prefix (synced_of w i) (content_of w i)"
    and all: "content_of w' i = content_of w i @ routed (cur_file wk) p1 i"
  shows "clean w' i"
  using sync_state_split [OF st]
proof
  assume "\<exists>r1 sr r2. p1 = r1 @ sr # r2 \<and> syncs_any [sr] \<and> inert r2"
  then obtain r1 sr r2 where p1: "p1 = r1 @ sr # r2" and sr: "syncs_any [sr]" and r2: "inert r2" by blast
  have "p = r1 @ sr # (r2 @ p2)" using p p1 by simp
  from run_result_durable [OF res this sr open_i]
  have "prefix (content_of w i @ routed (cur_file wk) (r1 @ [sr]) i) (synced_of w' i)" .
  moreover have "routed (cur_file wk) p1 i = routed (cur_file wk) (r1 @ [sr]) i"
    using inert_routed [OF r2] by (simp add: p1)
  moreover have "prefix (synced_of w' i) (content_of w' i)" using run_result_moves(2) [OF res synced] .
  ultimately show ?thesis using all by (simp add: clean_def prefix_order.antisym)
next
  assume "clean w (cur_file wk) \<and> inert p1"
  then show ?thesis using run_result_moves(3) [OF res] i all inert_routed [of p1] by auto
qed

section \<open>Targets\<close>

type_synonym target = "nat \<times> byte list"

definition landed :: "('cb, 'c) world \<Rightarrow> target \<Rightarrow> bool" where
  "landed w t = (content_of w (fst t) = snd t \<and> clean w (fst t))"

definition untouched :: "('cb, 'c) world \<Rightarrow> target \<Rightarrow> bool" where
  "untouched w t = (content_of w (fst t) = [] \<and> synced_of w (fst t) = [])"

definition settled :: "target list \<Rightarrow> ('cb, 'c) world \<Rightarrow> bool" where
  "settled ts w = (\<exists>pre c post. ts = pre @ c # post \<and> list_all (landed w) pre \<and>
     prefix (content_of w (fst c)) (snd c) \<and> prefix (synced_of w (fst c)) (content_of w (fst c)) \<and>
     list_all (untouched w) post)"

definition flow_at :: "'c flush_worker \<Rightarrow> target list \<Rightarrow> target \<Rightarrow> target list \<Rightarrow> ('cb, 'c) world \<Rightarrow> bool" where
  "flow_at wk pre c post w =
     (files wk \<noteq> [] \<and> cur_file wk = fst c \<and> new_files (channel w) = map fst post \<and>
      distinct (map fst (pre @ c # post)) \<and> list_all (landed w) pre \<and> list_all (untouched w) post \<and>
      prefix (synced_of w (fst c)) (content_of w (fst c)) \<and>
      list_all (\<lambda>t. content_of w (fst t) @ routed (fst c) (channel w) (fst t) = snd t) (c # post) \<and>
      guarded (clean w (fst c)) (channel w))"

definition flow :: "target list \<Rightarrow> ('cb, 'c) world \<Rightarrow> bool" where
  "flow ts w = (\<exists>wk pre c post. worker w = Some wk \<and> ts = pre @ c # post \<and> flow_at wk pre c post w)"

lemma flow_settled:
  assumes "flow ts w"
  shows "settled ts w"
proof -
  obtain wk pre c post where "ts = pre @ c # post" "flow_at wk pre c post w"
    using assms unfolding flow_def by blast
  moreover from this(2) have "prefix (content_of w (fst c)) (snd c)"
    by (auto simp: flow_at_def dest: sym)
  ultimately show ?thesis unfolding settled_def flow_at_def by blast
qed

text \<open>A run leaves alone the files it does not reach.\<close>

lemma run_elsewhere:
  assumes res: "run_result wk p q d wk1 w w1 w'" and f: "f \<noteq> cur_file wk" "f \<notin> set (new_files p)"
  shows "content_of w' f = content_of w f" and "landed w (f, b) \<Longrightarrow> landed w' (f, b)"
    and "untouched w (f, b) \<Longrightarrow> untouched w' (f, b)"
proof -
  have "f \<noteq> cur_after (cur_file wk) p"
    using f last_in_set [of "cur_file wk # new_files p"] by (auto simp: cur_after_new_files)
  then show same: "content_of w' f = content_of w f"
    using run_result_content [OF res, of f] routed_elsewhere [OF f] by simp
  show "landed w' (f, b)" if "landed w (f, b)"
    using that same run_result_moves(3) [OF res, of f] by (simp add: landed_def)
  show "untouched w' (f, b)" if "untouched w (f, b)"
    using that same run_result_moves(2) [OF res, of f] by (simp add: untouched_def)
qed

text \<open>A file the worker has left is complete, and on stable storage if it was synchronised before.\<close>

lemma run_left_file:
  assumes res: "run_result wk p q d wk1 w w1 w'" and dist: "distinct (cur_file wk # new_files (p @ q))"
    and f: "f \<in> set (butlast (cur_file wk # new_files p))" and gd: "guarded (clean w (cur_file wk)) p"
    and open_f: "clean w f \<or> f \<in> open_inodes wk" and synced: "prefix (synced_of w f) (content_of w f)"
  shows "content_of w' f = content_of w f @ routed (cur_file wk) (p @ q) f" and "clean w' f"
proof -
  have wk1: "cur_file wk1 = last (cur_file wk # new_files p)" "cur_file wk1 = cur_after (cur_file wk) p"
    using res by (simp_all add: run_result_def processed_def cur_after_new_files)
  obtain p1 sr e p2 where p: "p = p1 @ sr # p2" "req sr = AppendFile e" "cur_after (cur_file wk) p1 = f"
    using left_file_split [OF f] by blast
  have "f \<in> set (cur_file wk # new_files p1)"
    unfolding p(3) [symmetric] cur_after_new_files by (rule last_in_set) simp
  then have later: "f \<noteq> fe_f e" "f \<notin> set (new_files p2)" "f \<notin> set (new_files q)"
    using dist p(1,2) by (auto simp: appended_def)
  then have "f \<noteq> cur_file wk1" using wk1(1) p(1,2) by (auto simp: appended_def split: if_splits dest: last_in_set)
  moreover have now: "routed (cur_file wk) p f = routed (cur_file wk) p1 f"
    using p later routed_elsewhere [of f "fe_f e" p2] by (auto simp: req_data_def)
  ultimately have all: "content_of w' f = content_of w f @ routed (cur_file wk) p1 f"
    using run_result_content [OF res, of f] wk1(2) by simp
  moreover have "routed (cur_file wk1) q f = []" using \<open>f \<noteq> cur_file wk1\<close> later(3) routed_elsewhere by metis
  ultimately show "content_of w' f = content_of w f @ routed (cur_file wk) (p @ q) f" using now wk1(2) by simp
  have "sync_state (clean w (cur_file wk)) p1" using gd p by (simp add: appended_def)
  from run_result_clean [OF res p(1) this p(3) [symmetric] open_f synced all] show "clean w' f" .
qed

text \<open>A run on the requests of the channel, whatever the system calls answer.\<close>

lemma flow_at_run:
  fixes w :: "('cb, 'c) world"
  assumes fl: "flow_at wk pre c post w" and res: "run_result wk p q d wk1 w w1 w'"
  obtains init c1 postq where "pre @ c # post = (pre @ init) @ c1 # postq"
    "cur_file wk1 = fst c1" "new_files q = map fst postq" "list_all (landed w') (pre @ init)"
    "prefix (content_of w' (fst c1)) (snd c1)" "prefix (synced_of w' (fst c1)) (content_of w' (fst c1))"
    "list_all (untouched w') postq"
    "q = [] \<longrightarrow> content_of w' (fst c1) = snd c1"
    "q = [] \<and> sync_state (clean w (fst c)) p \<longrightarrow> clean w' (fst c1)"
proof -
  note fl' = fl [unfolded flow_at_def]
  let ?cur = "cur_file wk"
  have cur: "fst c = ?cur" and ne: "files wk \<noteq> []" and dist: "distinct (map fst (pre @ c # post))"
    using fl' by auto
  have ch: "channel w = p @ q" and wk1: "cur_file wk1 = cur_after ?cur p"
    and d: "prefix d (routed (cur_file wk1) q (cur_file wk1))"
    using res by (auto simp: run_result_def processed_def)
  have cont: "content_of w' i = content_of w i @ routed ?cur p i @ (if i = cur_file wk1 then d else [])" for i
    using run_result_content [OF res, of i] wk1 by simp
  have "new_files p @ new_files q = map fst post" using fl' ch by auto
  then obtain postp postq where post: "post = postp @ postq" "map fst postp = new_files p" "map fst postq = new_files q"
    by (metis append_eq_map_conv)
  obtain init c1 where ic: "c # postp = init @ [c1]" by (metis append_butlast_last_id list.distinct(1))
  have "map fst init @ [fst c1] = ?cur # new_files p" using arg_cong [OF ic, of "map fst"] post(2) cur by simp
  then have bl: "map fst init = butlast (?cur # new_files p)" and c1: "fst c1 = cur_file wk1"
    using wk1 cur_after_new_files [of ?cur p] by (metis butlast_snoc, metis last_snoc)
  have mem: "t \<in> set (c # post)" if "t \<in> set init \<or> t = c1" for t
    using that ic post(1) by (metis Un_iff list.set_intros(1) set_append append_Cons)
  have opn: "clean w (fst t) \<or> fst t \<in> open_inodes wk" and sy: "prefix (synced_of w (fst t)) (content_of w (fst t))"
    if "t \<in> set (c # post)" for t
    using that fl' cur_file_open [OF ne] cur by (auto simp: list_all_iff untouched_def clean_def)
  have target: "content_of w (fst t) @ routed ?cur (p @ q) (fst t) = snd t" if "t \<in> set (c # post)" for t
    using that fl' ch cur by (auto simp: list_all_iff)
  have "distinct (map fst pre @ ?cur # new_files p @ new_files q)" using dist cur post by simp
  moreover have "fst ` set postq = set (new_files q)" using arg_cong [OF post(3), of set] by simp
  ultimately have names: "distinct (?cur # new_files (p @ q))" "fst ` set pre \<inter> insert ?cur (set (new_files p)) = {}"
    "fst ` set postq \<inter> insert ?cur (set (new_files p)) = {}"
    by auto
  have "landed w' t" if t: "t \<in> set pre" for t
  proof -
    have "fst t \<in> fst ` set pre" using t by simp
    then have "fst t \<noteq> ?cur" "fst t \<notin> set (new_files p)" using names(2) by blast+
    moreover have "landed w t" using t fl' by (simp add: list_all_iff)
    ultimately show ?thesis using run_elsewhere(2) [OF res, of "fst t" "snd t"] by simp
  qed
  moreover have "landed w' t" if t: "t \<in> set init" for t
  proof -
    have "fst t \<in> set (butlast (?cur # new_files p))" using t unfolding bl [symmetric] by simp
    moreover have "guarded (clean w ?cur) p" using fl' ch cur by simp
    moreover have "t \<in> set (c # post)" using mem t by blast
    ultimately show ?thesis
      using run_left_file [OF res names(1)] opn sy target by (metis landed_def)
  qed
  ultimately have pre: "list_all (landed w') (pre @ init)" by (auto simp: list_all_iff)
  have "untouched w' t" if t: "t \<in> set postq" for t
  proof -
    have "fst t \<in> fst ` set postq" using t by simp
    then have "fst t \<noteq> ?cur" "fst t \<notin> set (new_files p)" using names(3) by blast+
    moreover have "untouched w t" using t post(1) fl' by (simp add: list_all_iff)
    ultimately show ?thesis using run_elsewhere(3) [OF res, of "fst t" "snd t"] by simp
  qed
  then have postq: "list_all (untouched w') postq" by (simp add: list_all_iff)
  have pc: "prefix (content_of w' (fst c1)) (snd c1)"
    using cont [of "fst c1"] target [OF mem, of c1, symmetric] c1 wk1 d by simp
  have ps: "prefix (synced_of w' (fst c1)) (content_of w' (fst c1))"
    using run_result_moves(2) [OF res sy [OF mem]] by simp
  have fin: "content_of w' (fst c1) = snd c1" if "q = []"
    using cont target [OF mem, of c1] c1 d that by simp
  have cl: "clean w' (fst c1)" if q: "q = []" and st: "sync_state (clean w (fst c)) p"
  proof -
    have "content_of w' (fst c1) = content_of w (fst c1) @ routed ?cur p (fst c1)"
      using cont [of "fst c1"] c1 d q by simp
    then show ?thesis
      using run_result_clean [OF res, of p "[]" "fst c1"] st c1 wk1 cur opn [OF mem, of c1] sy [OF mem, of c1] by simp
  qed
  have "pre @ c # post = (pre @ init) @ c1 # postq" using ic post(1) by (metis append.assoc append_Cons append_Nil)
  from that [OF this c1 [symmetric] post(3) [symmetric] pre pc ps postq] fin cl show thesis by blast
qed

lemma flow_run:
  assumes "flow ts w"
  shows "settled ts (run w)" and "worker (run w) \<noteq> None \<Longrightarrow> flow ts (run w)"
proof -
  obtain wk pre c post where wk: "worker w = Some wk" "ts = pre @ c # post" "flow_at wk pre c post w"
    using assms unfolding flow_def by blast
  then have ne: "files wk \<noteq> []" and dist: "distinct (map fst ts)" by (auto simp: flow_at_def)
  obtain p q d wk1 w1 where res: "run_result wk p q d wk1 w w1 (run w)"
    and alive: "worker (run w) = (if q = [] \<and> tx_alive w then Some wk1 else None)"
    by (rule run_cases [OF wk(1) ne])
  obtain init c1 postq where ts: "pre @ c # post = (pre @ init) @ c1 # postq"
    and h: "cur_file wk1 = fst c1" "new_files q = map fst postq" "list_all (landed (run w)) (pre @ init)"
    "prefix (content_of (run w) (fst c1)) (snd c1)" "prefix (synced_of (run w) (fst c1)) (content_of (run w) (fst c1))"
    "list_all (untouched (run w)) postq" "q = [] \<longrightarrow> content_of (run w) (fst c1) = snd c1"
    "q = [] \<and> sync_state (clean w (fst c)) p \<longrightarrow> clean (run w) (fst c1)"
    by (rule flow_at_run [OF wk(3) res])
  show "settled ts (run w)" unfolding settled_def wk(2) ts using h(3-6) by blast
  show "flow ts (run w)" if "worker (run w) \<noteq> None"
  proof -
    have q: "q = []" and "worker (run w) = Some wk1" using that alive by (auto split: if_splits)
    moreover have "files wk1 \<noteq> []" "channel (run w) = []"
      using res by (auto simp: run_result_def processed_def)
    moreover have "postq = []" using h(2) q by simp
    ultimately have "flow_at wk1 (pre @ init) c1 [] (run w)"
      using h dist wk(2) ts by (simp add: flow_at_def)
    then show ?thesis unfolding flow_def wk(2) ts using \<open>worker (run w) = Some wk1\<close> \<open>postq = []\<close> by blast
  qed
qed

text \<open>A file that is not a target is left alone.\<close>

lemma run_untouched:
  assumes "flow ts w" and "f \<notin> fst ` set ts" and "untouched w (f, t)"
  shows "untouched (run w) (f, t)"
proof -
  obtain wk pre c post where wk: "worker w = Some wk" "ts = pre @ c # post" "flow_at wk pre c post w"
    using assms(1) unfolding flow_def by blast
  then have ne: "files wk \<noteq> []" and cur: "cur_file wk = fst c" and nf: "new_files (channel w) = map fst post"
    by (auto simp: flow_at_def)
  obtain p q d wk1 w1 where res: "run_result wk p q d wk1 w w1 (run w)" by (rule run_cases [OF wk(1) ne])
  have ch: "channel w = p @ q" using res by (simp add: run_result_def)
  then have "set (new_files p) \<subseteq> fst ` set post" using arg_cong [OF nf, of set] by auto
  then have f: "f \<noteq> fst c" "f \<notin> set (new_files p)" using assms(2) wk(2) by auto
  then have "f \<noteq> cur_after (fst c) p"
    using cur_after_new_files [of "fst c" p] last_in_set [of "fst c # new_files p"] by auto
  then have "content_of (run w) f = []"
    using run_result_content [OF res, of f] cur routed_elsewhere [OF f] assms(3) by (simp add: untouched_def)
  then show ?thesis using run_result_moves(2) [OF res, of f] assms(3) by (simp add: untouched_def)
qed

text \<open>The last request that touches a file is a synchronising write.\<close>

definition ends_synced :: "('cb, 'c) world \<Rightarrow> bool" where
  "ends_synced w = (case worker w of None \<Rightarrow> False
     | Some wk \<Rightarrow> sync_state (clean w (cur_file wk)) (channel w))"

text \<open>A run that processes every request leaves all files complete and stable.\<close>

lemma flow_run_lands:
  assumes "flow ts w" and "ends_synced w" and "worker w = Some wk0" and res: "run_result wk0 p q d wk1 w w1 (run w)"
    and q: "q = []"
  shows "list_all (landed (run w)) ts" and "clean (run w) (cur_file wk1)" and "channel (run w) = []"
proof -
  obtain wk pre c post where wk: "worker w = Some wk" "ts = pre @ c # post" "flow_at wk pre c post w"
    using assms(1) unfolding flow_def by blast
  then have cur: "cur_file wk = fst c" and eq: "wk0 = wk" using assms(3) by (auto simp: flow_at_def)
  have st: "sync_state (clean w (fst c)) p"
    using assms(2) res q wk(1) cur by (simp add: ends_synced_def run_result_def)
  obtain init c1 postq where ts: "pre @ c # post = (pre @ init) @ c1 # postq"
    and h: "cur_file wk1 = fst c1" "new_files q = map fst postq" "list_all (landed (run w)) (pre @ init)"
    "prefix (content_of (run w) (fst c1)) (snd c1)" "prefix (synced_of (run w) (fst c1)) (content_of (run w) (fst c1))"
    "list_all (untouched (run w)) postq" "q = [] \<longrightarrow> content_of (run w) (fst c1) = snd c1"
    "q = [] \<and> sync_state (clean w (fst c)) p \<longrightarrow> clean (run w) (fst c1)"
    by (rule flow_at_run [OF wk(3) res [unfolded eq]])
  have "postq = []" using h(2) q by simp
  then show "list_all (landed (run w)) ts" unfolding wk(2) ts using h q st by (simp add: landed_def)
  show "clean (run w) (cur_file wk1)" using h(1,8) q st by simp
  show "channel (run w) = []" using res q by (simp add: run_result_def)
qed

lemma flow_run_durable:
  assumes "flow ts w" and "ends_synced w" and "worker (run w) \<noteq> None"
  shows "list_all (landed (run w)) ts" and "ends_synced (run w)"
proof -
  obtain wk where wk: "worker w = Some wk" "files wk \<noteq> []"
    using assms(1) by (auto simp: flow_def flow_at_def)
  obtain p q d wk1 w1 where res: "run_result wk p q d wk1 w w1 (run w)"
    and alive: "worker (run w) = (if q = [] \<and> tx_alive w then Some wk1 else None)"
    by (rule run_cases [OF wk])
  then have q: "q = []" and wk1: "worker (run w) = Some wk1" using assms(3) by (auto split: if_splits)
  note l = flow_run_lands [OF assms(1,2) wk(1) res q]
  show "list_all (landed (run w)) ts" by (rule l(1))
  show "ends_synced (run w)" using l(2,3) wk1 by (simp add: ends_synced_def)
qed

section \<open>Sending\<close>

lemma flow_at_last:
  assumes "flow_at wk pre c post w"
  shows "cur_after (fst c) (channel w) = fst (last (c # post))"
  using assms by (auto simp: flow_at_def cur_after_new_files last_map)

lemma flow_at_cong:
  assumes "inode w' = inode w"
  shows "landed w' = landed w" "untouched w' = untouched w" "clean w' = clean w"
  using assms by (auto simp: fun_eq_iff landed_def untouched_def clean_def)

lemma untouched_names:
  "list_all (untouched w) ts = list_all (\<lambda>i. content_of w i = [] \<and> synced_of w i = []) (map fst ts)"
  by (simp add: list_all_iff untouched_def)

lemma flow_at_write:
  assumes fl: "flow_at wk pre c post w" and "inode w' = inode w" and "channel w' = channel w @ [sr]"
    and "req sr = Write x" and "c # post = init @ [(f, t)]" and "init @ [(f, t @ wr_data x)] = c' # post'"
  shows "flow_at wk pre c' post' w'"
proof -
  note fl' = fl [unfolded flow_at_def]
  have names: "map fst (c' # post') = map fst (c # post)" 
    using arg_cong [OF assms(5), of "map fst"] arg_cong [OF assms(6), of "map fst"] by simp
  then have fc: "fst c' = fst c" "map fst post' = map fst post" by auto
  have last: "cur_after (fst c) (channel w) = f" using flow_at_last [OF fl] assms(5) by simp
  have data: "req_data (req sr) = wr_data x" "appended sr = []" using assms(4) by (simp_all add: req_data_def appended_def)
  have "distinct (map fst (c # post))" using fl' by simp
  then have dist: "distinct (map fst init @ [f])" unfolding assms(5) by simp
  have "content_of w' (fst u) @ routed (fst c) (channel w') (fst u) = snd u" if u: "u \<in> set (c' # post')" for u
  proof (cases "u = (f, t @ wr_data x)")
    case True
    have "(f, t) \<in> set (c # post)" using assms(5) by simp
    then have "content_of w f @ routed (fst c) (channel w) f = t" using fl' by (auto simp: list_all_iff)
    then show ?thesis using True assms(2,3) last data by (simp flip: append_assoc)
  next
    case False
    then have "u \<in> set init" using u unfolding assms(6) [symmetric] by simp
    then have "u \<in> set (c # post)" "fst u \<in> fst ` set init" using assms(5) by auto
    moreover have "f \<notin> fst ` set init" using dist by auto
    ultimately have "content_of w (fst u) @ routed (fst c) (channel w) (fst u) = snd u" "fst u \<noteq> f"
      using fl' by (auto simp: list_all_iff)
    then show ?thesis using assms(2,3) last by simp
  qed
  moreover have "list_all (untouched w) post'"
    using fl' by (simp only: untouched_names fc)
  moreover have "distinct (map fst (pre @ c' # post'))" using fl' by (simp only: map_append names)
  moreover have "new_files (channel w') = map fst post'" using fl' assms(3) data fc by simp
  moreover have "guarded (clean w (fst c)) (channel w')" using fl' assms(3) data by simp
  ultimately show ?thesis
    using fl' by (simp only: flow_at_def fc(1) flow_at_cong [OF assms(2)] assms(2) list_all_iff) blast
qed

lemma flow_at_append_file:
  assumes fl: "flow_at wk pre c post w" and "inode w' = inode w" and "channel w' = channel w @ [sr]"
    and "req sr = AppendFile e" and "untouched w (fe_f e, [])" and "fe_f e \<notin> fst ` set (pre @ c # post)"
    and "sync_state (clean w (fst c)) (channel w)"
  shows "flow_at wk pre c (post @ [(fe_f e, [])]) w'"
proof -
  note fl' = fl [unfolded flow_at_def]
  have data: "req_data (req sr) = []" "appended sr = [fe_f e]" using assms(4) by (simp_all add: req_data_def appended_def)
  have "fe_f e \<noteq> fst c" "fe_f e \<notin> set (new_files (channel w))" using assms(6) fl' by auto
  then have "routed (fst c) (channel w) (fe_f e) = []" by (rule routed_elsewhere)
  then have "content_of w' i @ routed (fst c) (channel w') i = content_of w i @ routed (fst c) (channel w) i" for i
    using assms(2,3) data by simp
  moreover have "content_of w (fe_f e) @ routed (fst c) (channel w) (fe_f e) = []"
    using assms(5) \<open>routed _ _ _ = []\<close> by (simp add: untouched_def)
  ultimately have "list_all (\<lambda>t. content_of w' (fst t) @ routed (fst c) (channel w') (fst t) = snd t)
      (c # post @ [(fe_f e, [])])"
    using fl' by (auto simp: list_all_iff)
  moreover have "distinct (map fst (pre @ c # post @ [(fe_f e, [])]))"
    using fl' assms(6) by auto
  moreover have "new_files (channel w') = map fst (post @ [(fe_f e, [])])" using fl' assms(3) data by simp
  moreover have "guarded (clean w (fst c)) (channel w')" using fl' assms(3,7) data by simp
  moreover have "list_all (untouched w) (post @ [(fe_f e, [])])" using fl' assms(5) by simp
  ultimately show ?thesis
    using fl' by (simp only: flow_at_def flow_at_cong [OF assms(2)] assms(2)) blast
qed

lemma flow_at_inert:
  assumes fl: "flow_at wk pre c post w" and "inode w' = inode w" and "channel w' = channel w @ [sr]" and "inert [sr]"
  shows "flow_at wk pre c post w'"
proof -
  have "routed cur [sr] i = []" for cur i using inert_routed [OF assms(4)] by blast
  then show ?thesis
    using fl assms(3,4) by (simp add: flow_at_def flow_at_cong [OF assms(2)] assms(2))
qed

lemma flow_write:
  assumes "flow (ts @ [(f, t)]) w" and "inode w' = inode w" and "worker w' = worker w"
    and "channel w' = channel w @ [sr]" and "req sr = Write x"
  shows "flow (ts @ [(f, t @ wr_data x)]) w'"
proof -
  obtain wk pre c post where wk: "worker w = Some wk" "ts @ [(f, t)] = pre @ c # post" "flow_at wk pre c post w"
    using assms(1) unfolding flow_def by blast
  obtain init where init: "c # post = init @ [(f, t)]" "ts = pre @ init"
  proof (cases post rule: rev_cases)
    case Nil
    then show ?thesis using that [of "[]"] wk(2) by simp
  next
    case (snoc post' y)
    then show ?thesis using that [of "c # post'"] wk(2) by (simp flip: append_Cons append_assoc)
  qed
  obtain c' post' where c': "init @ [(f, t @ wr_data x)] = c' # post'" by (cases init) auto
  have "flow_at wk pre c' post' w'" by (rule flow_at_write [OF wk(3) assms(2,4,5) init(1) c'])
  moreover have "ts @ [(f, t @ wr_data x)] = pre @ c' # post'" using init(2) c' by simp
  ultimately show ?thesis unfolding flow_def using wk(1) assms(3) by metis
qed

lemma flow_append_file:
  assumes "flow ts w" and "inode w' = inode w" and "worker w' = worker w"
    and "channel w' = channel w @ [sr]" and "req sr = AppendFile e"
    and "untouched w (fe_f e, [])" and "fe_f e \<notin> fst ` set ts" and "ends_synced w"
  shows "flow (ts @ [(fe_f e, [])]) w'"
proof -
  obtain wk pre c post where wk: "worker w = Some wk" "ts = pre @ c # post" "flow_at wk pre c post w"
    using assms(1) unfolding flow_def by blast
  have "sync_state (clean w (fst c)) (channel w)"
    using assms(8) wk(1,3) by (simp add: ends_synced_def flow_at_def)
  then have "flow_at wk pre c (post @ [(fe_f e, [])]) w'"
    using flow_at_append_file [OF wk(3) assms(2,4,5,6)] assms(7) wk(2) by simp
  moreover have "ts @ [(fe_f e, [])] = pre @ c # (post @ [(fe_f e, [])])" using wk(2) by simp
  ultimately show ?thesis unfolding flow_def using wk(1) assms(3) by metis
qed

lemma ends_synced_request:
  assumes "inode w' = inode w" and "worker w' = worker w" and "worker w \<noteq> None" and "channel w' = channel w @ [sr]"
  shows "ends_synced w' = sync_step (ends_synced w) sr"
  using assms by (auto simp: ends_synced_def flow_at_cong [OF assms(1)])

lemma flow_cong:
  assumes "inode w' = inode w"
  shows "settled ts w' = settled ts w"
    and "worker w' = worker w \<Longrightarrow> channel w' = channel w \<Longrightarrow> flow ts w' = flow ts w \<and> ends_synced w' = ends_synced w"
  using assms
  by (simp_all only: settled_def flow_def flow_at_def ends_synced_def flow_at_cong [OF assms] simp_thms)

lemma inode_wstate_update: "inode (w\<lparr>wstate := x\<rparr>) = inode w"
  by simp

lemma client_files: "client_inv m fc w \<Longrightarrow> worker w = Some wk \<Longrightarrow> files wk \<noteq> []"
  by (simp add: client_inv_def)

lemma acquire_wait_flow:
  assumes "flow ts w" and "client_ok fc w" and "list_all plain (channel w)" and "acquire_wait n w = (Inr (), w1)"
  shows "settled ts w1" and "worker w1 \<noteq> None \<Longrightarrow> flow ts w1" and "dir_frame w1 = dir_frame w"
    and "f \<notin> fst ` set ts \<Longrightarrow> untouched w (f, []) \<Longrightarrow> untouched w1 (f, [])"
    and "ends_synced w \<Longrightarrow> worker w1 \<noteq> None \<Longrightarrow> ends_synced w1" and "list_all plain (channel w1)"
proof -
  have run: "settled ts (run w)" "worker (run w) \<noteq> None \<Longrightarrow> flow ts (run w)"
    "ends_synced w \<Longrightarrow> worker (run w) \<noteq> None \<Longrightarrow> ends_synced (run w)"
    using flow_run [OF assms(1)] flow_run_durable(2) [OF assms(1)] by blast+
  have dir: "dir_frame (run w) = dir_frame w" by (rule run_dir [OF client_files [OF assms(2)] assms(3)])
  have ch: "channel (run w) = []" by (rule client_ok_run(2) [OF assms(2)])
  consider q where "w1 = w\<lparr>wstate := (wstate w)\<lparr>ws_queued_bytes := q\<rparr>\<rparr>"
    | q where "w1 = (run w)\<lparr>wstate := (wstate (run w))\<lparr>ws_queued_bytes := q\<rparr>\<rparr>"
    using assms(4) by (auto simp: acquire_wait_def Let_def split: option.splits)
  then have "settled ts w1 \<and> (worker w1 \<noteq> None \<longrightarrow> flow ts w1) \<and> dir_frame w1 = dir_frame w \<and>
    (f \<notin> fst ` set ts \<and> untouched w (f, []) \<longrightarrow> untouched w1 (f, [])) \<and>
    (ends_synced w \<and> worker w1 \<noteq> None \<longrightarrow> ends_synced w1) \<and> list_all plain (channel w1)"
  proof cases
    case 1
    then show ?thesis
      using flow_cong [OF inode_wstate_update [where w = w and x = "(wstate w)\<lparr>ws_queued_bytes := q\<rparr>"], where ts = ts] assms(1,3)
        flow_settled [OF assms(1)] by (auto simp: untouched_def)
  next
    case 2
    then show ?thesis
      using flow_cong [OF inode_wstate_update [where w = "run w" and x = "(wstate (run w))\<lparr>ws_queued_bytes := q\<rparr>"], where ts = ts] run dir ch
        run_untouched [OF assms(1), of f "[]"] by (auto simp: untouched_def)
  qed
  then show "settled ts w1" "worker w1 \<noteq> None \<Longrightarrow> flow ts w1" "dir_frame w1 = dir_frame w"
    "f \<notin> fst ` set ts \<Longrightarrow> untouched w (f, []) \<Longrightarrow> untouched w1 (f, [])"
    "ends_synced w \<Longrightarrow> worker w1 \<noteq> None \<Longrightarrow> ends_synced w1" "list_all plain (channel w1)" by blast+
qed

lemma send_enqueue_dir:
  assumes "length (channel w) < CHANNEL_CAPACITY" and "send_enqueue n rq (fc, w) = (r, (fc', w'))"
  shows "dir_frame w' = dir_frame w"
proof -
  obtain t w1 where now: "instant_now w = (Inr t, w1)" and fr: "frame w1 = frame w" by (metis instant_now_step)
  have ch: "channel w1 = channel w" using fr by (simp add: frame_def)
  then show ?thesis
    using assms now frame_dir [OF fr]
    by (auto simp: send_enqueue_def Let_def io_bind_app channel_send_def on_queued_bytes_def on_state_def
        split: if_splits)
qed

lemma acquire_wait_calm:
  assumes "client_ok fc w" and "calm w" and "worker w \<noteq> None" and "acquire_wait n w = (Inr (), w1)"
  shows "worker w1 \<noteq> None" and "calm w1"
proof -
  obtain wk where wk: "worker w = Some wk" "files wk \<noteq> []" "tx_alive w"
    using assms(1,3) by (auto simp: client_inv_def)
  have "worker (run w) \<noteq> None" using calm_run [OF wk(1,2) assms(2)] wk(3) by auto
  moreover have "calm (run w)" using calm_after_run [OF assms(2)] wk by simp
  ultimately have "worker w1 \<noteq> None \<and> calm w1"
    using assms(2,3,4) by (auto simp: acquire_wait_def Let_def calm_def split: option.splits)
  then show "worker w1 \<noteq> None" "calm w1" by auto
qed

lemma send_enqueue_calm:
  assumes "length (channel w) < CHANNEL_CAPACITY" and "send_enqueue n rq (fc, w) = (r, (fc', w'))"
    and "calm w" and "worker w \<noteq> None"
  shows "script w' = []" and "panic_on w' = (\<lambda>_. False)" and "(\<And>q. rq \<noteq> RemoveChunks q) \<Longrightarrow> calm w'"
proof -
  obtain t w1 where now: "instant_now w = (Inr t, w1)" "calm w1" and fr: "frame w1 = frame w"
    by (rule calm_instant [OF assms(3)]) (use instant_now_channel(1) in blast)
  have ch: "channel w1 = channel w" "worker w1 = worker w" using fr by (simp_all add: frame_def)
  then have w': "w' = w1\<lparr>channel := channel w1 @ [\<lparr> seq = fc_sent_seq fc', queued_at = t, req = rq \<rparr>]\<rparr>"
    using assms now by (auto simp: send_enqueue_def Let_def io_bind_app channel_send_def split: if_splits)
  show "script w' = []" "panic_on w' = (\<lambda>_. False)" using now(2) by (simp_all add: w' calm_def)
  show "calm w'" if "\<And>q. rq \<noteq> RemoveChunks q"
    using now(2) that by (auto simp: w' calm_def plain_def split: worker_request.splits)
qed

text \<open>
  Sending: the request is behind the others in the channel, or the worker has stopped and the files
  are settled.
\<close>

definition can_send :: "flush_client \<Rightarrow> ('cb, 'c) world \<Rightarrow> nat \<Rightarrow> bool" where
  "can_send fc w n = (client_ok fc w \<and> fc_tx fc \<and> length (channel w) < CHANNEL_CAPACITY \<and>
     list_all plain (channel w) \<and> used_bytes w + n < 2 ^ 64 \<and> fc_sent_seq fc + 1 < 2 ^ 64)"

lemma send_flow:
  assumes "flow ts w" and "can_send fc w (length (req_data rq))"
  obtains (ok) fc' w1 w' sr where "send rq (fc, w) = (Inr (), (fc', w'))" "client_ok fc' w'" "fc_tx fc'"
      "fc_sent_seq fc' = fc_sent_seq fc + 1"
      "flow ts w1" "ends_synced w \<Longrightarrow> ends_synced w1" "dir_frame w1 = dir_frame w" "dir_frame w' = dir_frame w"
      "inode w' = inode w1" "worker w' = worker w1" "channel w' = channel w1 @ [sr]" "req sr = rq"
      "channel w1 = channel w \<or> channel w1 = []" "calm w \<Longrightarrow> (\<And>q. rq \<noteq> RemoveChunks q) \<Longrightarrow> calm w'"
      "calm w \<Longrightarrow> script w' = [] \<and> panic_on w' = (\<lambda>_. False)"
      "\<And>f. f \<notin> fst ` set ts \<Longrightarrow> untouched w (f, []) \<Longrightarrow> untouched w1 (f, [])"
  | (dead) fc' w' where "send rq (fc, w) = (Inl (Err Other), (fc', w'))" "client_ok fc' w'" "fc_tx fc'" "worker w' = None"
      "settled ts w'" "dir_frame w' = dir_frame w" "\<not> calm w"
proof -
  note cs = assms(2) [unfolded can_send_def]
  obtain r fc' w1 w' where s: "send rq (fc, w) = (r, (fc', w'))" "client_ok fc' w'" "sent rq r fc fc' w1 w'"
    "acquire_wait (length (req_data rq)) w = (Inr (), w1)" "channel w1 = channel w \<or> channel w1 = []"
    by (rule send_cases [of fc w rq]) (use cs in auto)
  note fl = acquire_wait_flow [OF assms(1) _ _ s(4)]
  have fl1: "settled ts w1" "worker w1 \<noteq> None \<Longrightarrow> flow ts w1" "dir_frame w1 = dir_frame w"
    "ends_synced w \<Longrightarrow> worker w1 \<noteq> None \<Longrightarrow> ends_synced w1"
    using fl(1-3,5) cs by blast+
  have un: "\<And>f. f \<notin> fst ` set ts \<Longrightarrow> untouched w (f, []) \<Longrightarrow> untouched w1 (f, [])" using fl(4) cs by blast
  have room: "length (channel w1) < CHANNEL_CAPACITY" using s(5) cs by (auto simp: CHANNEL_CAPACITY_def)
  have enq: "send_enqueue (length (req_data rq)) rq (fc, w1) = (r, (fc', w'))"
    using s(1,4) cs by (simp add: send_def req_data_reserved)
  have dir: "dir_frame w' = dir_frame w" using send_enqueue_dir [OF room enq] fl1(3) by simp
  have alive: "worker w \<noteq> None" using assms(1) by (auto simp: flow_def)
  note cw = acquire_wait_calm [OF _ _ alive s(4), of fc]
  have ino: "inode w' = inode w1" using s(3) by (simp add: sent_def)
  show thesis
  proof (cases "worker w1")
    case None
    then have "r = Inl (Err Other)" "worker w' = None" "fc_tx fc'" using s(3) cs by (simp_all add: sent_def)
    moreover have "\<not> calm w" using cw(1) cs None by blast
    ultimately show ?thesis using dead s(1,2) fl1(1) flow_cong(1) [OF ino] dir by blast
  next
    case (Some wk)
    then obtain t where r: "r = Inr ()" "worker w' = worker w1" "fc_tx fc' = fc_tx fc" "fc_sent_seq fc' = fc_sent_seq fc + 1"
      "channel w' = channel w1 @ [\<lparr> seq = fc_sent_seq fc + 1, queued_at = t, req = rq \<rparr>]"
      using s(3) by (auto simp: sent_def)
    have a: "worker w1 \<noteq> None" using Some by simp
    have c: "calm w'" if "calm w" "\<And>q. rq \<noteq> RemoveChunks q"
      using send_enqueue_calm(3) [OF room enq cw(2) a] that cs by blast
    have c': "script w' = [] \<and> panic_on w' = (\<lambda>_. False)" if "calm w"
      using send_enqueue_calm(1,2) [OF room enq cw(2) a] that cs by blast
    have tx: "fc_tx fc'" using cs r(3) by simp
    have rq: "req \<lparr> seq = fc_sent_seq fc + 1, queued_at = t, req = rq \<rparr> = rq" by simp
    show ?thesis
      by (rule ok [OF s(1) [unfolded r(1)] s(2) tx r(4) fl1(2) [OF a] fl1(4) [OF _ a] fl1(3) dir ino r(2,5) rq s(5) c c' un])
  qed
qed

text \<open>Only the target files matter.\<close>

lemma flow_other_files:
  assumes "flow ts w" and "\<forall>f \<in> fst ` set ts. inode w' f = inode w f" and "worker w' = worker w"
    and "channel w' = channel w"
  shows "flow ts w'" and "ends_synced w' = ends_synced w"
proof -
  obtain wk pre c post where wk: "worker w = Some wk" "ts = pre @ c # post" "flow_at wk pre c post w"
    using assms(1) unfolding flow_def by blast
  then have same: "inode w' (fst t) = inode w (fst t)" if "t \<in> set pre \<or> t = c \<or> t \<in> set post" for t
    using assms(2) that by auto
  have all: "list_all (landed w') pre = list_all (landed w) pre"
    "list_all (untouched w') post = list_all (untouched w) post"
    "list_all (\<lambda>t. content_of w' (fst t) @ routed (fst c) (channel w) (fst t) = snd t) (c # post) =
     list_all (\<lambda>t. content_of w (fst t) @ routed (fst c) (channel w) (fst t) = snd t) (c # post)"
    using same by (auto simp: list_all_iff landed_def untouched_def clean_def)
  have "clean w' (fst c) = clean w (fst c)" "inode w' (fst c) = inode w (fst c)"
    using same [of c] by (simp_all add: clean_def)
  then have "flow_at wk pre c post w'" and "ends_synced w' = ends_synced w"
    using wk all assms(3,4) unfolding flow_at_def ends_synced_def by auto
  then show "flow ts w'" "ends_synced w' = ends_synced w" using wk(1,2) assms(3) unfolding flow_def by metis+
qed

end
