(* ===== verification/Wal_Inv.thy ===== *)
theory Wal_Inv
  imports Recovery_Open Write_Flow
begin

text \<open>
  The invariant of a log in use and its abstract specification: the log is a list of chunks with their
  records, \<open>append\<close> adds a record to the last one, closing a full chunk adds a chunk that starts with a
  checkpoint. The operations of \<open>src/wal/chunked_wal.rs\<close> refine this specification as long as the flush
  worker runs; when it has stopped, the files are settled.
\<close>

section \<open>The invariant\<close>

definition targets :: "('a, 'c) wal_types \<Rightarrow> ('a, 'c) disk_chunk list \<Rightarrow> byte list \<Rightarrow> target list" where
  "targets W ds out =
     map (\<lambda>d. (dc_file d, log_bytes W (dc_records d))) (butlast ds) @ [(dc_file (last ds), out)]"

text \<open>The directory lists exactly the chunks \<open>ds\<close>, and all of it is committed.\<close>

definition dir_holds :: "config \<Rightarrow> 'z fs_scheme \<Rightarrow> ('a, 'c) disk_chunk list \<Rightarrow> bool" where
  "dir_holds cfg w ds =
     (wf_fs w \<and> synced_entries w = entries w \<and> dir cfg \<in> set (dirs w) \<and>
      list_all (\<lambda>d. lookup w (chunk_path cfg (dc_id d)) = Some (dc_file d)) ds \<and>
      mset (chunk_ids_of (dir_names (dir cfg) w)) = mset (map dc_id ds))"

definition wal_inv :: "('a, 'c) wal_types \<Rightarrow> 'c chunked_wal \<Rightarrow> ('cb, 'c) world \<Rightarrow> ('a, 'c) disk_chunk list \<Rightarrow>
    byte list \<Rightarrow> bool" where
  "wal_inv W wal w ds out =
     (wal_holds W wal ds out \<and> client_ok (wal_client wal) w \<and> list_all plain (channel w) \<and>
      dir_holds (wal_config wal) w ds \<and> flow (targets W ds out) w)"

lemma dir_holds_cong:
  assumes "dir_frame w' = dir_frame w"
  shows "dir_holds cfg w' ds = dir_holds cfg w ds"
  using assms by (simp add: dir_holds_def dir_frame_def wf_fs_def dir_names_def)

lemma targets_snoc: "targets W (ds @ [d]) out = map (\<lambda>d. (dc_file d, log_bytes W (dc_records d))) ds @ [(dc_file d, out)]"
  by (simp add: targets_def)

section \<open>Appending\<close>

text \<open>The specification of \<open>append\<close>.\<close>

definition add_record :: "('a, 'c) wal_record \<Rightarrow> ('a, 'c) disk_chunk list \<Rightarrow> ('a, 'c) disk_chunk list" where
  "add_record r ds = butlast ds @ [(last ds)\<lparr>dc_records := dc_records (last ds) @ [r]\<rparr>]"

lemma consecutive_replace_last:
  "consecutive W (ds @ [d]) \<Longrightarrow> dc_id e = dc_id d \<Longrightarrow> consecutive W (ds @ [e])"
  by (induction ds rule: consecutive.induct) auto

lemma wal_append_rejected:
  "\<not> encodable W r \<Longrightarrow> \<exists>e. wal_append W r (wal, w) = (Inl (Err e), (wal, w))"
  using append_record_rejected [of W r "wal_open wal"] by (auto simp: wal_append_def)

lemma wal_holds_append:
  assumes "wal_types W" and "wal_holds W wal ds out" and "encodable W r"
    and "dc_end W (last ds) + length (bytes_of W r) < 2 ^ 64"
  shows "\<exists>op. wal_append W r (wal, w) = (Inr (), (wal\<lparr>wal_open := op\<rparr>, w)) \<and>
    wal_holds W (wal\<lparr>wal_open := op\<rparr>) (add_record r ds) out"
proof -
  note h = assms(2) [unfolded wal_holds_def]
  obtain init d where ds: "ds = init @ [d]" using h by (cases ds rule: rev_cases) auto
  then have hold: "open_holds W (offset (dc_id d)) (dc_records d) out (wal_open wal)" using h by simp
  have "offset (dc_id d) + length (log_bytes W (dc_records d)) + length (bytes_of W r) < 2 ^ 64"
    using assms(4) ds by (simp add: dc_end_def)
  from wal_types.append_record_holds [OF assms(1) hold assms(3) this] obtain op where
    op: "append_record W (wal_open wal) r =
       (Inr (Segment (offset (dc_id d) + length (log_bytes W (dc_records d))) (length (bytes_of W r))), op)"
    "open_holds W (offset (dc_id d)) (dc_records d @ [r]) out op"
    "chunk_file (oc_chunk op) = chunk_file (oc_chunk (wal_open wal))" by blast
  let ?e = "d\<lparr>dc_records := dc_records d @ [r]\<rparr>"
  have "consecutive W (init @ [?e])" using consecutive_replace_last [of W init d ?e] h ds by simp
  moreover have "dc_ok W ?e" using h ds assms(3,4) by (auto simp: dc_ok_def dc_end_def)
  ultimately have "wal_holds W (wal\<lparr>wal_open := op\<rparr>) (add_record r ds) out"
    using h ds op by (simp add: wal_holds_def add_record_def)
  then show ?thesis using op(1) by (auto simp: wal_append_def)
qed

lemma wal_inv_append:
  assumes "wal_types W" and "wal_inv W wal w ds out" and "encodable W r"
    and "dc_end W (last ds) + length (bytes_of W r) < 2 ^ 64"
  shows "\<exists>wal'. wal_append W r (wal, w) = (Inr (), (wal', w)) \<and> wal_inv W wal' w (add_record r ds) out"
proof -
  obtain op where op: "wal_append W r (wal, w) = (Inr (), (wal\<lparr>wal_open := op\<rparr>, w))"
    "wal_holds W (wal\<lparr>wal_open := op\<rparr>) (add_record r ds) out"
    using wal_holds_append [OF assms(1) _ assms(3,4)] assms(2) unfolding wal_inv_def by blast
  have ne: "ds \<noteq> []" using assms(2) by (simp add: wal_inv_def wal_holds_def)
  have "dir_holds cfg w (add_record r ds) = dir_holds cfg w ds" for cfg
    using ne by (cases ds rule: rev_cases) (simp_all add: dir_holds_def add_record_def)
  moreover have "targets W (add_record r ds) out = targets W ds out"
    by (simp add: targets_def add_record_def)
  ultimately show ?thesis using op assms(2) unfolding wal_inv_def by auto
qed

section \<open>Sending\<close>

text \<open>Space for \<open>k\<close> more requests with \<open>n\<close> bytes.\<close>

definition has_room :: "flush_client \<Rightarrow> ('cb, 'c) world \<Rightarrow> nat \<Rightarrow> nat \<Rightarrow> bool" where
  "has_room fc w k n = (length (channel w) + k \<le> CHANNEL_CAPACITY \<and> used_bytes w + n < 2 ^ 64 \<and>
     fc_sent_seq fc + k < 2 ^ 64)"

lemma queue_bytes_snoc: "queue_bytes (q @ [sr]) = queue_bytes q + length (req_data (req sr))"
  by (simp add: queue_bytes_def)

lemma plain_snoc: "list_all plain q \<Longrightarrow> (\<And>p. req sr \<noteq> RemoveChunks p) \<Longrightarrow> list_all plain (q @ [sr])"
  by (auto simp: plain_def split: worker_request.splits)

text \<open>
  A request is queued behind the others, or the worker stops at the latest while \<open>send\<close> waits for it:
  then the files are settled and \<open>send\<close> fails. The second case needs a fault of the kernel.
\<close>

lemma inv_send:
  fixes w :: "('cb, 'c) world"
  assumes flow: "flow ts w" and client: "client_ok fc w" and pl: "list_all plain (channel w)"
    and room: "has_room fc w (Suc k) (length (req_data rq) + n)" and rq: "\<And>q. rq \<noteq> RemoveChunks q"
  obtains (ok) fc' w1 w' sr where "send rq (fc, w) = (Inr (), (fc', w'))" "client_ok fc' w'"
    "has_room fc' w' k n" "flow ts w1" "ends_synced w \<longrightarrow> ends_synced w1"
    "dir_frame w1 = dir_frame w" "dir_frame w' = dir_frame w" "inode w' = inode w1" "worker w' = worker w1"
    "channel w' = channel w1 @ [sr]" "req sr = rq" "list_all plain (channel w')" "calm w \<longrightarrow> calm w'"
    "\<forall>f. f \<notin> fst ` set ts \<and> untouched w (f, []) \<longrightarrow> untouched w1 (f, [])"
  | (dead) fc' w' where "send rq (fc, w) = (Inl (Err Other), (fc', w'))" "client_ok fc' w'" "fc_tx fc'"
    "worker w' = None" "settled ts w'" "dir_frame w' = dir_frame w" "\<not> calm w"
proof -
  have "fc_tx fc" using flow client by (auto simp: flow_def client_inv_def)
  then have cs: "can_send fc w (length (req_data rq))"
    using client room pl by (simp add: can_send_def has_room_def)
  show thesis
  proof (rule send_flow [OF flow cs])
    fix fc' and w1 w' :: "('cb, 'c) world" and sr
    assume s: "send rq (fc, w) = (Inr (), (fc', w'))" "client_ok fc' w'" "fc_tx fc'"
      "fc_sent_seq fc' = fc_sent_seq fc + 1" "flow ts w1"
      "ends_synced w \<Longrightarrow> ends_synced w1" "dir_frame w1 = dir_frame w" "dir_frame w' = dir_frame w" "inode w' = inode w1"
      "worker w' = worker w1" "channel w' = channel w1 @ [sr]" "req sr = rq" "channel w1 = channel w \<or> channel w1 = []"
      "calm w \<Longrightarrow> (\<And>q. rq \<noteq> RemoveChunks q) \<Longrightarrow> calm w'"
      "calm w \<Longrightarrow> script w' = [] \<and> panic_on w' = (\<lambda>_. False)"
      "\<And>f. f \<notin> fst ` set ts \<Longrightarrow> untouched w (f, []) \<Longrightarrow> untouched w1 (f, [])"
    have "used_bytes w' = queue_bytes (channel w')" "used_bytes w = queue_bytes (channel w)"
      using s(2) client by (auto simp: client_inv_def)
    then have "used_bytes w' \<le> used_bytes w + length (req_data rq)"
      using s(11-13) by (auto simp: queue_bytes_snoc queue_bytes_def)
    moreover have "length (channel w') \<le> length (channel w) + 1" using s(11,13) by auto
    ultimately have "has_room fc' w' k n" using room s(4) by (simp add: has_room_def)
    moreover have "list_all plain (channel w')" using plain_snoc [of "channel w1" sr] s(11-13) pl rq by auto
    ultimately show thesis using s(6,14,16) rq by (intro ok [OF s(1,2) _ s(5) _ s(7-12)]) auto
  next
    fix fc' and w' :: "('cb, 'c) world"
    assume "send rq (fc, w) = (Inl (Err Other), (fc', w'))" "client_ok fc' w'" "fc_tx fc'" "worker w' = None"
      "settled ts w'" "dir_frame w' = dir_frame w" "\<not> calm w"
    then show thesis by (rule dead)
  qed
qed

text \<open>
  A log whose worker has stopped: the files are settled, and the log in memory may hold more records
  than ever reach them, because a flush that failed has taken the buffer.
\<close>

definition wal_stopped :: "('a, 'c) wal_types \<Rightarrow> 'c chunked_wal \<Rightarrow> ('cb, 'c) world \<Rightarrow> ('a, 'c) disk_chunk list \<Rightarrow> bool" where
  "wal_stopped W wal w ds =
     (worker w = None \<and> client_ok (wal_client wal) w \<and> fc_tx (wal_client wal) \<and> dir_holds (wal_config wal) w ds \<and>
      (\<exists>out. wal_holds W wal ds out) \<and>
      (\<exists>out. prefix out (log_bytes W (dc_records (last ds))) \<and> settled (targets W ds out) w))"

lemma wal_holds_out_prefix: "wal_holds W wal ds out \<Longrightarrow> prefix out (log_bytes W (dc_records (last ds)))"
  unfolding wal_holds_def open_holds_def by (metis prefixI)

text \<open>A flush takes the buffer: afterwards, all bytes have left the open chunk.\<close>

lemma wal_holds_taken:
  assumes "wal_holds W wal ds out"
  shows "wal_holds W (wal\<lparr>wal_open := (wal_open wal)\<lparr>pending_data := []\<rparr>, wal_client := fc\<rparr>) ds
    (log_bytes W (dc_records (last ds)))"
  using assms by (simp add: wal_holds_def open_holds_def)

lemma send_pending_send:
  "send_pending sync cb (wal, w) =
     (case send (Write \<lparr> upto_offset = global_end (oc_chunk (wal_open wal)), wr_data = pending_data (wal_open wal),
         wr_sync = sync, wr_callback = cb \<rparr>) (wal_client wal, w) of
        (r, (fc, w')) \<Rightarrow> (r, (wal\<lparr>wal_open := (wal_open wal)\<lparr>pending_data := []\<rparr>, wal_client := fc\<rparr>, w')))"
  by (simp add: send_pending_def take_pending_data_def send_request_def Let_def split: prod.splits)

text \<open>The invariant without the directory, which the requests of a flush do not touch.\<close>

definition wal_live :: "('a, 'c) wal_types \<Rightarrow> 'c chunked_wal \<Rightarrow> ('cb, 'c) world \<Rightarrow> ('a, 'c) disk_chunk list \<Rightarrow>
    byte list \<Rightarrow> bool" where
  "wal_live W wal w ds out =
     (wal_holds W wal ds out \<and> client_ok (wal_client wal) w \<and> list_all plain (channel w) \<and> flow (targets W ds out) w)"

lemma wal_inv_live: "wal_inv W wal w ds out \<longleftrightarrow> wal_live W wal w ds out \<and> dir_holds (wal_config wal) w ds"
  by (auto simp: wal_inv_def wal_live_def)

lemma send_live_cases:
  fixes w :: "('cb, 'c) world"
  assumes live: "wal_live W wal w ds out"
    and room: "has_room (wal_client wal) w (Suc k) (length (pending_data (wal_open wal)) + n)"
  obtains (ok) wal' w' where "send_pending sync cb (wal, w) = (Inr (), (wal', w'))"
    "wal_live W wal' w' ds (log_bytes W (dc_records (last ds)))" "calm w \<longrightarrow> calm w'" "sync \<longrightarrow> ends_synced w'"
    "has_room (wal_client wal') w' k n" "wal_config wal' = wal_config wal" "dir_frame w' = dir_frame w"
  | (dead) wal' w' where "send_pending sync cb (wal, w) = (Inl (Err Other), (wal', w'))"
    "worker w' = None" "client_ok (wal_client wal') w'" "fc_tx (wal_client wal')"
    "wal_holds W wal' ds (log_bytes W (dc_records (last ds)))" "prefix out (log_bytes W (dc_records (last ds)))"
    "settled (targets W ds out) w'" "wal_config wal' = wal_config wal" "dir_frame w' = dir_frame w" "\<not> calm w"
proof -
  let ?x = "\<lparr> upto_offset = global_end (oc_chunk (wal_open wal)), wr_data = pending_data (wal_open wal),
     wr_sync = sync, wr_callback = cb \<rparr>"
  let ?ts = "targets W ds out" and ?L = "log_bytes W (dc_records (last ds))"
  let ?wal = "\<lambda>fc. wal\<lparr>wal_open := (wal_open wal)\<lparr>pending_data := []\<rparr>, wal_client := fc\<rparr>"
  note i = live [unfolded wal_live_def]
  have h: "wal_holds W wal ds out" using i by blast
  then have out: "out @ pending_data (wal_open wal) = ?L" and ne: "ds \<noteq> []"
    by (auto simp: wal_holds_def open_holds_def)
  have fl: "flow ?ts w" and cl: "client_ok (wal_client wal) w" and pl: "list_all plain (channel w)" using i by blast+
  have rm: "has_room (wal_client wal) w (Suc k) (length (req_data (Write ?x)) + n)" using room by (simp add: req_data_def)
  have no: "Write ?x \<noteq> RemoveChunks q" for q :: "string list" by simp
  show thesis
  proof (cases rule: inv_send [OF fl cl pl rm no])
    case (1 fc' w1 w' sr)
    have "flow (targets W ds ?L) w'"
      using flow_write [OF 1(4) [unfolded targets_def] 1(8-11)] out by (simp add: targets_def)
    then have "wal_live W (?wal fc') w' ds ?L"
      using wal_holds_taken [OF h] 1(2,12) by (simp add: wal_live_def)
    moreover have "sync \<longrightarrow> ends_synced w'"
      using ends_synced_request [OF 1(8,9) _ 1(10)] 1(4,11) by (auto simp: sync_step_def flow_def)
    ultimately show ?thesis using ok [of "?wal fc'" w'] 1(1,3,7,13) by (simp add: send_pending_send)
  next
    case (2 fc' w')
    then show ?thesis
      using dead [of "?wal fc'" w'] wal_holds_taken [OF h] wal_holds_out_prefix [OF h] by (simp add: send_pending_send)
  qed
qed

lemma send_pending_cases:
  fixes w :: "('cb, 'c) world"
  assumes inv: "wal_inv W wal w ds out"
    and room: "has_room (wal_client wal) w (Suc k) (length (pending_data (wal_open wal)) + n)"
  obtains (ok) wal' w' where "send_pending sync cb (wal, w) = (Inr (), (wal', w'))"
    "wal_inv W wal' w' ds (log_bytes W (dc_records (last ds)))" "calm w \<longrightarrow> calm w'" "sync \<longrightarrow> ends_synced w'"
    "has_room (wal_client wal') w' k n" "wal_config wal' = wal_config wal" "dir_frame w' = dir_frame w"
  | (dead) wal' w' where "send_pending sync cb (wal, w) = (Inl (Err Other), (wal', w'))"
    "wal_stopped W wal' w' ds" "wal_config wal' = wal_config wal" "dir_frame w' = dir_frame w" "\<not> calm w"
proof -
  have live: "wal_live W wal w ds out" and dir: "dir_holds (wal_config wal) w ds" using inv by (simp_all add: wal_inv_live)
  show thesis
  proof (cases rule: send_live_cases [OF live room, where sync = sync and cb = cb])
    case (1 wal' w')
    have "dir_holds (wal_config wal) w' ds" unfolding dir_holds_cong [OF 1(7)] by (rule dir)
    then show ?thesis using ok 1 by (simp add: wal_inv_live)
  next
    case (2 wal' w')
    have "dir_holds (wal_config wal) w' ds" unfolding dir_holds_cong [OF 2(9)] by (rule dir)
    then have "wal_stopped W wal' w' ds" using 2 unfolding wal_stopped_def by auto
    then show ?thesis using dead 2 by simp
  qed
qed

lemma send_pending_inv:
  fixes w :: "('cb, 'c) world"
  assumes inv: "wal_inv W wal w ds out"
    and room: "has_room (wal_client wal) w (Suc k) (length (pending_data (wal_open wal)) + n)" and "calm w"
  obtains wal' w' where "send_pending sync cb (wal, w) = (Inr (), (wal', w'))"
    "wal_inv W wal' w' ds (log_bytes W (dc_records (last ds)))" "calm w'" "sync \<longrightarrow> ends_synced w'"
    "has_room (wal_client wal') w' k n" "wal_config wal' = wal_config wal" "dir_frame w' = dir_frame w"
  by (cases rule: send_pending_cases [OF inv room, where sync = sync and cb = cb]) (use assms(3) that in blast)+

section \<open>Closing a full chunk\<close>

lemma wal_holds_open:
  assumes "wal_holds W wal ds out"
  shows "oc_chunk (wal_open wal) = dc_loaded W (truncated (oc_chunk (wal_open wal))) (last ds)"
  using assms by (cases "oc_chunk (wal_open wal)")
    (simp add: wal_holds_def open_holds_def dc_loaded_def loaded_def)

lemma inv_end_free:
  assumes "wal_types W" and "wal_holds W wal ds out" and "dir_holds cfg w ds"
  shows "lookup w (chunk_path cfg (ChunkId (dc_end W (last ds)))) = None"
proof -
  have ne: "ds \<noteq> []" and cons: "consecutive W ds" and ok: "list_all (dc_ok W) ds"
    using assms(2) by (auto simp: wal_holds_def)
  have okl: "dc_ok W (last ds)" using ok ne by (simp add: list_all_iff)
  have "dc_id d \<noteq> ChunkId (dc_end W (last ds))" if "d \<in> set ds" for d
    using consecutive_sorted [OF assms(1) cons ok] that ne dc_end_greater [OF assms(1) okl]
    by (cases ds rule: rev_cases) (auto simp: sorted_wrt_append less_chunk_id_def)
  then have "ChunkId (dc_end W (last ds)) \<notin> set (map dc_id ds)" by (metis imageE list.set_map)
  moreover have "set (chunk_ids_of (dir_names (dir cfg) w)) = set (map dc_id ds)"
    using assms(3) by (metis dir_holds_def set_mset_mset)
  ultimately show ?thesis
    using chunk_listed [of w cfg "ChunkId (dc_end W (last ds))"] okl by (fastforce simp: dc_ok_def)
qed

text \<open>The world after the file of the next chunk was created.\<close>

definition with_file :: "config \<Rightarrow> chunk_id \<Rightarrow> 'z fs_scheme \<Rightarrow> 'z fs_scheme" where
  "with_file cfg cid w =
     (new_file (chunk_path cfg cid) w)\<lparr>synced_entries := entries w @ [(chunk_path cfg cid, next_ino w)]\<rparr>"

lemma with_file_world [simp]:
  "channel (with_file cfg cid w) = channel w" "worker (with_file cfg cid w) = worker w"
  "wstate (with_file cfg cid w) = wstate w" "tx_alive (with_file cfg cid w) = tx_alive w"
  "panic_on (with_file cfg cid w) = panic_on w" "script (with_file cfg cid w) = script w"
  by (cases w; simp add: with_file_def new_file_def set_inode_def)+

lemma with_file_inode [simp]:
  "inode (with_file cfg cid s) i = (if i = next_ino s then \<lparr>content = [], synced = []\<rparr> else inode s i)"
  by (simp add: with_file_def)

lemma dir_holds_with_file:
  assumes "dir_holds cfg w ds" and "lookup w (chunk_path cfg (dc_id n)) = None" and "offset (dc_id n) < 2 ^ 64"
    and "dc_file n = next_ino w"
  shows "dir_holds cfg (with_file cfg (dc_id n) w) (ds @ [n])"
proof -
  let ?w = "with_file cfg (dc_id n) w"
  have "wf_fs ?w" using wf_fs_new_file [of w] assms(1,2) by (simp add: dir_holds_def with_file_def wf_fs_def)
  moreover have "chunk_ids_of (dir_names (dir cfg) ?w) = chunk_ids_of (dir_names (dir cfg) w) @ [dc_id n]"
    using entry_ids_chunk_path [OF assms(3)] by (simp add: chunk_ids_entries with_file_def)
  moreover have "lookup ?w p = (if p = chunk_path cfg (dc_id n) then Some (next_ino w) else lookup w p)" for p
    using assms(2) by (auto simp: with_file_def map_add_def split: option.splits)
  ultimately show ?thesis
    using assms by (auto simp: dir_holds_def list_all_iff with_file_def)
qed

lemma inv_files_below:
  assumes "dir_holds cfg w ds" and "d \<in> set ds"
  shows "dc_file d < next_ino w"
  using assms wf_fs_lookup_bound [of w "chunk_path cfg (dc_id d)"] by (auto simp: dir_holds_def list_all_iff)

lemma fst_targets: "ds \<noteq> [] \<Longrightarrow> fst ` set (targets W ds out) = dc_file ` set ds"
  by (cases ds rule: rev_cases) (auto simp: targets_def image_iff)

lemma send_pending_closed:
  "send_pending sync cb (wal\<lparr>wal_closed := c\<rparr>, w) =
     (case send_pending sync cb (wal, w) of (r, (wal', w')) \<Rightarrow> (r, (wal'\<lparr>wal_closed := c\<rparr>, w')))"
  by (simp add: send_pending_def take_pending_data_def send_request_def split: prod.splits)

lemma send_pending_keeps_closed:
  "send_pending sync cb (wal, w) = (r, (wal', w')) \<Longrightarrow> wal_closed wal' = wal_closed wal"
  by (auto simp: send_pending_def take_pending_data_def send_request_def split: prod.splits)

lemma send_pending_chunk:
  "send_pending sync cb (wal, w) = (r, (wal', w')) \<Longrightarrow> oc_chunk (wal_open wal') = oc_chunk (wal_open wal)"
  by (auto simp: send_pending_def take_pending_data_def send_request_def split: prod.splits)

lemma closed_keys_below:
  assumes "wal_types W" and "wal_holds W wal ds out"
  shows "\<forall>j \<in> fst ` set (wal_closed wal). j < dc_id (last ds)"
proof -
  have ne: "ds \<noteq> []" and srt: "sorted_wrt (<) (map dc_id ds)"
    using assms consecutive_sorted by (auto simp: wal_holds_def)
  have "map fst (wal_closed wal) = map dc_id (butlast ds)"
    using assms(2) by (auto simp: wal_holds_def closed_match_def list_all2_conv_all_nth intro: nth_equalityI)
  then have "fst ` set (wal_closed wal) = dc_id ` set (butlast ds)" by (metis list.set_map)
  then show ?thesis
    using srt ne by (cases ds rule: rev_cases) (auto simp: sorted_wrt_append)
qed

lemma closed_insert_last:
  assumes "wal_types W" and "wal_holds W wal ds out"
  shows "bt_insert (dc_id (last ds)) v (wal_closed wal) = wal_closed wal @ [(dc_id (last ds), v)]"
  by (rule bt_insert_last) (rule closed_keys_below [OF assms])

abbreviation chunk_target :: "('a, 'c) wal_types \<Rightarrow> ('a, 'c) disk_chunk \<Rightarrow> target" where
  "chunk_target W d \<equiv> (dc_file d, log_bytes W (dc_records d))"

lemma targets_full: "ds \<noteq> [] \<Longrightarrow> targets W ds (log_bytes W (dc_records (last ds))) = map (chunk_target W) ds"
  by (cases ds rule: rev_cases) (simp_all add: targets_def)

text \<open>The successor of the last chunk, with its first record.\<close>

definition next_chunk :: "('a, 'c) wal_types \<Rightarrow> ('a, 'c) disk_chunk list \<Rightarrow> nat \<Rightarrow> 'c \<Rightarrow> ('a, 'c) disk_chunk" where
  "next_chunk W ds f ck =
     \<lparr> dc_id = ChunkId (dc_end W (last ds)), dc_file = f, dc_records = [Checkpoint ck] \<rparr>"

lemma wal_live_script: "wal_live W wal (w\<lparr>script := sc\<rparr>) ds out = wal_live W wal w ds out"
proof -
  have "flow (targets W ds out) (w\<lparr>script := sc\<rparr>) = flow (targets W ds out) w"
    using flow_cong(2) [of "w\<lparr>script := sc\<rparr>" w] by (simp add: fun_eq_iff)
  then show ?thesis by (simp add: wal_live_def client_inv_def split: option.splits)
qed

lemma wal_inv_script: "wal_inv W wal (w\<lparr>script := sc\<rparr>) ds out = wal_inv W wal w ds out"
proof -
  have "dir_frame (w\<lparr>script := sc\<rparr>) = dir_frame w" by (simp add: dir_frame_def)
  then have "dir_holds (wal_config wal) (w\<lparr>script := sc\<rparr>) ds = dir_holds (wal_config wal) w ds" by (rule dir_holds_cong)
  then show ?thesis by (simp add: wal_inv_live wal_live_script)
qed

lemma ends_synced_script: "ends_synced (w\<lparr>script := sc\<rparr>) = ends_synced w"
  using flow_cong(2) [of "w\<lparr>script := sc\<rparr>" w "[]"] by (simp add: fun_eq_iff)

lemma has_room_script: "has_room fc (w\<lparr>script := sc\<rparr>) k n = has_room fc w k n"
  by (simp add: has_room_def)

text \<open>The new file: created and committed, or not created, or created and left behind by an error.\<close>

lemma create_empty_cases:
  fixes w :: "('cb, 'c) world"
  obtains (made) sc where "create_empty cfg cid w = (Inr (from_file cid (next_ino w)), with_file cfg cid (w\<lparr>script := sc\<rparr>))"
    "script w = [] \<longrightarrow> sc = []" "lookup w (chunk_path cfg cid) = None"
  | (failed) e sc where "create_empty cfg cid w = (Inl e, w\<lparr>script := sc\<rparr>)"
    "script w \<noteq> [] \<or> lookup w (chunk_path cfg cid) \<noteq> None \<or> dir cfg \<notin> set (dirs w)"
  | (left) e sc where "create_empty cfg cid w = (Inl e, (new_file (chunk_path cfg cid) w)\<lparr>script := sc\<rparr>)"
    "script w \<noteq> [] \<or> dir cfg \<notin> set (dirs w)" "lookup w (chunk_path cfg cid) = None"
proof (cases "create_file cfg cid w")
  case (Pair r w')
  note defs = create_file_def sync_dir_def open_create_new_def syscall_def io_bind_app new_file_def set_inode_def
    fs.defs world.defs
  show thesis
  proof (cases r)
    case (Inr f)
    note c = create_file_cases [OF Pair [unfolded Inr]]
    have "\<exists>sc. w' = with_file cfg cid (w\<lparr>script := sc\<rparr>) \<and> (script w = [] \<longrightarrow> sc = [])"
      using Pair Inr
      by (cases w) (auto simp: defs with_file_def split: list.splits sys_outcome.splits if_splits)
    then show ?thesis using made Pair Inr c(1,2) by (auto simp: create_empty_def io_bind_app)
  next
    case (Inl e)
    have "script w \<noteq> [] \<or> lookup w (chunk_path cfg cid) \<noteq> None \<or> dir cfg \<notin> set (dirs w)"
      using Pair Inl create_file_calm [of w cfg cid] by auto
    moreover have "(\<exists>sc. w' = w\<lparr>script := sc\<rparr>) \<or>
        ((\<exists>sc. w' = (new_file (chunk_path cfg cid) w)\<lparr>script := sc\<rparr>) \<and> lookup w (chunk_path cfg cid) = None \<and>
         (script w \<noteq> [] \<or> dir cfg \<notin> set (dirs w)))"
      using Pair Inl by (cases w) (auto simp: defs split: list.splits sys_outcome.splits if_splits)
    ultimately show ?thesis using failed left Pair Inl by (auto simp: create_empty_def io_bind_app)
  qed
qed

lemma append_file_cases:
  fixes w :: "('cb, 'c) world"
  assumes W: "wal_types W" and live: "wal_live W wal w ds (log_bytes W (dc_records (last ds)))"
    and below: "\<forall>d \<in> set ds. dc_file d < next_ino w"
    and "ends_synced w" and room: "has_room (wal_client wal) w (Suc k) m" and e: "fe_f e = next_ino w"
  obtains (ok) fc' w' where "send_request (AppendFile e) (wal, with_file (wal_config wal) cid w) =
      (Inr (), (wal\<lparr>wal_client := fc'\<rparr>, w'))" "client_ok fc' w'" "list_all plain (channel w')" "calm w \<longrightarrow> calm w'"
    "has_room fc' w' k m" "dir_frame w' = dir_frame (with_file (wal_config wal) cid w)"
    "flow (map (chunk_target W) ds @ [(next_ino w, [])]) w'"
  | (dead) fc' w' where "send_request (AppendFile e) (wal, with_file (wal_config wal) cid w) =
      (Inl (Err Other), (wal\<lparr>wal_client := fc'\<rparr>, w'))" "worker w' = None"
      "dir_frame w' = dir_frame (with_file (wal_config wal) cid w)" "\<not> calm w"
proof -
  let ?w = "with_file (wal_config wal) cid w" and ?ts = "map (chunk_target W) ds"
  note i = live [unfolded wal_live_def]
  have ne: "ds \<noteq> []" using i by (simp add: wal_holds_def)
  have fl: "flow ?ts w" using i targets_full [OF ne, of W] by simp
  have notin: "next_ino w \<notin> fst ` set ?ts" using below by force
  have same: "\<forall>f \<in> fst ` set ?ts. inode ?w f = inode w f"
  proof
    fix f assume "f \<in> fst ` set ?ts"
    then have "f \<noteq> next_ino w" using notin by blast
    then show "inode ?w f = inode w f" by simp
  qed
  have fl': "flow ?ts ?w" and sy: "ends_synced ?w"
    using flow_other_files [OF fl same] assms(4) by simp_all
  have cl: "client_ok (wal_client wal) ?w" using i by (simp add: client_inv_def split: option.splits)
  have pl: "list_all plain (channel ?w)" using i by simp
  have cm: "calm ?w = calm w" by (simp add: calm_def)
  have rm: "has_room (wal_client wal) ?w (Suc k) (length (req_data (AppendFile e :: ('cb, 'c) worker_request)) + m)"
    using room by (simp add: has_room_def req_data_def)
  have no: "AppendFile e \<noteq> (RemoveChunks q :: ('cb, 'c) worker_request)" for q by simp
  show thesis
  proof (cases rule: inv_send [OF fl' cl pl rm no])
    case (1 fc' w1 w' sr)
    have "untouched w1 (fe_f e, [])" using 1(14) [rule_format, of "next_ino w"] notin e by (simp add: untouched_def)
    then have "flow (?ts @ [(fe_f e, [])]) w'"
      using flow_append_file [OF 1(4,8-11)] notin e 1(5) sy by simp
    then show ?thesis using ok 1(1-3,7,12,13) e cm by (simp add: send_request_def)
  next
    case (2 fc' w')
    then show ?thesis using dead cm by (simp add: send_request_def)
  qed
qed

lemma checkpoint_inv:
  assumes W: "wal_types W" and h: "wal_holds W wal ds (log_bytes W (dc_records (last ds)))"
    and n: "n = next_chunk W ds f ck" and ck: "encodable W (Checkpoint ck)"
      "dc_end W (last ds) + length (bytes_of W (Checkpoint ck)) < 2 ^ 64"
  obtains op where "wal_append W (Checkpoint ck) (wal\<lparr>wal_open := from_file (dc_id n) f\<rparr>, w) =
      (Inr (), (wal\<lparr>wal_open := op\<rparr>, w))"
    "wal_holds W (wal\<lparr>wal_open := op, wal_closed := bt_insert (dc_id (last ds))
       (closed_chunk_new (oc_chunk (wal_open wal)) ck) (wal_closed wal)\<rparr>) (ds @ [n]) []"
    "pending_data op = bytes_of W (Checkpoint ck)"
proof -
  have off: "offset (dc_id n) < 2 ^ 64" using n ck(2) by (simp add: next_chunk_def)
  obtain op where op: "append_record W (from_file (dc_id n) f) (Checkpoint ck) =
       (Inr (Segment (offset (dc_id n)) (length (bytes_of W (Checkpoint ck)))), op)"
    "open_holds W (offset (dc_id n)) [Checkpoint ck] [] op" "chunk_file (oc_chunk op) = f"
    using wal_types.append_record_holds [OF W open_holds_from_file [OF off] ck(1), of f] ck(2) n
    by (auto simp: next_chunk_def from_file_def)
  have ap: "wal_append W (Checkpoint ck) (wal\<lparr>wal_open := from_file (dc_id n) f\<rparr>, w) =
      (Inr (), (wal\<lparr>wal_open := op\<rparr>, w))"
    using op(1) by (simp add: wal_append_def)
  have ne: "ds \<noteq> []" using h by (simp add: wal_holds_def)
  have "list_all2 (closed_match W) (bt_insert (dc_id (last ds))
       (closed_chunk_new (oc_chunk (wal_open wal)) ck) (wal_closed wal)) (butlast ds @ [last ds])"
    unfolding closed_insert_last [OF W h] using h closed_match_loaded wal_holds_open [OF h]
    by (metis list_all2_appendI list_all2_Cons list_all2_Nil wal_holds_def)
  moreover have "consecutive W (ds @ [n])"
    using h n by (intro consecutive_snoc) (auto simp: wal_holds_def next_chunk_def)
  moreover have "dc_ok W n" using n ck by (simp add: dc_ok_def dc_end_def next_chunk_def)
  ultimately have "wal_holds W (wal\<lparr>wal_open := op, wal_closed := bt_insert (dc_id (last ds))
       (closed_chunk_new (oc_chunk (wal_open wal)) ck) (wal_closed wal)\<rparr>) (ds @ [n]) []"
    using h op(2,3) ne n by (simp add: wal_holds_def next_chunk_def)
  moreover have "pending_data op = bytes_of W (Checkpoint ck)" using op(2) by (simp add: open_holds_def)
  ultimately show thesis using that ap by blast
qed


text \<open>The new file is handed to the worker behind the synchronised write.\<close>

lemma new_file_cases:
  fixes w :: "('cb, 'c) world"
  assumes W: "wal_types W" and live: "wal_live W wal w ds (log_bytes W (dc_records (last ds)))"
    and below: "\<forall>d \<in> set ds. dc_file d < next_ino w" and dir: "dir (wal_config wal) \<in> set (dirs w)"
    and sy: "ends_synced w" and room: "has_room (wal_client wal) w (Suc k) m"
    and free: "lookup w (chunk_path (wal_config wal) cid) = None"
    and e: "e = file_entry_new (dc_end W (last ds)) (next_ino w) (Some ck)"
  obtains (ok) fc' wm w' where "create_empty (wal_config wal) cid w = (Inr (from_file cid (next_ino w)), wm)"
    "send_request (AppendFile e) (wal, wm) = (Inr (), (wal\<lparr>wal_client := fc'\<rparr>, w'))"
    "client_ok fc' w'" "list_all plain (channel w')" "calm w \<longrightarrow> calm w'" "has_room fc' w' k m"
    "dir_frame w' = dir_frame (with_file (wal_config wal) cid w)" "flow (map (chunk_target W) ds @ [(next_ino w, [])]) w'"
  | (no_file) er sc where "create_empty (wal_config wal) cid w = (Inl er, w\<lparr>script := sc\<rparr>)" "\<not> calm w"
  | (left) er sc where "create_empty (wal_config wal) cid w =
      (Inl er, (new_file (chunk_path (wal_config wal) cid) w)\<lparr>script := sc\<rparr>)" "\<not> calm w"
  | (dead) fc' wm w' where "create_empty (wal_config wal) cid w = (Inr (from_file cid (next_ino w)), wm)"
    "send_request (AppendFile e) (wal, wm) = (Inl (Err Other), (wal\<lparr>wal_client := fc'\<rparr>, w'))" "worker w' = None"
    "dir_frame w' = dir_frame (with_file (wal_config wal) cid w)" "\<not> calm w"
proof (cases rule: create_empty_cases [of "wal_config wal" cid w])
  case (made sc)
  let ?w = "w\<lparr>script := sc\<rparr>"
  have fe: "fe_f e = next_ino ?w" by (simp add: e file_entry_new_def)
  have cm: "calm w \<longrightarrow> calm ?w" using made(2) by (auto simp: calm_def)
  have df: "dir_frame (with_file (wal_config wal) cid ?w) = dir_frame (with_file (wal_config wal) cid w)"
    by (simp add: dir_frame_def with_file_def)
  have live': "wal_live W wal ?w ds (log_bytes W (dc_records (last ds)))" and sy': "ends_synced ?w"
    and room': "has_room (wal_client wal) ?w (Suc k) m" and below': "\<forall>d \<in> set ds. dc_file d < next_ino ?w"
    using live sy room below by (simp_all add: wal_live_script ends_synced_script has_room_script)
  show ?thesis
  proof (cases rule: append_file_cases [OF W live' below' sy' room' fe, where cid = cid])
    case a: (1 fc' w')
    then show ?thesis using that(1) made(1) cm df by simp
  next
    case a: (2 fc' w')
    then show ?thesis using that(4) made(1) cm df by simp
  qed
next
  case (failed e sc)
  then show ?thesis using that(2) free dir by (auto simp: calm_def)
next
  case (left e sc)
  then show ?thesis using that(3) dir by (auto simp: calm_def)
qed

text \<open>A log in use: the worker runs and the invariant holds, or the worker has stopped.\<close>

definition wal_ok :: "('a, 'c) wal_types \<Rightarrow> 'c chunked_wal \<Rightarrow> ('cb, 'c) world \<Rightarrow> ('a, 'c) disk_chunk list \<Rightarrow> bool" where
  "wal_ok W wal w ds = ((\<exists>out. wal_inv W wal w ds out) \<or> wal_stopped W wal w ds)"

lemma wal_stopped_cong:
  fixes w w' :: "('cb, 'c) world"
  assumes "wal_stopped W wal w ds" and "worker w' = None" and "client_ok (wal_client wal') w'" and "fc_tx (wal_client wal')"
    and "dir_frame w' = dir_frame w" and "inode w' = inode w" and "wal_config wal' = wal_config wal"
    and "\<And>out. wal_holds W wal ds out \<Longrightarrow> \<exists>out'. wal_holds W wal' ds out'"
  shows "wal_stopped W wal' w' ds"
proof -
  have "dir_holds (wal_config wal') w' ds"
    unfolding dir_holds_cong [OF assms(5)] using assms(1,7) by (simp add: wal_stopped_def)
  moreover have "settled (targets W ds out) w' = settled (targets W ds out) w" for out
    by (rule flow_cong(1) [OF assms(6)])
  ultimately show ?thesis using assms unfolding wal_stopped_def by metis
qed

lemma wal_ok_script:
  assumes "wal_ok W wal w ds"
  shows "wal_ok W wal (w\<lparr>script := sc\<rparr>) ds"
proof -
  let ?w = "w\<lparr>script := sc\<rparr>"
  have "wal_stopped W wal ?w ds" if "wal_stopped W wal w ds"
    by (rule wal_stopped_cong [OF that])
      (use that in \<open>auto simp: wal_stopped_def client_inv_def dir_frame_def fun_eq_iff\<close>)
  then show ?thesis using assms by (auto simp: wal_ok_def wal_inv_script)
qed

text \<open>The first record of the new chunk, appended and handed over.\<close>

lemma checkpoint_sent_cases:
  fixes w :: "('cb, 'c) world"
  assumes W: "wal_types W" and h: "wal_holds W wal ds (log_bytes W (dc_records (last ds)))"
    and n: "n = next_chunk W ds f ck" and ck: "encodable W (Checkpoint ck)"
      "dc_end W (last ds) + length (bytes_of W (Checkpoint ck)) < 2 ^ 64"
    and w: "client_ok (wal_client wal) w" "list_all plain (channel w)" "flow (map (chunk_target W) ds @ [(f, [])]) w"
    and room: "has_room (wal_client wal) w (Suc k) (length (bytes_of W (Checkpoint ck)))"
  obtains op r wal' w' where "wal_append W (Checkpoint ck) (wal\<lparr>wal_open := from_file (dc_id n) f\<rparr>, w) =
      (Inr (), (wal\<lparr>wal_open := op\<rparr>, w))"
    "send_pending False None (wal\<lparr>wal_open := op\<rparr>, w) = (r, (wal', w'))" "dir_frame w' = dir_frame w"
    "calm w \<longrightarrow> r = Inr () \<and> calm w'" "r = Inr () \<or> (\<exists>e. r = Inl e) \<and> worker w' = None" "wal_config wal' = wal_config wal"
    "r = Inr () \<longrightarrow> wal_live W (wal'\<lparr>wal_closed := bt_insert (dc_id (last ds))
       (closed_chunk_new (oc_chunk (wal_open wal)) ck) (wal_closed wal')\<rparr>) w' (ds @ [n]) (log_bytes W (dc_records n))"
proof -
  let ?c = "bt_insert (dc_id (last ds)) (closed_chunk_new (oc_chunk (wal_open wal)) ck) (wal_closed wal)"
  obtain op where op: "wal_append W (Checkpoint ck) (wal\<lparr>wal_open := from_file (dc_id n) f\<rparr>, w) =
      (Inr (), (wal\<lparr>wal_open := op\<rparr>, w))"
    "wal_holds W (wal\<lparr>wal_open := op, wal_closed := ?c\<rparr>) (ds @ [n]) []" "pending_data op = bytes_of W (Checkpoint ck)"
    by (rule checkpoint_inv [OF W h n ck])
  let ?wal = "wal\<lparr>wal_open := op, wal_closed := ?c\<rparr>"
  obtain r wal' w' where s: "send_pending False None (wal\<lparr>wal_open := op\<rparr>, w) = (r, (wal', w'))"
    by (cases "send_pending False None (wal\<lparr>wal_open := op\<rparr>, w)") auto
  have s': "send_pending False None (?wal, w) = (r, (wal'\<lparr>wal_closed := ?c\<rparr>, w'))" and same: "wal_closed wal' = wal_closed wal"
    using send_pending_closed [where sync = False and cb = None and wal = "wal\<lparr>wal_open := op\<rparr>" and c = ?c and w = w] s
      send_pending_keeps_closed [OF s] by simp_all
  have live: "wal_live W ?wal w (ds @ [n]) []"
    using w op(2) n by (simp add: wal_live_def targets_def next_chunk_def)
  have rm: "has_room (wal_client ?wal) w (Suc k) (length (pending_data (wal_open ?wal)) + 0)" using room op(3) by simp
  show thesis
    by (cases rule: send_live_cases [OF live rm, where sync = False and cb = None])
       (use that [OF op(1) s] s' same in auto)
qed

text \<open>
  Closing a full chunk in a directory that may hold other files too. There is a new chunk, or the worker
  has stopped, or there is no new file, or a file without records was left behind.
\<close>

lemma close_live_cases:
  fixes w :: "('cb, 'c) world"
  assumes W: "wal_types W" and live: "wal_live W wal w ds out" and full: "is_open_chunk_full wal"
    and below: "\<forall>d \<in> set ds. dc_file d < next_ino w" and dir: "dir (wal_config wal) \<in> set (dirs w)"
    and ck: "ck = sm_checkpoint SM sm" "encodable W (Checkpoint ck)"
      "dc_end W (last ds) + length (bytes_of W (Checkpoint ck)) < 2 ^ 64"
    and room: "has_room (wal_client wal) w 3
      (length (pending_data (wal_open wal)) + length (bytes_of W (Checkpoint ck)))"
    and n: "n = next_chunk W ds (next_ino w) ck"
    and free: "lookup w (chunk_path (wal_config wal) (dc_id n)) = None"
  obtains (ok) wal' w' where "try_close_full_chunk W SM sm (wal, w) = (Inr (Some ck), (wal', w'))"
    "wal_live W wal' w' (ds @ [n]) (log_bytes W (dc_records n))" "calm w \<longrightarrow> calm w'" "wal_config wal' = wal_config wal"
    "dir_frame w' = dir_frame (with_file (wal_config wal) (dc_id n) w)"
  | (unsent) e wal' w' where "try_close_full_chunk W SM sm (wal, w) = (Inl e, (wal', w'))"
    "send_pending True None (wal, w) = (Inl e, (wal', w'))" "worker w' = None" "\<not> calm w"
  | (no_file) e wal' w1 sc where "try_close_full_chunk W SM sm (wal, w) = (Inl e, (wal', w1\<lparr>script := sc\<rparr>))"
    "send_pending True None (wal, w) = (Inr (), (wal', w1))" "\<not> calm w"
  | (left) e wal' w1 sc where "try_close_full_chunk W SM sm (wal, w) =
      (Inl e, (wal', (new_file (chunk_path (wal_config wal) (dc_id n)) w1)\<lparr>script := sc\<rparr>))"
    "send_pending True None (wal, w) = (Inr (), (wal', w1))" "\<not> calm w"
  | (dead) e wal' w' where "try_close_full_chunk W SM sm (wal, w) = (Inl e, (wal', w'))" "worker w' = None"
    "dir_frame w' = dir_frame (with_file (wal_config wal) (dc_id n) w)" "\<not> calm w"
proof -
  let ?m = "length (bytes_of W (Checkpoint ck))" and ?L = "log_bytes W (dc_records (last ds))" and ?f = "next_ino w"
  let ?cfg = "wal_config wal"
  have room3: "has_room (wal_client wal) w (Suc 2) (length (pending_data (wal_open wal)) + ?m)"
    using room by (simp add: numeral_3_eq_3 numeral_2_eq_2)
  show thesis
  proof (cases rule: send_live_cases [OF live room3, where sync = True and cb = None])
    case (2 wal1 w1)
    then show ?thesis using unsent full by (simp add: try_close_full_chunk_def io_bind_app)
  next
    case p1: (1 wal1 w1)
    have d1: "next_ino w1 = ?f" "entries w1 = entries w" "dirs w1 = dirs w" using p1(7) by (simp_all add: dir_frame_def)
    have wf: "dir_frame (with_file ?cfg (dc_id n) w1) = dir_frame (with_file ?cfg (dc_id n) w)"
      using p1(7) by (simp add: dir_frame_def with_file_def)
    have h: "wal_holds W wal1 ds ?L" using p1(2) by (simp add: wal_live_def)
    have "dc_ok W (last ds)" using h by (auto simp: wal_holds_def list_all_iff)
    then obtain seg where seg: "last_segment (oc_chunk (wal_open wal1)) = Inr seg" "seg_end seg = dc_end W (last ds)"
      using last_segment_loaded wal_holds_open [OF h] by metis
    have cid: "dc_id n = ChunkId (dc_end W (last ds))" by (simp add: n next_chunk_def)
    note tc = full p1(1,6) seg ck(1) cid d1 try_close_full_chunk_def io_bind_app Let_def on_world_def from_file_def
    have sy: "ends_synced w1" using p1(4) by simp
    have env: "\<forall>d \<in> set ds. dc_file d < next_ino w1" "dir (wal_config wal1) \<in> set (dirs w1)"
      "lookup w1 (chunk_path (wal_config wal1) (dc_id n)) = None" using below dir free d1 p1(6) by simp_all
    show ?thesis
    proof (cases rule: new_file_cases [OF W p1(2) env(1,2) sy p1(5) [unfolded numeral_2_eq_2] env(3) refl [of
        "file_entry_new (dc_end W (last ds)) (next_ino w1) (Some ck)"]])
      case 2
      then show ?thesis using no_file p1(3) p1(1) by (simp add: tc)
    next
      case 3
      then show ?thesis using left p1(3) p1(1) by (simp add: tc)
    next
      case (4 fc' wm w')
      then show ?thesis using dead p1(3) wf by (simp add: tc)
    next
      case p2: (1 fc2 wm w2)
      let ?wal2 = "wal1\<lparr>wal_client := fc2\<rparr>"
      have h2: "wal_holds W ?wal2 ds ?L" and gid: "get_chunk_id (oc_chunk (wal_open wal1)) = dc_id (last ds)"
        using h by (simp_all add: wal_holds_def) (subst wal_holds_open [OF h], simp)
      obtain op r wal3 w3 where p3: "wal_append W (Checkpoint ck) (?wal2\<lparr>wal_open := from_file (dc_id n) ?f\<rparr>, w2) =
          (Inr (), (?wal2\<lparr>wal_open := op\<rparr>, w2))"
        "send_pending False None (?wal2\<lparr>wal_open := op\<rparr>, w2) = (r, (wal3, w3))" "dir_frame w3 = dir_frame w2"
        "calm w2 \<longrightarrow> r = Inr () \<and> calm w3" "r = Inr () \<or> (\<exists>e. r = Inl e) \<and> worker w3 = None"
        "wal_config wal3 = wal_config ?wal2"
        "r = Inr () \<longrightarrow> wal_live W (wal3\<lparr>wal_closed := bt_insert (dc_id (last ds))
           (closed_chunk_new (oc_chunk (wal_open ?wal2)) ck) (wal_closed wal3)\<rparr>) w3 (ds @ [n]) (log_bytes W (dc_records n))"
        by (rule checkpoint_sent_cases [OF W h2 n ck(2,3), of w2 0]) (use p2(3,4,6,8) d1 in simp_all)
      have df: "dir_frame w3 = dir_frame (with_file ?cfg (dc_id n) w)" using p3(3) p2(7) wf p1(6) by simp
      from p3(5) show ?thesis
      proof
        assume "r = Inr ()"
        then show ?thesis using ok p2(1,2,5) p3 gid p1(3) df by (simp add: tc)
      next
        assume "(\<exists>e. r = Inl e) \<and> worker w3 = None"
        then show ?thesis using dead p2(1,2,5) p3 p1(3) df by (auto simp: tc)
      qed
    qed
  qed
qed

text \<open>
  Closing a full chunk: on success there is a new chunk. A failure before the new file exists leaves
  the log as it was; the other failures need a fault of the kernel and leave the new file behind.
\<close>

lemma try_close_full_chunk_cases:
  fixes w :: "('cb, 'c) world"
  assumes W: "wal_types W" and inv: "wal_inv W wal w ds out" and full: "is_open_chunk_full wal"
    and ck: "ck = sm_checkpoint SM sm" "encodable W (Checkpoint ck)"
      "dc_end W (last ds) + length (bytes_of W (Checkpoint ck)) < 2 ^ 64"
    and room: "has_room (wal_client wal) w 3
      (length (pending_data (wal_open wal)) + length (bytes_of W (Checkpoint ck)))"
    and n: "n = next_chunk W ds (next_ino w) ck"
  obtains (ok) wal' w' where "try_close_full_chunk W SM sm (wal, w) = (Inr (Some ck), (wal', w'))"
    "wal_inv W wal' w' (ds @ [n]) (log_bytes W (dc_records n))" "calm w \<longrightarrow> calm w'" "wal_config wal' = wal_config wal"
  | (failed) e wal' w' where "try_close_full_chunk W SM sm (wal, w) = (Inl e, (wal', w'))"
    "entries w' = entries w \<longrightarrow> wal_ok W wal' w' ds \<and> wal_config wal' = wal_config wal" "\<not> calm w"
proof -
  let ?cfg = "wal_config wal"
  have live: "wal_live W wal w ds out" and dh: "dir_holds ?cfg w ds" and h: "wal_holds W wal ds out"
    using inv by (simp_all add: wal_inv_live) (simp add: wal_live_def)
  have ok': "dc_ok W (last ds)" using h by (auto simp: wal_holds_def list_all_iff)
  have cid: "dc_id n = ChunkId (dc_end W (last ds))" and off: "offset (dc_id n) < 2 ^ 64" and fn: "dc_file n = next_ino w"
    using ok' by (simp_all add: n next_chunk_def dc_ok_def)
  have free: "lookup w (chunk_path ?cfg (dc_id n)) = None" using inv_end_free [OF W h dh] cid by simp
  have below: "\<forall>d \<in> set ds. dc_file d < next_ino w" using inv_files_below [OF dh] by blast
  have dir: "dir ?cfg \<in> set (dirs w)" using dh by (simp add: dir_holds_def)
  have room3: "has_room (wal_client wal) w (Suc 2)
      (length (pending_data (wal_open wal)) + length (bytes_of W (Checkpoint ck)))"
    using room by (simp add: numeral_3_eq_3 numeral_2_eq_2)
  have kept: "wal_ok W wal1 w1 ds \<and> wal_config wal1 = ?cfg \<and> entries w1 = entries w"
    if "send_pending True None (wal, w) = (r, (wal1, w1))" for r wal1 w1
    by (cases rule: send_pending_cases [OF inv room3, where sync = True and cb = None])
       (use that in \<open>auto simp: wal_ok_def dir_frame_def\<close>)
  show thesis
  proof (cases rule: close_live_cases [OF W live full below dir ck room n free])
    case (1 wal' w')
    have "dir_holds ?cfg w' (ds @ [n])"
      unfolding dir_holds_cong [OF 1(5)] by (rule dir_holds_with_file [OF dh free off fn])
    then show ?thesis using ok 1 by (simp add: wal_inv_live)
  next
    case (2 e wal' w')
    then show ?thesis using failed kept by blast
  next
    case (3 e wal' w1 sc)
    then show ?thesis using failed [OF 3(1)] kept [OF 3(2)] by (simp add: wal_ok_script)
  next
    case (4 e wal' w1 sc)
    then show ?thesis using failed [OF 4(1)] kept [OF 4(2)] by simp
  next
    case (5 e wal' w')
    have "entries w' \<noteq> entries w" using 5(3) by (simp add: dir_frame_def with_file_def)
    then show ?thesis using failed [OF 5(1)] 5(4) by simp
  qed
qed

end
