(* ===== verification/Open_Fresh.thy ===== *)
theory Open_Fresh
  imports Recovery_Open
begin

text \<open>
  Opening a directory in which no chunk has a complete first record: an empty directory, or one whose
  only files were being created when the program stopped. The files are removed and a new log is
  created at offset 0, with a checkpoint of the state machine as its first record.
\<close>

section \<open>A directory without records\<close>

definition blank_image :: "('a, 'c) wal_types \<Rightarrow> config \<Rightarrow> 'z fs_scheme \<Rightarrow> blank_chunk list \<Rightarrow> bool" where
  "blank_image W cfg s bl =
     (list_all (blank_stored W cfg s) bl \<and> sorted_wrt (<) (map fst bl) \<and>
      mset (chunk_ids_of (dir_names (dir cfg) s)) = mset (map fst bl) \<and>
      dir cfg \<in> set (dirs s) \<and> script s = [])"

lemma blank_ids:
  assumes "blank_image W cfg s bl"
  shows "load_chunk_ids cfg s = (Inr (map fst bl), s)"
    and "remove_incomplete_tail_chunks W cfg (map fst bl) s = (Inr [], cleaned cfg bl s)"
proof -
  note im = assms [unfolded blank_image_def]
  have srt: "sorted (map fst bl)" "distinct (map fst (rev bl))" using im strict_sorted_iff by (auto simp flip: rev_map)
  then show "load_chunk_ids cfg s = (Inr (map fst bl), s)" using im by (intro load_chunk_ids_calm) auto
  have "remove_tail_loop W cfg (map fst (rev bl) @ []) s = remove_tail_loop W cfg [] (cleaned cfg bl s)"
    unfolding cleaned_def using im srt(2) by (intro remove_tail_loop_blank) (auto simp: list_all_iff)
  then show "remove_incomplete_tail_chunks W cfg (map fst bl) s = (Inr [], cleaned cfg bl s)"
    by (simp add: remove_incomplete_tail_chunks_def io_bind_app rev_map)
qed

lemma blank_free:
  assumes "blank_image W cfg s bl" and "offset cid < 2 ^ 64"
  shows "lookup (cleaned cfg bl s) (chunk_path cfg cid) = None"
proof (cases "cid \<in> set (map fst bl)")
  case True
  then show ?thesis by (force simp: cleaned_def lookup_fold_unlink)
next
  case False
  then have "cid \<notin> set (chunk_ids_of (dir_names (dir cfg) s))"
    using assms(1) by (metis blank_image_def set_mset_mset)
  then have "lookup s (chunk_path cfg cid) = None" using chunk_listed [OF _ assms(2), of s cfg] by fastforce
  then show ?thesis by (simp add: cleaned_def lookup_fold_unlink)
qed

text \<open>The new log: one chunk at offset 0, with the checkpoint.\<close>

definition fresh_chunk :: "nat \<Rightarrow> 'c \<Rightarrow> ('a, 'c) disk_chunk" where
  "fresh_chunk f ck = \<lparr> dc_id = ChunkId 0, dc_file = f, dc_records = [Checkpoint ck] \<rparr>"

lemma open_locked_blank:
  fixes w :: "('cb, 'c) world"
  assumes W: "wal_types W" and im: "blank_image W cfg w bl" and val: "validate cfg = Inr ()"
    and ck: "encodable W (Checkpoint (sm_checkpoint SM sm))"
      "length (bytes_of W (Checkpoint (sm_checkpoint SM sm))) < 2 ^ 64"
    and n: "n = fresh_chunk (next_ino w) (sm_checkpoint SM sm)"
  shows "\<exists>wal w'. open_locked W cfg SM lock (sm, w) = (Inr wal, (sm, w')) \<and>
    (wal, w') = wal_new cfg [] (open_chunk_new (dc_loaded W None n)) lock
      (created cfg (ChunkId 0) (log_bytes W (dc_records n)) (cleaned cfg bl w))"
proof -
  let ?r = "Checkpoint (sm_checkpoint SM sm)" and ?u = "cleaned cfg bl w"
  have free: "lookup ?u (chunk_path cfg (ChunkId 0)) = None" using blank_free [OF im] by simp
  have mk: "create_with_initial_record W cfg (ChunkId 0) ?r ?u =
      (Inr (open_chunk_new (loaded W (ChunkId 0) (next_ino w) [?r] None)), created cfg (ChunkId 0) (bytes_of W ?r) ?u)"
    using create_with_initial_record_calm [OF W _ free _ ck(1)] im ck(2)
    by (simp add: blank_image_def cleaned_next_ino)
  have n': "dc_loaded W None n = loaded W (ChunkId 0) (next_ino w) [?r] None" "log_bytes W (dc_records n) = bytes_of W ?r"
    using n by (simp_all add: dc_loaded_def fresh_chunk_def)
  obtain wal w' where new: "(wal, w') = wal_new cfg [] (open_chunk_new (dc_loaded W None n)) lock
      (created cfg (ChunkId 0) (log_bytes W (dc_records n)) ?u)" by (metis surj_pair)
  have "open_locked W cfg SM lock (sm, w) = (Inr wal, (sm, w'))"
    using val blank_ids [OF im] mk new [unfolded n', symmetric]
    by (simp add: open_locked_def holding_lock_def io_bind_app on_world_def reopen_last_closed_def bt_last_key_value_def Let_def)
  then show ?thesis using new by blast
qed

lemma fresh_ok:
  assumes "encodable W (Checkpoint ck)" and "length (bytes_of W (Checkpoint ck)) < 2 ^ 64"
  shows "dc_ok W (fresh_chunk f ck)"
  using assms by (simp add: dc_ok_def dc_end_def fresh_chunk_def)

lemma open_blank:
  fixes w :: "('cb, 'c) world"
  assumes W: "wal_types W" and im: "blank_image W cfg w bl" and val: "validate cfg = Inr ()"
    and ck: "encodable W (Checkpoint (sm_checkpoint SM sm))"
      "length (bytes_of W (Checkpoint (sm_checkpoint SM sm))) < 2 ^ 64"
    and n: "n = fresh_chunk (next_ino w) (sm_checkpoint SM sm)"
  shows "\<exists>wal w'. open_locked W cfg SM lock (sm, w) = (Inr wal, (sm, w')) \<and>
    wal_holds W wal [n] (log_bytes W (dc_records n)) \<and> content_of w' (next_ino w) = log_bytes W (dc_records n) \<and>
    lookup w' (chunk_path cfg (ChunkId 0)) = Some (next_ino w)"
proof -
  obtain wal w' where op: "open_locked W cfg SM lock (sm, w) = (Inr wal, (sm, w'))"
    and new: "(wal, w') = wal_new cfg [] (open_chunk_new (dc_loaded W None n)) lock
      (created cfg (ChunkId 0) (log_bytes W (dc_records n)) (cleaned cfg bl w))"
    using open_locked_blank [OF W im val ck n] by blast
  have ok: "dc_ok W n" using fresh_ok [OF ck] n by simp
  have "wal_holds W wal [n] (log_bytes W (dc_records n))"
    using open_holds_loaded [OF ok] ok wal_new_fs(1,2) [OF new]
    by (simp add: wal_holds_def open_chunk_new_def dc_loaded_def loaded_def)
  moreover have "content_of w' (next_ino w) = log_bytes W (dc_records n)"
    "lookup w' (chunk_path cfg (ChunkId 0)) = Some (next_ino w)"
    using wal_new_fs(3,4) [OF new] blank_free [OF im, of "ChunkId 0"]
    by (simp_all add: inode_def created_def cleaned_next_ino append_content_def set_inode_def new_file_def map_add_def)
  ultimately show ?thesis using op by blast
qed

section \<open>Properties\<close>

text \<open>
  C21. Opening a directory in which no chunk file has a complete first record (in particular an empty
  one) removes these files and creates a log: nothing is replayed, the state machine is as it was, the
  log in memory is one open chunk at offset 0 whose only record is a checkpoint of that state, and its
  file is in the directory and holds exactly the encoded checkpoint.
\<close>

theorem open_creates_log:
  fixes w :: "('cb, 'c) world"
  assumes "wal_types W" and "blank_image W cfg w bl" and "validate cfg = Inr ()"
    and "encodable W (Checkpoint (sm_checkpoint SM sm))"
    and "length (bytes_of W (Checkpoint (sm_checkpoint SM sm))) < 2 ^ 64"
  shows "\<exists>wal w'. open_locked W cfg SM lock (sm, w) = (Inr wal, (sm, w')) \<and>
    wal_holds W wal [fresh_chunk (next_ino w) (sm_checkpoint SM sm)]
      (bytes_of W (Checkpoint (sm_checkpoint SM sm))) \<and>
    content_of w' (next_ino w) = bytes_of W (Checkpoint (sm_checkpoint SM sm)) \<and>
    lookup w' (chunk_path cfg (ChunkId 0)) = Some (next_ino w)"
  using open_blank [OF assms refl, of lock] by (simp add: fresh_chunk_def)

text \<open>A directory with one empty chunk file, at offset 24.\<close>

definition empty_chunk_disk :: "(nat, byte list) world" where
  "empty_chunk_disk = (demo_disk [])\<lparr>entries := [(chunk_path demo_config (ChunkId 24), 2)]\<rparr>"

theorem open_creates_log_witness:
  "\<exists>wal w'. open_locked test_wal demo_config demo_sm demo_lock ([], empty_chunk_disk) = (Inr wal, ([], w')) \<and>
    content_of w' 3 = bytes_of test_wal (Checkpoint [115, 116, 97, 116, 101])"
proof -
  have "chunk_ids_of (dir_names (dir demo_config) empty_chunk_disk) = [ChunkId 24]"
    by (simp add: empty_chunk_disk_def chunk_ids_entries entry_ids_chunk_path)
  then have "blank_image test_wal demo_config empty_chunk_disk [(ChunkId 24, 2, [])]"
    by (simp add: blank_image_def blank_stored_def blank_def chunk_on_disk_def demo_config_dir)
      (simp add: empty_chunk_disk_def)
  moreover have "encodable test_wal (Checkpoint (sm_checkpoint demo_sm []))"
    "length (bytes_of test_wal (Checkpoint (sm_checkpoint demo_sm []))) = 21"
    by (simp_all add: demo_sm_def encodable_def bytes_of_def test_vector_checkpoint del: wal_encode.simps)
  moreover have "next_ino empty_chunk_disk = 3" by (simp add: empty_chunk_disk_def)
  ultimately show ?thesis
    using open_creates_log [OF test_wal_ok _ demo_config_dir(2), of empty_chunk_disk "[(ChunkId 24, 2, [])]" demo_sm "[]" demo_lock]
    by (auto simp: demo_sm_def)
qed

end
