(* ===== verification/Open_Inv.thy ===== *)
theory Open_Inv
  imports Wal_Inv Open_Fresh
begin

text \<open>
  Opening establishes the invariant of a log in use, in each of the states in which a directory may be
  found: with whole files, with a torn end, and without any record.
\<close>

section \<open>A new log in memory\<close>

lemma wal_new_world:
  assumes "(wal, w') = wal_new cfg closed op lock w"
  shows "client_ok (wal_client wal) w'" "channel w' = []" "script w' = script w" "panic_on w' = panic_on w"
    "dir_frame w' = dir_frame w" "inode w' = inode w" "tx_alive w'"
    "\<exists>wk. worker w' = Some wk \<and> files wk \<noteq> [] \<and> cur_file wk = chunk_file (oc_chunk op) \<and> wk_config wk = cfg"
    "wal_client wal = flush_client_new" "used_bytes w' = 0" "worker_handle wal"
  using assms
  by (simp_all add: wal_new_def Let_def client_inv_def worker_state_new_def queued_bytes_new_def done_seq_def
      flush_client_new_def dir_frame_def inode_def fun_eq_iff cur_file_def file_entry_new_def)

text \<open>Every file is on stable storage, apart from the last one, of which a part may be.\<close>

definition files_safe :: "('cb, 'c) world \<Rightarrow> ('a, 'c) disk_chunk list \<Rightarrow> bool" where
  "files_safe w ds =
     (list_all (\<lambda>d. clean w (dc_file d)) (butlast ds) \<and>
      prefix (synced_of w (dc_file (last ds))) (content_of w (dc_file (last ds))))"

lemma image_dir_holds:
  assumes "dir_image W cfg w ds [] []" and "wf_fs w" and "synced_entries w = entries w"
  shows "dir_holds cfg w ds"
proof -
  have "list_all (stored W cfg w []) ds"
    using assms(1) list_all_last [of ds "stored W cfg w []"] by (simp add: dir_image_def)
  then show ?thesis
    using assms by (auto simp: dir_holds_def dir_image_def list_all_iff stored_def chunk_on_disk_def)
qed

lemma image_distinct_files:
  assumes "wal_types W" and "dir_holds cfg w ds" and "list_all (dc_ok W) ds" and "consecutive W ds"
  shows "distinct (map dc_file ds)"
proof -
  have ids: "distinct (map dc_id ds)" using consecutive_sorted [OF assms(1,4,3)] strict_sorted_iff by blast
  have same: "dc_id d = dc_id e" if "d \<in> set ds" "e \<in> set ds" "dc_file d = dc_file e" for d e
  proof -
    have wf: "wf_fs w" and all: "\<forall>d \<in> set ds. lookup w (chunk_path cfg (dc_id d)) = Some (dc_file d)"
      using assms(2) unfolding dir_holds_def list_all_iff by blast+
    have lk: "lookup w (chunk_path cfg (dc_id d)) = Some (dc_file e)" "lookup w (chunk_path cfg (dc_id e)) = Some (dc_file e)"
      using bspec [OF all that(1)] bspec [OF all that(2)] that(3) by simp_all
    have "chunk_path cfg (dc_id d) = chunk_path cfg (dc_id e)" by (rule wf_fs_lookup_inject [OF wf lk])
    moreover have "offset (dc_id d) < 2 ^ 64" "offset (dc_id e) < 2 ^ 64"
      using assms(3) that by (auto simp: list_all_iff dc_ok_def dc_end_def)
    ultimately show ?thesis using chunk_path_eq_iff by blast
  qed
  have inj: "inj_on dc_id (set ds)" and "distinct ds" using ids by (simp_all add: distinct_map)
  have "inj_on dc_file (set ds)"
    by (rule inj_onI) (rule inj_onD [OF inj], rule same)
  then show ?thesis using \<open>distinct ds\<close> by (simp add: distinct_map)
qed

lemma open_flow:
  assumes W: "wal_types W" and im: "log_image W cfg w ds [] []" and wf: "wf_fs w" "synced_entries w = entries w"
    and safe: "files_safe w ds" and "worker w = Some wk" and "files wk \<noteq> []" and "cur_file wk = dc_file (last ds)"
    and "channel w = []"
  shows "flow (targets W ds (log_bytes W (dc_records (last ds)))) w"
proof -
  have dim: "dir_image W cfg w ds [] []" and cons: "consecutive W ds" and ne: "ds \<noteq> []"
    using im by (auto simp: log_image_def dir_image_def)
  have dist: "distinct (map dc_file ds)"
    using image_distinct_files [OF W image_dir_holds [OF dim wf] image_ok [OF dim] cons] .
  have st: "content_of w (dc_file d) = log_bytes W (dc_records d)" if "d \<in> set ds" for d
    using dim that list_all_last [of ds "stored W cfg w []"]
    by (auto simp: dir_image_def list_all_iff stored_def chunk_on_disk_def)
  let ?pre = "map (chunk_target W) (butlast ds)" and ?c = "chunk_target W (last ds)"
  have "list_all (landed w) ?pre"
    using safe st by (auto simp: list_all_iff files_safe_def landed_def dest: in_set_butlastD)
  moreover have "distinct (map fst (?pre @ [?c]))" using dist ne by (cases ds rule: rev_cases) (auto simp: comp_def)
  ultimately have "flow_at wk ?pre ?c [] w"
    using assms(6-9) safe st [of "last ds"] ne by (simp add: flow_at_def files_safe_def)
  then show ?thesis unfolding flow_def targets_def using assms(6) by blast
qed

text \<open>A log that was just opened: the invariant holds, nothing is on its way.\<close>

definition opened :: "('a, 'c) wal_types \<Rightarrow> config \<Rightarrow> 'c chunked_wal \<Rightarrow> ('cb, 'c) world \<Rightarrow> ('cb, 'c) world \<Rightarrow>
    ('a, 'c) disk_chunk list \<Rightarrow> bool" where
  "opened W cfg wal u w ds =
     (wal_inv W wal w ds (log_bytes W (dc_records (last ds))) \<and> calm w \<and> wal_config wal = cfg \<and>
      dir_frame w = dir_frame u \<and> inode w = inode u \<and> wal_client wal = flush_client_new \<and> channel w = [] \<and>
      used_bytes w = 0 \<and> (\<exists>wk. worker w = Some wk \<and> wk_config wk = cfg) \<and> worker_handle wal)"

lemma wal_new_opened:
  fixes u :: "('cb, 'c) world"
  assumes W: "wal_types W" and im: "dir_image W cfg u ds [] []" and cons: "consecutive W ds"
    and fs: "wf_fs u" "synced_entries u = entries u" "files_safe u ds" and pn: "panic_on u = (\<lambda>_. False)"
    and cl: "list_all2 (closed_match W) closed (butlast ds)"
    and new: "(wal, w) = wal_new cfg closed (open_chunk_new (dc_loaded W None (last ds))) lock u"
  shows "opened W cfg wal u w ds"
proof -
  note nw = wal_new_fs [OF new] wal_new_world [OF new]
  have ne: "ds \<noteq> []" and sc: "script u = []" using im by (simp_all add: dir_image_def)
  have "dir_image W cfg w ds [] [] = dir_image W cfg u ds [] []" by (rule dir_image_cong [OF nw(3-6)])
  then have im': "dir_image W cfg w ds [] []" using im by simp
  then have li: "log_image W cfg w ds [] []" using cons by (simp add: log_image_def)
  have wf': "wf_fs w" "synced_entries w = entries w" using fs(1,2) nw(14) by (simp_all add: wf_fs_def dir_frame_def)
  have safe: "files_safe w ds" using fs(3) nw(15) by (simp add: files_safe_def clean_def)
  obtain wk where wk: "worker w = Some wk" "files wk \<noteq> []" "cur_file wk = dc_file (last ds)" "wk_config wk = cfg"
    using nw(17) by (auto simp: open_chunk_new_def)
  have "dc_ok W (last ds)" using image_ok [OF im] ne by (simp add: list_all_iff)
  then have "wal_holds W wal ds (log_bytes W (dc_records (last ds)))"
    using nw(1,2) cl cons ne image_ok [OF im] open_holds_loaded by (simp add: wal_holds_def open_chunk_new_def)
  moreover have "dir_holds (wal_config wal) w ds" using image_dir_holds [OF im' wf'] nw(7) by simp
  ultimately have "wal_inv W wal w ds (log_bytes W (dc_records (last ds)))"
    using nw(10,11) open_flow [OF W li wf' safe wk(1-3) nw(11)] by (simp add: wal_inv_def)
  moreover have "calm w" using nw(11-13) pn sc by (simp add: calm_def)
  ultimately show ?thesis using nw wk(1,4) by (simp add: opened_def)
qed

lemma opened_ok:
  assumes "opened W cfg wal u w ds"
  shows "wal_ok W wal w ds" and "wal_config wal = cfg"
  using assms by (auto simp: opened_def wal_ok_def)

section \<open>Whole files\<close>

lemma cleaned_synced: "synced_entries s = entries s \<Longrightarrow> synced_entries (cleaned cfg bl s) = entries (cleaned cfg bl s)"
proof -
  have "synced_entries s = entries s \<Longrightarrow> synced_entries (fold (\<lambda>b. unlink cfg (fst b)) cs s) =
      entries (fold (\<lambda>b. unlink cfg (fst b)) cs s)" for cs
    by (induction cs arbitrary: s) (simp_all add: unlink_def Let_def)
  then show "synced_entries s = entries s \<Longrightarrow> synced_entries (cleaned cfg bl s) = entries (cleaned cfg bl s)"
    by (simp add: cleaned_def)
qed

lemma opened_events:
  assumes "opened W cfg wal (u\<lparr>events := e\<rparr>) w ds"
  shows "opened W cfg wal u w ds"
proof -
  have "inode (u\<lparr>events := e\<rparr>) = inode u" by (simp add: fun_eq_iff)
  then show ?thesis using assms by (simp add: opened_def dir_frame_def)
qed

lemma open_whole:
  fixes w :: "('cb, 'c) world"
  assumes W: "wal_types W" and im: "log_image W cfg w ds [] bl" and pn: "panic_on w = (\<lambda>_. False)"
    and val: "validate cfg = Inr ()" and log: "apply_log SM (log_entries W ds) sm = Some sm'"
    and wf: "wf_fs w" "synced_entries w = entries w" and safe: "files_safe w ds"
  obtains wal w' where "open_locked W cfg SM lock (sm, w) = (Inr wal, (sm', w'))" "opened W cfg wal (cleaned cfg bl w) w' ds"
proof -
  obtain evs wal w' where op: "open_locked W cfg SM lock (sm, w) = (Inr wal, (sm', w'))"
    and new: "(wal, w') = wal_new cfg (recovered W SM (butlast ds) sm)
      (open_chunk_new (dc_loaded W None (last ds))) lock ((cleaned cfg bl w)\<lparr>events := events w @ evs\<rparr>)"
    using open_locked_clean [OF W im pn log val] by metis
  let ?u = "(cleaned cfg bl w)\<lparr>events := events w @ evs\<rparr>"
  have cons: "consecutive W ds" using im by (simp add: log_image_def)
  have "dir_image W cfg ?u ds [] [] = dir_image W cfg (cleaned cfg bl w) ds [] []" by (rule dir_image_cong) simp_all
  then have "dir_image W cfg ?u ds [] []" using cleaned_image [OF log_image_dir [OF im]] by simp
  moreover have "wf_fs ?u" "synced_entries ?u = entries ?u"
    using wf_fs_cleaned [OF wf(1)] cleaned_synced [OF wf(2)] by (simp_all add: wf_fs_def)
  moreover have "files_safe ?u ds" using safe by (simp add: files_safe_def clean_def)
  ultimately have "opened W cfg wal ?u w' ds"
    using pn cons recovered_match new by (intro wal_new_opened [OF W]) simp_all
  then show thesis using that op opened_events by blast
qed

lemma open_clean_inv:
  fixes w :: "('cb, 'c) world"
  assumes W: "wal_types W" and im: "log_image W cfg w ds [] []" and "calm w"
    and "validate cfg = Inr ()" and log: "apply_log SM (log_entries W ds) sm = Some sm'"
    and wf: "wf_fs w" "synced_entries w = entries w" and safe: "files_safe w ds"
  obtains wal w' where "open_locked W cfg SM lock (sm, w) = (Inr wal, (sm', w'))"
    "wal_inv W wal w' ds (log_bytes W (dc_records (last ds)))" "calm w'" "wal_config wal = cfg"
    "dir_frame w' = dir_frame w" "inode w' = inode w"
    "wal_client wal = flush_client_new" "channel w' = []" "used_bytes w' = 0"
    "\<exists>wk. worker w' = Some wk \<and> wk_config wk = cfg" "worker_handle wal"
proof -
  have pn: "panic_on w = (\<lambda>_. False)" using assms(3) by (simp add: calm_def)
  obtain wal w' where "open_locked W cfg SM lock (sm, w) = (Inr wal, (sm', w'))" "opened W cfg wal (cleaned cfg [] w) w' ds"
    by (rule open_whole [OF W im pn assms(4) log wf safe])
  then show thesis using that by (simp add: opened_def cleaned_def)
qed

section \<open>A torn end\<close>

lemma open_torn:
  fixes w :: "('cb, 'c) world"
  assumes W: "wal_types W" and im: "log_image W cfg w ds rest bl" and pn: "panic_on w = (\<lambda>_. False)"
    and val: "validate cfg = Inr ()" and log: "apply_log SM (log_entries W ds) sm = Some sm'"
    and wf: "wf_fs w" and rest: "rest \<noteq> []" "wal_decode W rest = Inl UnexpectedEof" and cut: "truncate_incomplete_record cfg"
    and ck: "encodable W (Checkpoint (sm_checkpoint SM sm'))"
      "dc_end W (last ds) + length (bytes_of W (Checkpoint (sm_checkpoint SM sm'))) < 2 ^ 64"
    and safe: "list_all (\<lambda>d. clean w (dc_file d)) (butlast ds)" and n: "n = next_chunk W ds (next_ino w) (sm_checkpoint SM sm')"
  obtains wal u w' where "open_locked W cfg SM lock (sm, w) = (Inr wal, (sm', w'))" "opened W cfg wal u w' (ds @ [n])"
    "list_all (landed u) (map (chunk_target W) ds)"
proof -
  let ?d = "last ds"
  have torn: "torn_tail UnexpectedEof rest" by (simp add: torn_tail_def)
  have nn: "dc_ok W n" "dc_id n = ChunkId (dc_end W (last ds))" "dc_file n = next_ino w"
    "log_bytes W (dc_records n) = bytes_of W (Checkpoint (sm_checkpoint SM sm'))"
    using n ck by (simp_all add: next_chunk_def dc_ok_def dc_end_def)
  have ne: "ds \<noteq> []" using im by (auto simp: log_image_def dir_image_def)
  obtain evs wal w' where op: "open_locked W cfg SM lock (sm, w) = (Inr wal, (sm', w'))"
    and new: "(wal, w') = wal_new cfg
      (recovered W SM (butlast ds) sm @ [(dc_id ?d, closed_chunk_new
         (dc_loaded W (Some (length (log_bytes W (dc_records ?d) @ rest))) ?d) (sm_checkpoint SM sm'))])
      (open_chunk_new (loaded W (dc_id n) (next_ino (cut_tail W cfg ?d bl w)) [Checkpoint (sm_checkpoint SM sm')] None)) lock
      (created cfg (dc_id n) (log_bytes W (dc_records n)) ((cut_tail W cfg ?d bl w)\<lparr>events := events w @ evs\<rparr>))"
    unfolding nn(2,4) using open_locked_torn [OF W im pn log val rest torn cut ck, of lock] by metis
  let ?u = "created cfg (dc_id n) (log_bytes W (dc_records n)) ((cut_tail W cfg ?d bl w)\<lparr>events := events w @ evs\<rparr>)"
  note t = torn_image(1,5-9) [OF W im wf nn(1-3), where evs = "events w @ evs"] torn_image(2-4) [OF W im wf nn(1-3)]
  have st: "content_of ?u (dc_file ?d) = log_bytes W (dc_records ?d)"
    using t(1) ne by (auto simp: dir_image_def list_all_iff stored_def chunk_on_disk_def)
  have cleanu: "clean ?u (dc_file d)" if "d \<in> set ds" for d
  proof (cases "dc_file d = dc_file ?d")
    case True
    then show ?thesis using st t(2) by (simp add: clean_def)
  next
    case False
    then have "d \<in> set (butlast ds)" using that ne by (cases ds rule: rev_cases) auto
    then show ?thesis using t(3) [OF t(9) [OF that] False] safe by (simp add: clean_def list_all_iff)
  qed
  have "files_safe ?u (ds @ [n])" using cleanu t(6) by (simp add: files_safe_def list_all_iff)
  moreover have "list_all2 (closed_match W) (recovered W SM (butlast ds) sm @ [(dc_id ?d, closed_chunk_new
         (dc_loaded W (Some (length (log_bytes W (dc_records ?d) @ rest))) ?d) (sm_checkpoint SM sm'))]) (butlast ds @ [?d])"
    by (rule list_all2_appendI [OF recovered_match]) (simp add: closed_match_loaded)
  then have "list_all2 (closed_match W) (recovered W SM (butlast ds) sm @ [(dc_id ?d, closed_chunk_new
         (dc_loaded W (Some (length (log_bytes W (dc_records ?d) @ rest))) ?d) (sm_checkpoint SM sm'))]) (butlast (ds @ [n]))"
    using ne by simp
  moreover have "loaded W (dc_id n) (next_ino (cut_tail W cfg ?d bl w)) [Checkpoint (sm_checkpoint SM sm')] None =
      dc_loaded W None (last (ds @ [n]))"
    using n t(8) nn(3) by (simp add: dc_loaded_def next_chunk_def)
  moreover have "panic_on ?u = (\<lambda>_. False)"
    using pn by (simp add: created_def append_content_def set_inode_def new_file_def truncated_fs_events cut_tail_def)
  ultimately have "opened W cfg wal ?u w' (ds @ [n])"
    using t(1,4,5,7) new by (intro wal_new_opened [OF W]) simp_all
  moreover have "content_of ?u (dc_file d) = log_bytes W (dc_records d)" if "d \<in> set ds" for d
    using t(1) that by (auto simp: dir_image_def list_all_iff stored_def chunk_on_disk_def)
  ultimately show thesis using that op cleanu by (simp add: list_all_iff landed_def)
qed

section \<open>No record\<close>

lemma fresh_image:
  assumes im: "blank_image W cfg s bl" and ok: "dc_ok W n" "n = fresh_chunk (next_ino s) ck"
  defines "u \<equiv> created cfg (ChunkId 0) (log_bytes W (dc_records n)) (cleaned cfg bl s)"
  shows "dir_image W cfg u [n] [] []" and "consecutive W [n]" and "files_safe u [n]"
    and "wf_fs s \<Longrightarrow> wf_fs u" and "synced_entries u = entries u"
proof -
  note b = im [unfolded blank_image_def]
  have free: "lookup (cleaned cfg bl s) (chunk_path cfg (ChunkId 0)) = None" using blank_free [OF im] by simp
  have dist: "distinct (map fst bl)" using b strict_sorted_iff by blast
  moreover have "mset (chunk_ids_of (dir_names (dir cfg) s)) = mset (map fst bl)" using b by blast
  ultimately have "distinct (map fst (rev bl))" "distinct (chunk_ids_of (dir_names (dir cfg) s))"
    by (simp flip: rev_map) (metis dist \<open>mset _ = mset _\<close> mset_eq_imp_distinct_iff)
  then have "chunk_ids_of (dir_names (dir cfg) (cleaned cfg bl s)) =
      filter (\<lambda>x. x \<notin> fst ` set (rev bl)) (chunk_ids_of (dir_names (dir cfg) s))"
    unfolding cleaned_def using b by (intro listing_fold_unlink) (auto simp: list_all_iff)
  moreover have "set (chunk_ids_of (dir_names (dir cfg) s)) = fst ` set bl" using b by (metis list.set_map set_mset_mset)
  ultimately have "chunk_ids_of (dir_names (dir cfg) (cleaned cfg bl s)) = []" by (simp add: filter_empty_conv)
  then have "chunk_ids_of (dir_names (dir cfg) u) = [ChunkId 0]"
    by (auto simp: chunk_ids_entries u_def created_def entry_ids_chunk_path concat_eq_Nil_conv)
  then show "dir_image W cfg u [n] [] []"
    using b ok free by (simp add: dir_image_def stored_def chunk_on_disk_def u_def created_def append_content_def
        fresh_chunk_def cleaned_next_ino map_add_def dc_ok_def dc_end_def)
  show "consecutive W [n]" by simp
  show "files_safe u [n]" using ok(2)
    by (simp add: files_safe_def u_def created_def append_content_def fresh_chunk_def cleaned_next_ino)
  show "wf_fs u" if "wf_fs s"
    using wf_fs_new_file [OF wf_fs_cleaned [OF that] free]
    by (simp add: u_def created_def wf_fs_def append_content_def set_inode_def)
  show "synced_entries u = entries u" by (simp add: u_def created_def append_content_def set_inode_def new_file_def)
qed

lemma open_fresh:
  fixes w :: "('cb, 'c) world"
  assumes W: "wal_types W" and im: "blank_image W cfg w bl" and pn: "panic_on w = (\<lambda>_. False)"
    and val: "validate cfg = Inr ()" and wf: "wf_fs w"
    and ck: "encodable W (Checkpoint (sm_checkpoint SM sm))"
      "length (bytes_of W (Checkpoint (sm_checkpoint SM sm))) < 2 ^ 64"
    and n: "n = fresh_chunk (next_ino w) (sm_checkpoint SM sm)"
  obtains wal u w' where "open_locked W cfg SM lock (sm, w) = (Inr wal, (sm, w'))" "opened W cfg wal u w' [n]"
proof -
  have ok: "dc_ok W n" using fresh_ok [OF ck] n by simp
  let ?u = "created cfg (ChunkId 0) (log_bytes W (dc_records n)) (cleaned cfg bl w)"
  obtain wal w' where op: "open_locked W cfg SM lock (sm, w) = (Inr wal, (sm, w'))"
    and new: "(wal, w') = wal_new cfg [] (open_chunk_new (dc_loaded W None n)) lock ?u"
    using open_locked_blank [OF W im val ck n] by blast
  note f = fresh_image [OF im ok n]
  have "panic_on ?u = (\<lambda>_. False)" using pn by (simp add: created_def append_content_def set_inode_def new_file_def)
  then have "opened W cfg wal ?u w' [n]"
    using f wf new by (intro wal_new_opened [OF W]) simp_all
  then show thesis using that op by blast
qed

end
