(* ===== verification/Wal_Run.thy ===== *)
theory Wal_Run
  imports Open_Inv
begin

text \<open>
  A log in use as a transition system: its owner appends records, hands data to the flush worker, waits
  and closes full chunks, in any order, the worker runs in between, and the kernel may fail any system
  call or write less than asked. \<open>wal_run W SM s rs s'\<close> says that such operations lead from \<open>s\<close> to \<open>s'\<close> and
  add the records \<open>rs\<close>. Every reachable state satisfies \<open>wal_ok\<close> for a log that holds the records of the
  start followed by \<open>rs\<close>: the worker runs and \<open>wal_inv\<close> holds, or it has stopped and the files are settled.
\<close>

section \<open>The operations preserve the invariant\<close>

text \<open>The worker, and the kernel, which may fail any of the next system calls.\<close>

lemma run_stopped: "worker w = None \<Longrightarrow> run w = w"
  by (simp add: run_def)

lemma wal_ok_run:
  assumes "wal_ok W wal w ds"
  shows "wal_ok W wal (run w) ds"
  using assms [unfolded wal_ok_def]
proof
  assume "\<exists>out. wal_inv W wal w ds out"
  then obtain out where inv: "wal_inv W wal w ds out" by blast
  note i = inv [unfolded wal_inv_def]
  have fl: "flow (targets W ds out) w" and cl: "client_ok (wal_client wal) (run w)" using i client_ok_run by blast+
  have dir: "dir_frame (run w) = dir_frame w" using i client_files by (intro run_dir) auto
  have dh: "dir_holds (wal_config wal) (run w) ds" unfolding dir_holds_cong [OF dir] using i by blast
  show "wal_ok W wal (run w) ds"
  proof (cases "worker (run w)")
    case None
    moreover have "fc_tx (wal_client wal)" using i by (auto simp: client_inv_def flow_def)
    moreover have "prefix out (log_bytes W (dc_records (last ds)))" using wal_holds_out_prefix i by blast
    ultimately have "wal_stopped W wal (run w) ds"
      using flow_run(1) [OF fl] cl dh i unfolding wal_stopped_def by blast
    then show ?thesis by (simp add: wal_ok_def)
  next
    case (Some wk)
    then have "wal_inv W wal (run w) ds out"
      using flow_run(2) [OF fl] cl dh i client_ok_run(2) [of "wal_client wal" w] by (simp add: wal_inv_def)
    then show ?thesis by (auto simp: wal_ok_def)
  qed
qed (simp add: wal_ok_def wal_stopped_def run_stopped)

lemma acquire_wait_stopped:
  assumes "acquire_wait n w = (r, w1)" and "worker w = None"
  shows "worker w1 = None" "inode w1 = inode w" "dir_frame w1 = dir_frame w" "channel w1 = channel w"
  using assms by (auto simp: acquire_wait_def Let_def run_stopped split: option.splits)

lemma stopped_send_pending:
  fixes w :: "('cb, 'c) world"
  assumes st: "wal_stopped W wal w ds" and room: "has_room (wal_client wal) w (Suc k) (length (pending_data (wal_open wal)) + n)"
  obtains wal' w' where "send_pending sync cb (wal, w) = (Inl (Err Other), (wal', w'))" "wal_stopped W wal' w' ds"
    "wal_config wal' = wal_config wal" "dir_frame w' = dir_frame w"
proof -
  let ?x = "\<lparr> upto_offset = global_end (oc_chunk (wal_open wal)), wr_data = pending_data (wal_open wal),
     wr_sync = sync, wr_callback = cb \<rparr>"
  let ?rq = "Write ?x :: ('cb, 'c) worker_request" and ?n = "length (pending_data (wal_open wal))"
  let ?wal = "\<lambda>fc. wal\<lparr>wal_open := (wal_open wal)\<lparr>pending_data := []\<rparr>, wal_client := fc\<rparr>"
  have dead: "worker w = None" and ok: "client_ok (wal_client wal) w" and tx: "fc_tx (wal_client wal)"
    using st by (auto simp: wal_stopped_def)
  have len: "length (req_data ?rq) = ?n" by (simp add: req_data_def)
  have rm: "length (channel w) < CHANNEL_CAPACITY" "used_bytes w + length (req_data ?rq) < 2 ^ 64"
    "fc_sent_seq (wal_client wal) + 1 < 2 ^ 64"
    using room by (auto simp: has_room_def len)
  obtain r fc' and w1 w' :: "('cb, 'c) world" where s: "send ?rq (wal_client wal, w) = (r, (fc', w'))" "client_ok fc' w'"
    "sent ?rq r (wal_client wal) fc' w1 w'" "acquire_wait (length (req_data ?rq)) w = (Inr (), w1)"
    "channel w1 = channel w \<or> channel w1 = []"
    by (rule send_cases [OF ok tx rm])
  note a = acquire_wait_stopped [OF s(4) dead]
  have sent: "r = Inl (Err Other)" "worker w' = None" "inode w' = inode w" "fc_tx fc'"
    using s(3) a tx by (simp_all add: sent_def)
  have "send_enqueue ?n ?rq (wal_client wal, w1) = (r, (fc', w'))"
    using s(1,4) tx len by (simp add: send_def)
  then have dir: "dir_frame w' = dir_frame w" using send_enqueue_dir [of w1] a(3,4) rm(1) by simp
  have "wal_stopped W (?wal fc') w' ds"
    by (rule wal_stopped_cong [OF st]) (use sent s(2) dir wal_holds_taken [of W wal ds] in auto)
  then show thesis using that [of "?wal fc'" w'] s(1) sent(1) dir by (simp add: send_pending_send)
qed

lemma stopped_append:
  assumes W: "wal_types W" and st: "wal_stopped W wal w ds" and "encodable W r"
    and "dc_end W (last ds) + length (bytes_of W r) < 2 ^ 64"
  shows "\<exists>wal'. wal_append W r (wal, w) = (Inr (), (wal', w)) \<and> wal_stopped W wal' w (add_record r ds)"
proof -
  obtain out where h: "wal_holds W wal ds out" using st by (auto simp: wal_stopped_def)
  obtain op where op: "wal_append W r (wal, w) = (Inr (), (wal\<lparr>wal_open := op\<rparr>, w))"
    "wal_holds W (wal\<lparr>wal_open := op\<rparr>) (add_record r ds) out"
    using wal_holds_append [OF W h assms(3,4)] by blast
  obtain out' where set: "prefix out' (log_bytes W (dc_records (last ds)))" "settled (targets W ds out') w"
    using st by (auto simp: wal_stopped_def)
  have ne: "ds \<noteq> []" using h by (simp add: wal_holds_def)
  have "dir_holds (wal_config wal) w (add_record r ds) = dir_holds (wal_config wal) w ds"
    using ne by (cases ds rule: rev_cases) (simp_all add: dir_holds_def add_record_def)
  moreover have "settled (targets W (add_record r ds) out') w"
    using set(2) by (simp add: targets_def add_record_def)
  moreover have "prefix out' (log_bytes W (dc_records (last (add_record r ds))))"
    using set(1) by (auto simp: add_record_def intro: prefix_prefix)
  ultimately have "wal_stopped W (wal\<lparr>wal_open := op\<rparr>) w (add_record r ds)"
    using st op(2) unfolding wal_stopped_def by auto
  then show ?thesis using op(1) by blast
qed

lemma wal_ok_append:
  assumes "wal_types W" and "wal_ok W wal w ds" and "encodable W r" and "dc_end W (last ds) + length (bytes_of W r) < 2 ^ 64"
  shows "\<exists>wal'. wal_append W r (wal, w) = (Inr (), (wal', w)) \<and> wal_ok W wal' w (add_record r ds)"
  using assms(2) wal_inv_append [OF assms(1) _ assms(3,4)] stopped_append [OF assms(1) _ assms(3,4)]
  unfolding wal_ok_def by metis

text \<open>A flush, whatever it returns: \<open>Ok\<close> only when the worker runs and the request is in the channel.\<close>

lemma wal_ok_flush:
  fixes w :: "('cb, 'c) world"
  assumes ok: "wal_ok W wal w ds" and room: "has_room (wal_client wal) w 1 (length (pending_data (wal_open wal)))"
    and send: "send_pending sync cb (wal, w) = (r, (wal', w'))"
  shows "wal_ok W wal' w' ds" and "wal_config wal' = wal_config wal" and "dir_frame w' = dir_frame w"
    and "r = Inr () \<Longrightarrow> wal_inv W wal' w' ds (log_bytes W (dc_records (last ds))) \<and> (sync \<longrightarrow> ends_synced w') \<and>
      (calm w \<longrightarrow> calm w')"
    and "r \<noteq> Inr () \<Longrightarrow> r = Inl (Err Other) \<and> wal_stopped W wal' w' ds \<and> (calm w \<longrightarrow> worker w = None)"
proof -
  have room': "has_room (wal_client wal) w (Suc 0) (length (pending_data (wal_open wal)) + 0)" using room by simp
  have "wal_ok W wal' w' ds \<and> wal_config wal' = wal_config wal \<and> dir_frame w' = dir_frame w \<and>
    (if r = Inr () then wal_inv W wal' w' ds (log_bytes W (dc_records (last ds))) \<and> (sync \<longrightarrow> ends_synced w') \<and> (calm w \<longrightarrow> calm w')
     else r = Inl (Err Other) \<and> wal_stopped W wal' w' ds \<and> (calm w \<longrightarrow> worker w = None))"
    using ok [unfolded wal_ok_def]
  proof
    assume "\<exists>out. wal_inv W wal w ds out"
    then obtain out where inv: "wal_inv W wal w ds out" by blast
    show ?thesis
      by (cases rule: send_pending_cases [OF inv room', where sync = sync and cb = cb])
        (use send in \<open>auto simp: wal_ok_def\<close>)
  next
    assume st: "wal_stopped W wal w ds"
    then have "worker w = None" by (simp add: wal_stopped_def)
    then show ?thesis
      by (rule_tac stopped_send_pending [OF st room', where sync = sync and cb = cb]) (use send in \<open>auto simp: wal_ok_def\<close>)
  qed
  then show "wal_ok W wal' w' ds" "wal_config wal' = wal_config wal" "dir_frame w' = dir_frame w"
    "r = Inr () \<Longrightarrow> wal_inv W wal' w' ds (log_bytes W (dc_records (last ds))) \<and> (sync \<longrightarrow> ends_synced w') \<and>
      (calm w \<longrightarrow> calm w')"
    "r \<noteq> Inr () \<Longrightarrow> r = Inl (Err Other) \<and> wal_stopped W wal' w' ds \<and> (calm w \<longrightarrow> worker w = None)" by (simp_all split: if_splits)
qed

lemma wait_worker_idle_world:
  assumes "wait_worker_idle (wal, w) = (r, (wal', w'))"
  shows "wal' = wal" and "w' = w \<or> w' = run w"
  using assms by (auto simp: wait_worker_idle_def wait_idle_def Let_def split: option.splits)

text \<open>Closing a full chunk, with success or with an error that left no new file behind.\<close>

lemma wal_ok_close:
  fixes w :: "('cb, 'c) world"
  assumes W: "wal_types W" and ok: "wal_ok W wal w ds" and full: "is_open_chunk_full wal"
    and ck: "ck = sm_checkpoint SM sm" "encodable W (Checkpoint ck)"
      "dc_end W (last ds) + length (bytes_of W (Checkpoint ck)) < 2 ^ 64"
    and room: "has_room (wal_client wal) w 3 (length (pending_data (wal_open wal)) + length (bytes_of W (Checkpoint ck)))"
    and res: "try_close_full_chunk W SM sm (wal, w) = (r, (wal', w'))"
  shows "case r of
      Inr _ \<Rightarrow> r = Inr (Some ck) \<and> wal_config wal' = wal_config wal \<and> wal_ok W wal' w' (ds @ [next_chunk W ds (next_ino w) ck])
    | Inl e \<Rightarrow> entries w' = entries w \<longrightarrow> wal_ok W wal' w' ds \<and> wal_config wal' = wal_config wal"
proof -
  consider out where "wal_inv W wal w ds out" | "wal_stopped W wal w ds" using ok by (auto simp: wal_ok_def)
  then show ?thesis
  proof cases
    case 1
    show ?thesis
      by (cases rule: try_close_full_chunk_cases [OF W 1 full ck room refl]) (use res in \<open>auto simp: wal_ok_def\<close>)
  next
    case 2
    have room': "has_room (wal_client wal) w (Suc 2) (length (pending_data (wal_open wal)) + length (bytes_of W (Checkpoint ck)))"
      using room by (simp add: numeral_3_eq_3 numeral_2_eq_2)
    obtain wal1 w1 where "send_pending True None (wal, w) = (Inl (Err Other), (wal1, w1))" "wal_stopped W wal1 w1 ds"
      "wal_config wal1 = wal_config wal"
      by (rule stopped_send_pending [OF 2 room'])
    then show ?thesis using res full by (auto simp: try_close_full_chunk_def io_bind_app wal_ok_def)
  qed
qed

section \<open>Runs\<close>

definition log_records :: "('a, 'c) disk_chunk list \<Rightarrow> ('a, 'c) wal_record list" where
  "log_records ds = concat (map dc_records ds)"

lemma log_records_simps [simp]:
  "log_records (ds @ es) = log_records ds @ log_records es" "log_records [d] = dc_records d"
  by (simp_all add: log_records_def)

lemma log_records_add: "ds \<noteq> [] \<Longrightarrow> log_records (add_record r ds) = log_records ds @ [r]"
  by (cases ds rule: rev_cases) (simp_all add: add_record_def)

text \<open>
  The ordinary use of a log: any sequence of appends (accepted or rejected), flushes, waits, attempts to
  close a chunk and runs of the worker, while the kernel may at any time schedule any faults of the next
  system calls. A run is limited in the following ways.
  \<^item> The operations have the space they need: in the channel (\<open>has_room\<close>: no send finds it full), in the
    byte counter, in the sequence numbers and in the 64-bit offsets of the log. For a full channel see
    \<open>full_channel_failure_hangs\<close>.
  \<^item> A closing that fails is a step only when it leaves the directory as it was (\<open>close_fails\<close>), and the
    checkpoint of every closing can be encoded. A failure behind the creation of the new file is not
    covered, and could not be: it leaves a file that may keep the directory from being opened, or loses
    the closed chunk in memory (theory \<open>Close_Failure\<close>).
  \<^item> Chunks are not removed, and the log is not shut down: see the theories \<open>Purge\<close> (which also shows that
    removing chunks can lose the log in a crash) and \<open>Shutdown\<close>.
\<close>

inductive wal_run :: "('a, 'c) wal_types \<Rightarrow> ('a, 'c, 'sm) state_machine \<Rightarrow> ('cb, 'c) wal_state \<Rightarrow> ('a, 'c) wal_record list \<Rightarrow>
    ('cb, 'c) wal_state \<Rightarrow> bool" 
  for W :: "('a, 'c) wal_types" and SM :: "('a, 'c, 'sm) state_machine" and s :: "('cb, 'c) wal_state" where
  start: "wal_run W SM s [] s"
| append: "wal_run W SM s rs (wal, w) \<Longrightarrow> wal_append W r (wal, w) = (Inr (), s') \<Longrightarrow>
    global_end (oc_chunk (wal_open wal)) + length (bytes_of W r) < 2 ^ 64 \<Longrightarrow> wal_run W SM s (rs @ [r]) s'"
| rejected: "wal_run W SM s rs (wal, w) \<Longrightarrow> wal_append W r (wal, w) = (Inl e, s') \<Longrightarrow>
    global_end (oc_chunk (wal_open wal)) + length (bytes_of W r) < 2 ^ 64 \<Longrightarrow> wal_run W SM s rs s'"
| flush: "wal_run W SM s rs (wal, w) \<Longrightarrow> send_pending sync cb (wal, w) = (res, s') \<Longrightarrow>
    has_room (wal_client wal) w 1 (length (pending_data (wal_open wal))) \<Longrightarrow> wal_run W SM s rs s'"
| waits: "wal_run W SM s rs (wal, w) \<Longrightarrow> wait_worker_idle (wal, w) = (res, s') \<Longrightarrow> wal_run W SM s rs s'"
| close_full: "wal_run W SM s rs (wal, w) \<Longrightarrow> is_open_chunk_full wal \<Longrightarrow> ck = sm_checkpoint SM sm \<Longrightarrow>
    try_close_full_chunk W SM sm (wal, w) = (Inr res, s') \<Longrightarrow> encodable W (Checkpoint ck) \<Longrightarrow>
    global_end (oc_chunk (wal_open wal)) + length (bytes_of W (Checkpoint ck)) < 2 ^ 64 \<Longrightarrow>
    has_room (wal_client wal) w 3 (length (pending_data (wal_open wal)) + length (bytes_of W (Checkpoint ck))) \<Longrightarrow>
    wal_run W SM s (rs @ [Checkpoint ck]) s'"
| close_fails: "wal_run W SM s rs (wal, w) \<Longrightarrow> is_open_chunk_full wal \<Longrightarrow> ck = sm_checkpoint SM sm \<Longrightarrow>
    try_close_full_chunk W SM sm (wal, w) = (Inl e, (wal', w')) \<Longrightarrow> entries w' = entries w \<Longrightarrow> encodable W (Checkpoint ck) \<Longrightarrow>
    global_end (oc_chunk (wal_open wal)) + length (bytes_of W (Checkpoint ck)) < 2 ^ 64 \<Longrightarrow>
    has_room (wal_client wal) w 3 (length (pending_data (wal_open wal)) + length (bytes_of W (Checkpoint ck))) \<Longrightarrow>
    wal_run W SM s rs (wal', w')"
| not_full: "wal_run W SM s rs (wal, w) \<Longrightarrow> \<not> is_open_chunk_full wal \<Longrightarrow>
    try_close_full_chunk W SM sm (wal, w) = (res, s') \<Longrightarrow> wal_run W SM s rs s'"
| worker_runs: "wal_run W SM s rs (wal, w) \<Longrightarrow> wal_run W SM s rs (wal, run w)"
| kernel_faults: "wal_run W SM s rs (wal, w) \<Longrightarrow> wal_run W SM s rs (wal, w\<lparr>script := sc\<rparr>)"

inductive_cases wal_runE: "wal_run W SM s rs s'"

lemma wal_holds_end: "wal_holds W wal ds out \<Longrightarrow> global_end (oc_chunk (wal_open wal)) = dc_end W (last ds)"
  using open_holds_end by (auto simp: wal_holds_def dc_end_def)

lemma wal_append_encodable: "wal_append W r (wal, w) = (Inr (), s') \<Longrightarrow> encodable W r"
  using wal_append_rejected [of W r wal w] by force

text \<open>Chunks stay and only grow.\<close>

definition chunks_grow :: "('a, 'c) disk_chunk list \<Rightarrow> ('a, 'c) disk_chunk list \<Rightarrow> bool" where
  "chunks_grow ds ds' = (\<forall>d \<in> set ds. \<exists>e \<in> set ds'. dc_id e = dc_id d \<and> dc_file e = dc_file d \<and>
     prefix (dc_records d) (dc_records e))"

lemma chunks_grow_refl [simp]: "chunks_grow ds ds"
  by (auto simp: chunks_grow_def)

lemma chunks_grow_snoc: "chunks_grow ds es \<Longrightarrow> chunks_grow ds (es @ [d])"
  by (auto simp: chunks_grow_def)

lemma chunks_grow_add:
  assumes "chunks_grow ds es" and "es \<noteq> []"
  shows "chunks_grow ds (add_record r es)"
  unfolding chunks_grow_def
proof
  fix d assume "d \<in> set ds"
  then obtain e where e: "e \<in> set es" "dc_id e = dc_id d" "dc_file e = dc_file d" "prefix (dc_records d) (dc_records e)"
    using assms(1) by (auto simp: chunks_grow_def)
  have "e \<in> set (butlast es) \<or> e = last es" using e(1) assms(2) by (cases es rule: rev_cases) auto
  then show "\<exists>e \<in> set (add_record r es). dc_id e = dc_id d \<and> dc_file e = dc_file d \<and> prefix (dc_records d) (dc_records e)"
    using e(2-4) by (auto simp: add_record_def intro: prefix_prefix)
qed

lemma wal_ok_holds:
  assumes "wal_ok W wal w ds"
  obtains out where "wal_holds W wal ds out" "ds \<noteq> []"
  using assms by (auto simp: wal_ok_def wal_inv_def wal_stopped_def wal_holds_def)

text \<open>The log of a run: the invariant holds for chunks with the records of the start and those that were added.\<close>

definition run_holds :: "('a, 'c) wal_types \<Rightarrow> config \<Rightarrow> ('a, 'c) disk_chunk list \<Rightarrow> ('a, 'c) wal_record list \<Rightarrow>
    ('cb, 'c) wal_state \<Rightarrow> bool" where
  "run_holds W cfg ds rs s = (\<exists>ds'. wal_ok W (fst s) (snd s) ds' \<and> wal_config (fst s) = cfg \<and>
     log_records ds' = log_records ds @ rs \<and> chunks_grow ds ds')"

lemma run_holds_same:
  assumes "run_holds W cfg ds rs s"
    and "\<And>ds'. wal_ok W (fst s) (snd s) ds' \<Longrightarrow> wal_ok W (fst s') (snd s') ds' \<and> wal_config (fst s') = wal_config (fst s)"
  shows "run_holds W cfg ds rs s'"
  using assms unfolding run_holds_def by metis

lemma wal_append_config: "wal_append W r (wal, w) = (res, (wal', w')) \<Longrightarrow> wal_config wal' = wal_config wal"
  by (auto simp: wal_append_def split: prod.splits sum.splits)

lemma run_holds_append:
  assumes W: "wal_types W" and h: "run_holds W cfg ds rs (wal, w)" and ap: "wal_append W r (wal, w) = (res, s')"
    and fits: "global_end (oc_chunk (wal_open wal)) + length (bytes_of W r) < 2 ^ 64"
  shows "run_holds W cfg ds (case res of Inr _ \<Rightarrow> rs @ [r] | Inl _ \<Rightarrow> rs) s'"
proof -
  obtain ds' where ds': "wal_ok W wal w ds'" "wal_config wal = cfg" "log_records ds' = log_records ds @ rs" "chunks_grow ds ds'"
    using h by (auto simp: run_holds_def)
  obtain out where out: "wal_holds W wal ds' out" "ds' \<noteq> []" by (rule wal_ok_holds [OF ds'(1)])
  show ?thesis
  proof (cases "encodable W r")
    case True
    have "dc_end W (last ds') + length (bytes_of W r) < 2 ^ 64" using fits wal_holds_end [OF out(1)] by simp
    from wal_ok_append [OF W ds'(1) True this] obtain wal' where
      wal': "wal_append W r (wal, w) = (Inr (), (wal', w))" "wal_ok W wal' w (add_record r ds')" by blast
    then have "res = Inr ()" "s' = (wal', w)" "wal_config wal' = cfg"
      using ap ds'(2) wal_append_config [OF wal'(1)] by simp_all
    moreover have "log_records (add_record r ds') = log_records ds @ rs @ [r]" "chunks_grow ds (add_record r ds')"
      using ds'(3) log_records_add [OF out(2)] chunks_grow_add [OF ds'(4) out(2)] by simp_all
    ultimately show ?thesis
      unfolding run_holds_def using wal'(2) by (intro exI [of _ "add_record r ds'"]) simp
  next
    case False
    obtain e where "wal_append W r (wal, w) = (Inl (Err e), (wal, w))" using wal_append_rejected [OF False] by blast
    then show ?thesis using ap h by auto
  qed
qed

lemma run_holds_close:
  assumes W: "wal_types W" and h: "run_holds W cfg ds rs (wal, w)" and full: "is_open_chunk_full wal"
    and ck: "ck = sm_checkpoint SM sm" "encodable W (Checkpoint ck)"
    and fits: "global_end (oc_chunk (wal_open wal)) + length (bytes_of W (Checkpoint ck)) < 2 ^ 64"
    and room: "has_room (wal_client wal) w 3 (length (pending_data (wal_open wal)) + length (bytes_of W (Checkpoint ck)))"
    and res: "try_close_full_chunk W SM sm (wal, w) = (r, (wal', w'))"
  shows "r = Inr x \<Longrightarrow> run_holds W cfg ds (rs @ [Checkpoint ck]) (wal', w')"
    and "r = Inl e \<Longrightarrow> entries w' = entries w \<Longrightarrow> run_holds W cfg ds rs (wal', w')"
proof -
  obtain ds' where ds': "wal_ok W wal w ds'" "wal_config wal = cfg" "log_records ds' = log_records ds @ rs" "chunks_grow ds ds'"
    using h by (auto simp: run_holds_def)
  obtain out where out: "wal_holds W wal ds' out" "ds' \<noteq> []" by (rule wal_ok_holds [OF ds'(1)])
  have "dc_end W (last ds') + length (bytes_of W (Checkpoint ck)) < 2 ^ 64" using fits wal_holds_end [OF out(1)] by simp
  note c = wal_ok_close [OF W ds'(1) full ck this room res]
  show "run_holds W cfg ds (rs @ [Checkpoint ck]) (wal', w')" if "r = Inr x"
    using c that ds'(2-4) out(2) unfolding run_holds_def
    by (intro exI [of _ "ds' @ [next_chunk W ds' (next_ino w) ck]"]) (auto simp: next_chunk_def chunks_grow_snoc)
  show "run_holds W cfg ds rs (wal', w')" if "r = Inl e" "entries w' = entries w"
    using c that ds'(2-4) unfolding run_holds_def by auto
qed

lemma wal_run_ok:
  assumes W: "wal_types W" and "wal_run W SM (wal0, w0) rs s'" and "wal_ok W wal0 w0 ds"
  shows "run_holds W (wal_config wal0) ds rs s'"
  using assms(2)
proof (induction rule: wal_run.induct)
  case start
  then show ?case using assms(3) by (auto simp: run_holds_def)
next
  case (append rs wal w r s')
  from run_holds_append [OF W append(4,2,3)] show ?case by simp
next
  case (rejected rs wal w r e s')
  from run_holds_append [OF W rejected(4,2,3)] show ?case by simp
next
  case (flush rs wal w sync cb res s')
  obtain wal' w' where s': "s' = (wal', w')" by (cases s')
  show ?case
  proof (rule run_holds_same [OF flush.IH])
    fix ds'
    assume "wal_ok W (fst (wal, w)) (snd (wal, w)) ds'"
    then have "wal_ok W wal w ds'" by simp
    note wal_ok_flush(1,2) [OF this flush(3,2) [unfolded s']]
    then show "wal_ok W (fst s') (snd s') ds' \<and> wal_config (fst s') = wal_config (fst (wal, w))" using s' by simp
  qed
next
  case (waits rs wal w res s')
  obtain wal' w' where s': "s' = (wal', w')" by (cases s')
  note waited = wait_worker_idle_world [OF waits(2) [unfolded s']]
  show ?case by (rule run_holds_same [OF waits.IH]) (use waited s' wal_ok_run [of W wal w] in auto)
next
  case (close_full rs wal w ck sm res s')
  obtain wal' w' where s': "s' = (wal', w')" by (cases s')
  show ?case
    unfolding s' by (rule run_holds_close(1) [OF W close_full.IH close_full(2,3,5-7) close_full(4) [unfolded s'] refl])
next
  case (close_fails rs wal w ck sm e wal' w')
  show ?case by (rule run_holds_close(2) [OF W close_fails.IH close_fails(2,3,6,7,8,4) refl close_fails(5)])
next
  case (not_full rs wal w sm res s')
  then show ?case by (simp add: try_close_full_chunk_def)
next
  case (worker_runs rs wal w)
  show ?case by (rule run_holds_same [OF worker_runs.IH]) (simp add: wal_ok_run)
next
  case (kernel_faults rs wal w sc)
  show ?case by (rule run_holds_same [OF kernel_faults.IH]) (simp add: wal_ok_script)
qed

section \<open>Properties\<close>

text \<open>The two chunks of the examples, with a committed directory.\<close>

text \<open>A directory with these chunks, of the second of which the first \<open>k\<close> bytes are on stable storage.\<close>

definition safe_disk :: "nat \<Rightarrow> (nat, byte list) world" where
  "safe_disk k = set_inode 1 \<lparr>content = bytes_of test_wal demo_vote, synced = take k (bytes_of test_wal demo_vote)\<rparr>
     ((demo_disk [])\<lparr>
       entries := [(chunk_path demo_config (ChunkId 12), 1), (chunk_path demo_config (ChunkId 0), 0)],
       synced_entries := [(chunk_path demo_config (ChunkId 12), 1), (chunk_path demo_config (ChunkId 0), 0)]\<rparr>)"

lemma demo_disk_synced: "synced_of (demo_disk rest) i = content_of (demo_disk rest) i"
  by (simp add: demo_disk_def demo_dir_def fs.defs world.defs inode_def split: option.splits)

lemma safe_disk_sel [simp]:
  "script (safe_disk k) = []" "dirs (safe_disk k) = [''d'']" "panic_on (safe_disk k) = (\<lambda>_. False)"
  "content_of (safe_disk k) 0 = bytes_of test_wal demo_vote" "content_of (safe_disk k) 1 = bytes_of test_wal demo_vote"
  "content_of (safe_disk k) (Suc 0) = bytes_of test_wal demo_vote"
  "clean (safe_disk k) 0" "synced_of (safe_disk k) (Suc 0) = take k (bytes_of test_wal demo_vote)"
  by (simp_all add: safe_disk_def clean_def demo_disk_synced) (simp add: set_inode_def)

lemma safe_disk_entries:
  "entries (safe_disk k) = [(chunk_path demo_config (ChunkId 12), 1), (chunk_path demo_config (ChunkId 0), 0)]"
  "synced_entries (safe_disk k) = entries (safe_disk k)" "next_ino (safe_disk k) = 3"
  by (simp_all add: safe_disk_def)

lemma safe_disk_ok:
  "log_image test_wal demo_config (safe_disk k) [vote_chunk 0 0, vote_chunk 12 1] [] []"
  "wf_fs (safe_disk k)" "calm (safe_disk k)" "files_safe (safe_disk k) [vote_chunk 0 0, vote_chunk 12 1]"
proof -
  have ids: "chunk_ids_of (dir_names (dir demo_config) (safe_disk k)) = [ChunkId 12, ChunkId 0]"
    by (simp add: safe_disk_entries chunk_ids_entries entry_ids_chunk_path)
  have lk: "lookup (safe_disk k) (chunk_path demo_config (ChunkId 0)) = Some 0"
    "lookup (safe_disk k) (chunk_path demo_config (ChunkId 12)) = Some 1"
    by (simp_all add: safe_disk_entries chunk_path_eq_iff)
  show "log_image test_wal demo_config (safe_disk k) [vote_chunk 0 0, vote_chunk 12 1] [] []"
    using ids lk vote_chunk_ok [of 0 0] vote_chunk_ok [of 12 1]
    by (simp add: log_image_def dir_image_def stored_def chunk_on_disk_def vote_chunk_def less_chunk_id_def
        bytes_of_vote demo_config_dir)
  show "wf_fs (safe_disk k)" by (simp add: wf_fs_def safe_disk_entries chunk_path_eq_iff)
  show "calm (safe_disk k)"
    by (simp add: calm_def) (simp add: safe_disk_def set_inode_def demo_disk_def fs.defs world.defs)
  show "files_safe (safe_disk k) [vote_chunk 0 0, vote_chunk 12 1]"
    by (simp add: files_safe_def vote_chunk_def take_is_prefix)
qed

text \<open>
  C6. A log in use refines the list of its records, also while the kernel fails system calls. The operations
  are those of \<open>wal_run\<close>: appends, flushes, waits, attempts to close a chunk and runs of the worker in any
  order, where the sends find space and a closing that fails has left no new file behind; removing
  chunks, shutting down and the other failures of a closing are not among them. Whatever sequence of these
  follows on a log in use, there is a list of consecutive chunks that holds exactly the records of the
  start and those whose append or closing succeeded, in order. Either the worker runs and every byte of
  them is in its file, on its way in the channel or in the buffer of the open chunk, or it has stopped,
  the index in memory still describes these chunks, and the files hold complete chunks, a cut one, and
  empty ones.
\<close>

theorem log_in_use_refines:
  assumes "wal_types W" and "wal_ok W wal w ds" and "wal_run W SM (wal, w) rs (wal', w')"
  shows "\<exists>ds'. wal_ok W wal' w' ds' \<and> wal_config wal' = wal_config wal \<and> log_records ds' = log_records ds @ rs"
  using wal_run_ok [OF assms(1,3,2)] by (auto simp: run_holds_def)

theorem log_in_use_refines_witness:
  "\<exists>wal (w :: (nat, byte list) world) ds. script w = [Fault Other] \<and> wal_ok test_wal wal w ds \<and>
    log_records ds = [demo_vote, demo_vote, demo_vote]"
proof -
  obtain wal w where op: "open_locked test_wal demo_config demo_sm demo_lock ([], safe_disk 12) =
      (Inr wal, ([demo_vote, demo_vote], w))"
    and inv: "wal_inv test_wal wal w [vote_chunk 0 0, vote_chunk 12 1]
      (log_bytes test_wal (dc_records (last [vote_chunk 0 0, vote_chunk 12 1])))" and calm: "calm w"
    using open_clean_inv [OF test_wal_ok safe_disk_ok(1,3) demo_config_dir(2) demo_replay safe_disk_ok(2) safe_disk_entries(2) safe_disk_ok(4)]
    by metis
  have "dc_end test_wal (last [vote_chunk 0 0, vote_chunk 12 1]) + length (bytes_of test_wal demo_vote) < 2 ^ 64"
    by (simp add: vote_chunk_ok bytes_of_vote)
  from wal_inv_append [OF test_wal_ok inv encodable_vote this] obtain wal' where
    ap: "wal_append test_wal demo_vote (wal, w) = (Inr (), (wal', w))" by blast
  have "wal_holds test_wal wal [vote_chunk 0 0, vote_chunk 12 1]
      (log_bytes test_wal (dc_records (last [vote_chunk 0 0, vote_chunk 12 1])))"
    using inv by (simp only: wal_inv_def)
  from wal_holds_end [OF this] have "global_end (oc_chunk (wal_open wal)) = 24"
    by (simp add: vote_chunk_ok)
  then have "wal_run test_wal demo_sm (wal, w) ([] @ [demo_vote]) (wal', w)"
    using ap by (intro wal_run.append [OF wal_run.start ap]) (simp add: bytes_of_vote)
  from wal_run.kernel_faults [OF this, of "[Fault Other]"]
  have "wal_run test_wal demo_sm (wal, w) ([] @ [demo_vote]) (wal', w\<lparr>script := [Fault Other]\<rparr>)" .
  moreover have "wal_ok test_wal wal w [vote_chunk 0 0, vote_chunk 12 1]" using inv by (auto simp: wal_ok_def)
  ultimately obtain ds where "wal_ok test_wal wal' (w\<lparr>script := [Fault Other]\<rparr>) ds"
    "log_records ds = [demo_vote, demo_vote, demo_vote]"
    using log_in_use_refines [OF test_wal_ok] by (fastforce simp: log_records_def vote_chunk_def)
  moreover have "script (w\<lparr>script := [Fault Other]\<rparr>) = [Fault Other]" by simp
  ultimately show ?thesis by blast
qed

end
