(* ===== verification/Crash.thy ===== *)
theory Crash
  imports Wal_Run
begin

text \<open>
  What a crash leaves of a log. A crash keeps of every file at least the bytes on stable storage and at
  most those that were written, which then are on stable storage, and the committed directory. What opening finds then is again the image
  of a log, possibly with a torn end: its records are a prefix of what the log held and contain every
  record that was on stable storage.

  Only prefixes are left by such a crash. A file system that also extends a file with zeros it never
  wrote is not covered here; what the code does with zeros behind the records of the last chunk, and with
  a last chunk file that holds only zeros, is shown for loading (\<open>load_damaged\<close>) and for opening
  (\<open>open_repairs_torn_tail\<close>, and the incomplete successors of \<open>dir_image\<close>).
\<close>

section \<open>What a crash leaves\<close>

definition crash_image :: "('cb, 'c) world \<Rightarrow> ('cb, 'c) world \<Rightarrow> bool" where
  "crash_image w v =
     (entries v = synced_entries w \<and> synced_entries v = entries v \<and> dirs v = dirs w \<and> next_ino v = next_ino w \<and>
      script v = [] \<and> panic_on v = (\<lambda>_. False) \<and>
      (\<forall>i \<in> snd ` set (synced_entries w).
         prefix (synced_of w i) (content_of v i) \<and> prefix (content_of v i) (content_of w i) \<and> clean v i))"

text \<open>The situation of a crash: a directory that holds the chunks \<open>ds\<close>, and what the crash left of it.\<close>

definition crash_base :: "('a, 'c) wal_types \<Rightarrow> config \<Rightarrow> ('cb, 'c) world \<Rightarrow> ('a, 'c) disk_chunk list \<Rightarrow>
    ('cb, 'c) world \<Rightarrow> bool" where
  "crash_base W cfg w ds v =
     (wal_types W \<and> dir_holds cfg w ds \<and> list_all (dc_ok W) ds \<and> consecutive W ds \<and> crash_image w v)"

lemma crash_kept:
  assumes "crash_base W cfg w ds v" and "d \<in> set ds"
  shows "prefix (synced_of w (dc_file d)) (content_of v (dc_file d))"
    and "prefix (content_of v (dc_file d)) (content_of w (dc_file d))"
proof -
  have "lookup w (chunk_path cfg (dc_id d)) = Some (dc_file d)" "synced_entries w = entries w"
    using assms by (auto simp: crash_base_def dir_holds_def list_all_iff)
  then have "dc_file d \<in> snd ` set (synced_entries w)" by (force dest: map_of_SomeD)
  then show "prefix (synced_of w (dc_file d)) (content_of v (dc_file d))"
    "prefix (content_of v (dc_file d)) (content_of w (dc_file d))"
    using assms(1) by (auto simp: crash_base_def crash_image_def)
qed

lemma crash_fs:
  assumes "crash_base W cfg w ds v"
  shows "wf_fs v" and "synced_entries v = entries v" and "d \<in> set ds \<Longrightarrow> clean v (dc_file d)"
proof -
  have d: "dir_holds cfg w ds" and c: "crash_image w v" using assms by (auto simp: crash_base_def)
  then show "wf_fs v" "synced_entries v = entries v"
    by (simp_all add: dir_holds_def crash_image_def wf_fs_def)
  show "clean v (dc_file d)" if "d \<in> set ds"
  proof -
    have "lookup w (chunk_path cfg (dc_id d)) = Some (dc_file d)" "synced_entries w = entries w"
      using d that by (auto simp: dir_holds_def list_all_iff)
    then have "dc_file d \<in> snd ` set (synced_entries w)" by (force dest: map_of_SomeD)
    then show ?thesis using c by (auto simp: crash_image_def)
  qed
qed

lemma crash_content:
  assumes "crash_base W cfg w ds v" and "d \<in> set ds" and "clean w (dc_file d)"
  shows "content_of v (dc_file d) = content_of w (dc_file d)"
  using crash_kept [OF assms(1,2)] assms(3) by (simp add: clean_def prefix_order.antisym)

text \<open>The bytes of the log after a crash: complete files, one that may be cut, empty files.\<close>

lemma targets_chunks:
  assumes "targets W ds out = tp @ c # tq" and "ds \<noteq> []" and "prefix out (log_bytes W (dc_records (last ds)))"
  obtains pre d post where "ds = pre @ d # post" "tp = map (chunk_target W) pre" "fst c = dc_file d"
    "prefix (snd c) (log_bytes W (dc_records d))" "map fst tq = map dc_file post"
proof -
  obtain init l where ds: "ds = init @ [l]" using assms(2) by (cases ds rule: rev_cases) auto
  have ts: "map (chunk_target W) init @ [(dc_file l, out)] = tp @ c # tq" using assms(1) ds by (simp add: targets_snoc)
  show thesis
  proof (cases tq rule: rev_cases)
    case Nil
    then show ?thesis using that [of init l "[]"] ts ds assms(3) by auto
  next
    case (snoc tr t)
    then have "map (chunk_target W) init = tp @ c # tr" "t = (dc_file l, out)" using ts by auto
    then obtain pre d post where "init = pre @ d # post" "tp = map (chunk_target W) pre" "c = chunk_target W d"
      "tr = map (chunk_target W) post"
      by (auto simp: map_eq_append_conv map_eq_Cons_conv)
    then show ?thesis using that [of pre d "post @ [l]"] ds snoc \<open>t = _\<close> by (simp add: comp_def)
  qed
qed

lemma crash_settled:
  assumes base: "crash_base W cfg w ds v" and st: "settled (targets W ds out) w" and ne: "ds \<noteq> []"
    and out: "prefix out (log_bytes W (dc_records (last ds)))"
  obtains pre d post where "ds = pre @ d # post"
    "\<forall>e \<in> set pre. content_of v (dc_file e) = log_bytes W (dc_records e)"
    "prefix (content_of v (dc_file d)) (log_bytes W (dc_records d))"
    "\<forall>e \<in> set post. content_of v (dc_file e) = [] \<and> synced_of w (dc_file e) = []"
proof -
  obtain tp c tq where ts: "targets W ds out = tp @ c # tq" and pre: "list_all (landed w) tp"
    and cur: "prefix (content_of w (fst c)) (snd c)" and post: "list_all (untouched w) tq"
    using st by (auto simp: settled_def)
  obtain ds1 d ds2 where ds: "ds = ds1 @ d # ds2" "tp = map (chunk_target W) ds1" "fst c = dc_file d"
    "prefix (snd c) (log_bytes W (dc_records d))" "map fst tq = map dc_file ds2"
    by (rule targets_chunks [OF ts ne out])
  have kept: "prefix (content_of v (dc_file e)) (content_of w (dc_file e))" if "e \<in> set (ds1 @ d # ds2)" for e
    by (rule crash_kept(2) [OF base]) (use that ds(1) in simp)
  have "\<forall>e \<in> set ds1. content_of v (dc_file e) = log_bytes W (dc_records e)"
    using pre ds(1,2) crash_content [OF base] by (simp add: list_all_iff landed_def)
  moreover have "prefix (content_of v (dc_file d)) (log_bytes W (dc_records d))"
    using kept [of d] cur ds(3,4) by (metis in_set_conv_decomp prefix_order.trans)
  moreover have "\<forall>e \<in> set ds2. content_of v (dc_file e) = [] \<and> synced_of w (dc_file e) = []"
  proof -
    have "list_all (\<lambda>i. content_of w i = [] \<and> synced_of w i = []) (map dc_file ds2)"
      using post by (simp only: untouched_names ds(5))
    then have "\<forall>e \<in> set ds2. content_of w (dc_file e) = [] \<and> synced_of w (dc_file e) = []"
      by (simp add: list_all_iff)
    moreover have "prefix (content_of v (dc_file e)) (content_of w (dc_file e))" if "e \<in> set ds2" for e
      by (rule kept) (use that in simp)
    ultimately show ?thesis by fastforce
  qed
  ultimately show thesis using that ds(1) by blast
qed

section \<open>What opening finds\<close>

text \<open>The chunk as it is after its file was cut: the records that are whole.\<close>

definition cut_chunk :: "('a, 'c) wal_types \<Rightarrow> nat \<Rightarrow> ('a, 'c) disk_chunk \<Rightarrow> ('a, 'c) disk_chunk" where
  "cut_chunk W k d = d\<lparr>dc_records := records_within W (dc_records d) k\<rparr>"

lemma cut_chunk_sel [simp]:
  "dc_id (cut_chunk W k d) = dc_id d" "dc_file (cut_chunk W k d) = dc_file d"
  "dc_records (cut_chunk W k d) = records_within W (dc_records d) k"
  by (simp_all add: cut_chunk_def)

lemma dc_end_cut: "dc_end W (cut_chunk W k d) \<le> dc_end W d"
proof -
  obtain zs where "dc_records d = records_within W (dc_records d) k @ zs"
    using records_within_prefix by (metis prefix_def)
  then have "log_bytes W (dc_records d) = log_bytes W (records_within W (dc_records d) k) @ log_bytes W zs"
    by (metis log_bytes_simps(3))
  then show ?thesis by (simp add: dc_end_def)
qed

lemma dc_ok_cut: "dc_ok W d \<Longrightarrow> records_within W (dc_records d) k \<noteq> [] \<Longrightarrow> dc_ok W (cut_chunk W k d)"
  using dc_end_cut [of W k d] by (auto simp: dc_ok_def intro: records_within_encodable)

text \<open>What is behind the whole records of a cut file is a torn record, if anything.\<close>

lemma cut_rest:
  assumes "wal_types W" and "list_all (encodable W) rs" and "prefix bs (log_bytes W rs)"
  obtains rest where "bs = log_bytes W (records_within W rs (length bs)) @ rest"
    "rest = [] \<or> wal_decode W rest = Inl UnexpectedEof"
proof -
  have bs: "take (length bs) (log_bytes W rs) = bs" using assms(3) by (auto simp: prefix_def)
  show thesis
  proof (cases rule: records_within_cut [of "length bs" W rs])
    case whole
    then show ?thesis using that [of "[]"] bs by simp
  next
    case (torn r p)
    then have "wal_decode W p = Inl UnexpectedEof"
      using wal_types.bytes_of_torn [OF assms(1), of r p] assms(2) by (simp add: list_all_iff)
    then show ?thesis using that [of p] torn(4) bs by simp
  qed
qed

definition blank_of :: "'z fs_scheme \<Rightarrow> ('a, 'c) disk_chunk \<Rightarrow> blank_chunk" where
  "blank_of v d = (dc_id d, dc_file d, content_of v (dc_file d))"

lemma blank_of_ids: "map fst (map (blank_of v) ds) = map dc_id ds"
  by (simp add: blank_of_def)

lemma crash_on_disk:
  assumes "crash_base W cfg w ds v" and "d \<in> set ds" and "prefix (content_of v (dc_file d)) (log_bytes W (dc_records d))"
  shows "chunk_on_disk cfg (dc_id d) (dc_file d) (content_of v (dc_file d)) v"
proof -
  have "dc_ok W d" "lookup w (chunk_path cfg (dc_id d)) = Some (dc_file d)" "entries v = entries w" "script v = []"
    using assms(1,2) by (auto simp: crash_base_def dir_holds_def crash_image_def list_all_iff)
  then show ?thesis using prefix_length_le [OF assms(3)] by (simp add: chunk_on_disk_def dc_ok_def dc_end_def)
qed

lemma crash_log_image:
  assumes base: "crash_base W cfg w (ds1 @ ds2) v" and ids: "map dc_id ds' = map dc_id ds1" and "ds' \<noteq> []"
    and "list_all (stored W cfg v []) (butlast ds')" and "stored W cfg v rest (last ds')" and "consecutive W ds'"
    and blank: "\<forall>e \<in> set ds2. blank W (content_of v (dc_file e)) \<and>
      prefix (content_of v (dc_file e)) (log_bytes W (dc_records e))"
  shows "log_image W cfg v ds' rest (map (blank_of v) ds2)"
proof -
  have "list_all (blank_stored W cfg v) (map (blank_of v) ds2)"
    using blank crash_on_disk [OF base] by (auto simp: list_all_iff blank_stored_def blank_of_def)
  moreover have "sorted_wrt (<) (map dc_id (ds1 @ ds2))"
    by (rule consecutive_sorted [of W]) (use base in \<open>simp_all add: crash_base_def\<close>)
  moreover have "mset (chunk_ids_of (dir_names (dir cfg) v)) = mset (map dc_id (ds1 @ ds2))"
    "dir cfg \<in> set (dirs v)" "script v = []"
    using base by (auto simp: crash_base_def crash_image_def dir_holds_def dir_names_def)
  moreover have "map dc_id ds' @ map fst (map (blank_of v) ds2) = map dc_id (ds1 @ ds2)"
    by (simp only: ids blank_of_ids map_append)
  ultimately show ?thesis using assms(3-6) unfolding log_image_def dir_image_def by metis
qed

section \<open>What survives\<close>

lemma dc_entries_prefix:
  assumes "prefix rs (dc_records d)"
  shows "prefix (dc_entries W (d\<lparr>dc_records := rs\<rparr>)) (dc_entries W d)"
proof -
  obtain zs where zs: "dc_records d = rs @ zs" using assms by (auto simp: prefix_def)
  have "located W off (rs @ zs) = located W off rs @ located W (off + length (log_bytes W rs)) zs" for off
    by (induction rs arbitrary: off) (simp_all add: add.assoc)
  then show ?thesis by (simp add: dc_entries_def zs)
qed

lemma records_within_contains:
  "prefix rs recs \<Longrightarrow> length (log_bytes W rs) \<le> k \<Longrightarrow> prefix rs (records_within W recs k)"
  by (induction recs arbitrary: rs k) (auto simp: prefix_Cons)

lemma records_within_all:
  assumes "length (log_bytes W rs) \<le> k"
  shows "records_within W rs k = rs"
  using records_within_contains [OF prefix_order.refl assms] records_within_prefix prefix_order.antisym by metis

lemma dc_end_last:
  assumes "wal_types W" and "consecutive W ds" and "list_all (dc_ok W) ds" and "d \<in> set ds"
  shows "dc_end W d \<le> dc_end W (last ds)"
  using assms(2-4)
proof (induction ds)
  case (Cons e ds)
  show ?case
  proof (cases "ds = []")
    case False
    have "dc_end W e \<le> offset (dc_id (last ds))"
      using consecutive_ascending [OF assms(1) Cons.prems(1,2)] False by simp
    moreover have "offset (dc_id (last ds)) < dc_end W (last ds)"
      using dc_end_greater [OF assms(1)] Cons.prems(2) False by (simp add: list_all_iff)
    moreover have "consecutive W ds" using Cons.prems(1) by (cases ds) auto
    ultimately show ?thesis using Cons False by auto
  qed (use Cons in simp)
qed simp

text \<open>A record that is on stable storage: it lies within the synchronised bytes of its chunk's file.\<close>

definition durable_entries :: "('a, 'c) wal_types \<Rightarrow> ('cb, 'c) world \<Rightarrow> ('a, 'c) disk_chunk \<Rightarrow>
    (chunk_id \<times> segment \<times> ('a, 'c) wal_record) list" where
  "durable_entries W w d = dc_entries W (cut_chunk W (length (synced_of w (dc_file d))) d)"

definition durable_log :: "('a, 'c) wal_types \<Rightarrow> ('cb, 'c) world \<Rightarrow> ('a, 'c) disk_chunk list \<Rightarrow>
    (chunk_id \<times> segment \<times> ('a, 'c) wal_record) set" where
  "durable_log W w ds = (\<Union>d \<in> set ds. set (durable_entries W w d))"

lemma dc_entries_Nil [simp]: "dc_entries W d = [] \<longleftrightarrow> dc_records d = []"
  using length_located [of W "offset (dc_id d)" "dc_records d"]
  by (simp add: dc_entries_def del: length_located) (metis length_0_conv length_located)

lemma records_within_mono:
  assumes "k \<le> n"
  shows "prefix (records_within W rs k) (records_within W rs n)"
  using assms by (induction rs arbitrary: k n) auto

lemma records_within_0:
  assumes "wal_types W" and "list_all (encodable W) rs"
  shows "records_within W rs 0 = []"
proof (cases rs)
  case (Cons r rs')
  then have "4 \<le> length (bytes_of W r)" using wal_types.bytes_of_decode(2) [OF assms(1), of r] assms(2) by simp
  then show ?thesis using Cons by auto
qed simp

lemma durable_entries_cut:
  assumes "length (synced_of w (dc_file d)) \<le> n"
  shows "prefix (durable_entries W w d) (dc_entries W (cut_chunk W n d))"
  using dc_entries_prefix [of "records_within W (dc_records d) (length (synced_of w (dc_file d)))" "cut_chunk W n d" W]
    records_within_mono [OF assms, of W "dc_records d"] by (simp add: durable_entries_def cut_chunk_def)

lemma durable_landed:
  assumes "landed w (chunk_target W d)"
  shows "durable_entries W w d = dc_entries W d"
  using assms by (simp add: durable_entries_def landed_def clean_def records_within_all cut_chunk_def)

lemma durable_log_landed:
  assumes "list_all (landed w) (map (chunk_target W) ds)"
  shows "set (log_entries W ds) \<subseteq> durable_log W w (ds @ es)"
proof -
  have "durable_entries W w d = dc_entries W d" if "d \<in> set ds" for d
    by (rule durable_landed) (use assms that in \<open>simp add: list_all_iff\<close>)
  then show ?thesis by (auto simp: durable_log_def log_entries_def)
qed

lemma durable_entries_within: "prefix (durable_entries W w d) (dc_entries W d)"
  using dc_entries_prefix [OF records_within_prefix] by (simp add: durable_entries_def cut_chunk_def)

lemma blank_cut:
  assumes "wal_types W" and "list_all (encodable W) rs" and "prefix bs (log_bytes W rs)"
    and "records_within W rs (length bs) = []"
  shows "blank W bs"
proof -
  obtain rest where "bs = log_bytes W (records_within W rs (length bs)) @ rest"
    "rest = [] \<or> wal_decode W rest = Inl UnexpectedEof"
    by (rule cut_rest [OF assms(1-3)])
  then show ?thesis using assms(4) by (auto simp: blank_def torn_tail_def)
qed

text \<open>
  The log that opening finds: the chunks before the cut one, the whole records of that one when it has
  any, and behind them nothing or a torn record; the successors have no record.
\<close>

definition survivors :: "('a, 'c) wal_types \<Rightarrow> ('cb, 'c) world \<Rightarrow> ('a, 'c) disk_chunk list \<Rightarrow>
    ('a, 'c) disk_chunk \<Rightarrow> ('a, 'c) disk_chunk list" where
  "survivors W v pre d =
     (let c = cut_chunk W (length (content_of v (dc_file d))) d in if dc_records c = [] then pre else pre @ [c])"

lemma survivors_image:
  assumes base: "crash_base W cfg w (pre @ d # post) v" and ne: "survivors W v pre d \<noteq> []"
    and pre: "\<forall>e \<in> set pre. content_of v (dc_file e) = log_bytes W (dc_records e)"
    and cur: "prefix (content_of v (dc_file d)) (log_bytes W (dc_records d))"
    and post: "\<forall>e \<in> set post. content_of v (dc_file e) = []"
  obtains rest bl where "log_image W cfg v (survivors W v pre d) rest bl"
    "rest = [] \<or> wal_decode W rest = Inl UnexpectedEof"
proof -
  let ?bs = "content_of v (dc_file d)" and ?c = "cut_chunk W (length (content_of v (dc_file d))) d"
  have W: "wal_types W" and ok: "list_all (dc_ok W) (pre @ d # post)" and cons: "consecutive W (pre @ d # post)"
    using base by (auto simp: crash_base_def)
  have enc: "list_all (encodable W) (dc_records d)" using ok by (simp add: dc_ok_def)
  have st: "stored W cfg v [] e" if "e \<in> set pre" for e
    using that pre ok crash_on_disk [OF base, of e] by (auto simp: stored_def list_all_iff)
  have bl: "\<forall>e \<in> set post. blank W (content_of v (dc_file e)) \<and>
      prefix (content_of v (dc_file e)) (log_bytes W (dc_records e))"
    using post by (simp add: blank_def)
  show thesis
  proof (cases "dc_records ?c = []")
    case True
    then have "pre \<noteq> []" and sv: "survivors W v pre d = pre" using ne by (simp_all add: survivors_def)
    moreover have "\<forall>e \<in> set (d # post). blank W (content_of v (dc_file e)) \<and>
        prefix (content_of v (dc_file e)) (log_bytes W (dc_records e))"
      using bl cur blank_cut [OF W enc cur] True by simp
    moreover have "consecutive W pre" by (rule consecutive_prefix [OF cons])
    ultimately have "log_image W cfg v pre [] (map (blank_of v) (d # post))"
      using st by (intro crash_log_image [OF base]) (auto simp: list_all_iff dest: in_set_butlastD)
    then show thesis using that [of "[]"] sv by simp
  next
    case False
    then have sv: "survivors W v pre d = pre @ [?c]" by (simp add: survivors_def)
    obtain rest where rest: "?bs = log_bytes W (dc_records ?c) @ rest"
      "rest = [] \<or> wal_decode W rest = Inl UnexpectedEof"
      by (rule cut_rest [OF W enc cur]) simp
    have "stored W cfg v rest ?c"
      using crash_on_disk [OF base _ cur] dc_ok_cut [of W d] ok False rest(1) by (simp add: stored_def)
    moreover have "consecutive W (pre @ [?c])"
      using consecutive_replace_last [of W pre d ?c] consecutive_prefix [of W "pre @ [d]" post] cons by simp
    moreover have "crash_base W cfg w ((pre @ [d]) @ post) v" using base by simp
    ultimately have "log_image W cfg v (pre @ [?c]) rest (map (blank_of v) post)"
      using st bl by (intro crash_log_image [of W cfg w "pre @ [d]"]) (auto simp: list_all_iff)
    then show thesis using that rest(2) sv by simp
  qed
qed

text \<open>Without a survivor there is no record at all.\<close>

lemma no_survivors:
  assumes base: "crash_base W cfg w (pre @ d # post) v" and none: "survivors W v pre d = []"
    and cur: "prefix (content_of v (dc_file d)) (log_bytes W (dc_records d))"
    and post: "\<forall>e \<in> set post. content_of v (dc_file e) = []"
  shows "blank_image W cfg v (map (blank_of v) (pre @ d # post))"
proof -
  let ?c = "cut_chunk W (length (content_of v (dc_file d))) d" and ?ds = "pre @ d # post"
  have pre: "pre = []" and rec: "records_within W (dc_records d) (length (content_of v (dc_file d))) = []"
    using none by (auto simp: survivors_def Let_def split: if_splits)
  have W: "wal_types W" and ok: "list_all (dc_ok W) ?ds" and cons: "consecutive W ?ds"
    using base by (auto simp: crash_base_def)
  have enc: "list_all (encodable W) (dc_records d)" using ok by (simp add: dc_ok_def)
  have bl: "blank W (content_of v (dc_file e)) \<and> prefix (content_of v (dc_file e)) (log_bytes W (dc_records e))"
    if "e \<in> set ?ds" for e
    using that pre post cur blank_cut [OF W enc cur rec] by (auto simp: blank_def)
  then have "list_all (blank_stored W cfg v) (map (blank_of v) ?ds)"
    using crash_on_disk [OF base] by (auto simp: list_all_iff blank_stored_def blank_of_def)
  moreover have "mset (chunk_ids_of (dir_names (dir cfg) v)) = mset (map dc_id ?ds)"
    "dir cfg \<in> set (dirs v)" "script v = []"
    using base by (auto simp: crash_base_def crash_image_def dir_holds_def dir_names_def)
  moreover have "sorted_wrt (<) (map dc_id ?ds)" by (rule consecutive_sorted [OF W cons ok])
  ultimately show ?thesis unfolding blank_image_def blank_of_ids by blast
qed

text \<open>What opening finds is a prefix of the log, and everything durable is in it.\<close>

lemma survivors_entries:
  assumes base: "crash_base W cfg w (pre @ d # post) v"
  shows "prefix (log_entries W (survivors W v pre d)) (log_entries W (pre @ d # post))"
    and "\<forall>e \<in> set post. synced_of w (dc_file e) = [] \<Longrightarrow> e \<in> set (pre @ d # post) \<Longrightarrow>
      set (durable_entries W w e) \<subseteq> set (log_entries W (survivors W v pre d))"
    and "survivors W v pre d \<noteq> [] \<Longrightarrow> dc_end W (last (survivors W v pre d)) \<le> dc_end W (last (pre @ d # post))"
proof -
  let ?c = "cut_chunk W (length (content_of v (dc_file d))) d"
  have W: "wal_types W" and ok: "list_all (dc_ok W) (pre @ d # post)" and cons: "consecutive W (pre @ d # post)"
    using base by (auto simp: crash_base_def)
  have log: "log_entries W (survivors W v pre d) = log_entries W pre @ dc_entries W ?c"
    by (simp add: survivors_def Let_def)
  have "prefix (dc_entries W ?c) (dc_entries W d)"
    unfolding cut_chunk_def by (intro dc_entries_prefix records_within_prefix)
  then show "prefix (log_entries W (survivors W v pre d)) (log_entries W (pre @ d # post))"
    unfolding log by (auto simp: prefix_def)
  show "set (durable_entries W w e) \<subseteq> set (log_entries W (survivors W v pre d))"
    if post: "\<forall>e \<in> set post. synced_of w (dc_file e) = []" and e: "e \<in> set (pre @ d # post)"
  proof -
    consider "e \<in> set pre" | "e = d" | "e \<in> set post" using e by auto
    then show ?thesis
    proof cases
      case 1
      then show ?thesis
        using set_mono_prefix [OF durable_entries_within, of W w e] unfolding log
        by (auto simp: log_entries_def)
    next
      case 2
      have "length (synced_of w (dc_file d)) \<le> length (content_of v (dc_file d))"
        using crash_kept(1) [OF base, of d] by (simp add: prefix_length_le)
      then show ?thesis
        using set_mono_prefix [OF durable_entries_cut, of w d _ W] 2 unfolding log by auto
    next
      case 3
      have "dc_ok W e" using ok 3 by (simp add: list_all_iff)
      then have "records_within W (dc_records e) 0 = []" by (intro records_within_0 [OF W]) (simp add: dc_ok_def)
      then have "dc_records (cut_chunk W 0 e) = []" by simp
      then have "durable_entries W w e = []" using post 3 by (simp add: durable_entries_def)
      then show ?thesis by simp
    qed
  qed
  show "dc_end W (last (survivors W v pre d)) \<le> dc_end W (last (pre @ d # post))" if "survivors W v pre d \<noteq> []"
  proof (cases "dc_records ?c = []")
    case True
    then have "last (survivors W v pre d) \<in> set (pre @ d # post)" using that by (auto simp: survivors_def)
    then show ?thesis by (rule dc_end_last [OF W cons ok])
  next
    case False
    then have "dc_end W (last (survivors W v pre d)) \<le> dc_end W d" by (simp add: survivors_def dc_end_cut)
    also have "\<dots> \<le> dc_end W (last (pre @ d # post))" by (rule dc_end_last [OF W cons ok]) simp
    finally show ?thesis .
  qed
qed

end
