(* ===== verification/Crash_Open.thy ===== *)
theory Crash_Open
  imports Crash
begin

text \<open>
  Opening a log after it was used (\<open>wal_run\<close>) and crashed: it succeeds with a prefix of the log that holds
  every durable record; and after a flush was waited for it finds the whole log.
\<close>

section \<open>Opening after a crash\<close>

lemma apply_log_prefix:
  assumes "prefix es fs" and "apply_log SM fs sm \<noteq> None"
  obtains sm' where "apply_log SM es sm = Some sm'"
  using assms by (cases "apply_log SM es sm") (auto simp: prefix_def apply_log_append)

text \<open>The checkpoints of the state machine fit behind the end of the log.\<close>

definition checkpoints_fit :: "('a, 'c) wal_types \<Rightarrow> ('a, 'c, 'sm) state_machine \<Rightarrow> nat \<Rightarrow> bool" where
  "checkpoints_fit W SM fin = (\<forall>sm. encodable W (Checkpoint (sm_checkpoint SM sm)) \<and>
     fin + length (bytes_of W (Checkpoint (sm_checkpoint SM sm))) < 2 ^ 64)"

text \<open>Opening what a crash left, when there is a record: the log that is found is in use and durable.\<close>

lemma open_found:
  fixes v :: "('cb, 'c) world"
  assumes W: "wal_types W" and im: "log_image W cfg v ds rest bl" and pn: "panic_on v = (\<lambda>_. False)"
    and fs: "wf_fs v" "synced_entries v = entries v" "list_all (\<lambda>d. clean v (dc_file d)) ds"
    and log: "apply_log SM (log_entries W ds) sm = Some sm'" and val: "validate cfg = Inr ()"
    and rest: "rest = [] \<or> wal_decode W rest = Inl UnexpectedEof" and cut: "truncate_incomplete_record cfg"
    and fit: "checkpoints_fit W SM (dc_end W (last ds))"
  obtains wal v' es where "open_locked W cfg SM lock (sm, v) = (Inr wal, (sm', v'))" "wal_ok W wal v' (ds @ es)"
    "wal_config wal = cfg" "es = [] \<or> es = [next_chunk W ds (next_ino v) (sm_checkpoint SM sm')]"
    "set (log_entries W ds) \<subseteq> durable_log W v' (ds @ es)"
proof (cases "rest = []")
  case True
  then have im': "log_image W cfg v ds [] bl" and ne: "ds \<noteq> []" using im by (auto simp: log_image_def dir_image_def)
  have safe: "files_safe v ds" using fs(3) ne by (auto simp: files_safe_def clean_def list_all_iff dest: in_set_butlastD)
  obtain wal v' where op: "open_locked W cfg SM lock (sm, v) = (Inr wal, (sm', v'))" "opened W cfg wal (cleaned cfg bl v) v' ds"
    by (rule open_whole [OF W im' pn val log fs(1,2) safe])
  have "list_all (stored W cfg v []) ds" using im' list_all_last [OF ne, of "stored W cfg v []"] by (simp add: log_image_def dir_image_def)
  then have "list_all (landed v') (map (chunk_target W) ds)"
    using fs(3) op(2) by (auto simp: opened_def list_all_iff landed_def clean_def stored_def chunk_on_disk_def)
  then have "set (log_entries W ds) \<subseteq> durable_log W v' (ds @ [])" by (rule durable_log_landed)
  then show ?thesis using that [of wal v' "[]"] op(1) opened_ok [OF op(2)] by simp
next
  case False
  let ?n = "next_chunk W ds (next_ino v) (sm_checkpoint SM sm')"
  have dec: "wal_decode W rest = Inl UnexpectedEof" using rest False by simp
  have ck: "encodable W (Checkpoint (sm_checkpoint SM sm'))"
    "dc_end W (last ds) + length (bytes_of W (Checkpoint (sm_checkpoint SM sm'))) < 2 ^ 64"
    using fit by (simp_all add: checkpoints_fit_def)
  have safe: "list_all (\<lambda>d. clean v (dc_file d)) (butlast ds)" using fs(3) by (auto simp: list_all_iff dest: in_set_butlastD)
  obtain wal u v' where op: "open_locked W cfg SM lock (sm, v) = (Inr wal, (sm', v'))" "opened W cfg wal u v' (ds @ [?n])"
    "list_all (landed u) (map (chunk_target W) ds)"
    by (rule open_torn [OF W im pn val log fs(1) False dec cut ck safe refl])
  have "list_all (landed v') (map (chunk_target W) ds)"
    using op(2,3) by (simp add: opened_def list_all_iff landed_def clean_def)
  then have "set (log_entries W ds) \<subseteq> durable_log W v' (ds @ [?n])" by (rule durable_log_landed)
  then show ?thesis using that [of wal v' "[?n]"] op(1) opened_ok [OF op(2)] by simp
qed

text \<open>
  What a log is after a crash: the replayed entries \<open>es\<close>, then at most a new checkpoint; the replayed
  entries are durable.
\<close>

definition reopened :: "('a, 'c) wal_types \<Rightarrow> config \<Rightarrow> 'c chunked_wal \<Rightarrow> ('cb, 'c) world \<Rightarrow> ('a, 'c) disk_chunk list \<Rightarrow>
    (chunk_id \<times> segment \<times> ('a, 'c) wal_record) list \<Rightarrow> 'c \<Rightarrow> bool" where
  "reopened W cfg wal v ds es ck =
     (wal_ok W wal v ds \<and> wal_config wal = cfg \<and> set es \<subseteq> durable_log W v ds \<and>
      (log_entries W ds = es \<or> (\<exists>cid seg. log_entries W ds = es @ [(cid, seg, Checkpoint ck)])))"

lemma open_survivors:
  fixes w v :: "('cb, 'c) world"
  assumes base: "crash_base W cfg w (pre @ d # post) v"
    and pre: "\<forall>e \<in> set pre. content_of v (dc_file e) = log_bytes W (dc_records e)"
    and cur: "prefix (content_of v (dc_file d)) (log_bytes W (dc_records d))"
    and post: "\<forall>e \<in> set post. content_of v (dc_file e) = []"
    and log: "apply_log SM (log_entries W (survivors W v pre d)) sm = Some sm'" and val: "validate cfg = Inr ()"
    and cut: "truncate_incomplete_record cfg" and fit: "checkpoints_fit W SM (dc_end W (last (pre @ d # post)))"
  shows "\<exists>wal v' ds. open_locked W cfg SM lock (sm, v) = (Inr wal, (sm', v')) \<and>
    reopened W cfg wal v' ds (log_entries W (survivors W v pre d)) (sm_checkpoint SM sm')"
proof -
  have W: "wal_types W" and pn: "panic_on v = (\<lambda>_. False)" using base by (auto simp: crash_base_def crash_image_def)
  note fs = crash_fs [OF base]
  let ?sv = "survivors W v pre d"
  show ?thesis
  proof (cases "?sv = []")
    case True
    have same: "sm' = sm" using log True by simp
    have ck: "encodable W (Checkpoint (sm_checkpoint SM sm))"
      "length (bytes_of W (Checkpoint (sm_checkpoint SM sm))) < 2 ^ 64"
      using fit by (auto simp: checkpoints_fit_def intro: le_less_trans [OF le_add2])
    obtain wal u v' where op: "open_locked W cfg SM lock (sm, v) = (Inr wal, (sm, v'))"
      "opened W cfg wal u v' [fresh_chunk (next_ino v) (sm_checkpoint SM sm)]"
      by (rule open_fresh [OF W no_survivors [OF base True cur post] pn val fs(1) ck refl])
    then show ?thesis
      using True same opened_ok [OF op(2)]
      by (intro exI [of _ wal] exI [of _ v'] exI [of _ "[fresh_chunk (next_ino v) (sm_checkpoint SM sm)]"])
        (simp add: reopened_def log_entries_def dc_entries_def fresh_chunk_def)
  next
    case False
    obtain rest bl where im: "log_image W cfg v ?sv rest bl" "rest = [] \<or> wal_decode W rest = Inl UnexpectedEof"
      by (rule survivors_image [OF base False pre cur post])
    have "dc_file ` set ?sv \<subseteq> dc_file ` set (pre @ d # post)" by (auto simp: survivors_def Let_def)
    then have cl: "list_all (\<lambda>d. clean v (dc_file d)) ?sv" using fs(3) by (fastforce simp: list_all_iff)
    have fit': "checkpoints_fit W SM (dc_end W (last ?sv))"
      using fit survivors_entries(3) [OF base False] unfolding checkpoints_fit_def by (meson add_le_mono1 le_less_trans)
    obtain wal v' es where op: "open_locked W cfg SM lock (sm, v) = (Inr wal, (sm', v'))" "wal_ok W wal v' (?sv @ es)"
      "wal_config wal = cfg" "es = [] \<or> es = [next_chunk W ?sv (next_ino v) (sm_checkpoint SM sm')]"
      "set (log_entries W ?sv) \<subseteq> durable_log W v' (?sv @ es)"
      by (rule open_found [OF W im(1) pn fs(1,2) cl log val im(2) cut fit'])
    have "log_entries W (?sv @ es) = log_entries W ?sv \<or>
        (\<exists>cid seg. log_entries W (?sv @ es) = log_entries W ?sv @ [(cid, seg, Checkpoint (sm_checkpoint SM sm'))])"
      using op(4) by (auto simp: next_chunk_def dc_entries_def)
    then show ?thesis using op(1-3,5) unfolding reopened_def by blast
  qed
qed

lemma open_after_crash:
  fixes w v :: "('cb, 'c) world"
  assumes base: "crash_base W cfg w ds v" and st: "settled (targets W ds out) w"
    and out: "prefix out (log_bytes W (dc_records (last ds)))" and ne: "ds \<noteq> []"
    and log: "apply_log SM (log_entries W ds) sm \<noteq> None" and val: "validate cfg = Inr ()"
    and cut: "truncate_incomplete_record cfg" and fit: "checkpoints_fit W SM (dc_end W (last ds))"
  shows "\<exists>es sm' wal v' ds'. open_locked W cfg SM lock (sm, v) = (Inr wal, (sm', v')) \<and> apply_log SM es sm = Some sm' \<and>
    prefix es (log_entries W ds) \<and> durable_log W w ds \<subseteq> set es \<and> reopened W cfg wal v' ds' es (sm_checkpoint SM sm')"
proof -
  obtain pre d post where ds: "ds = pre @ d # post"
    and c: "\<forall>e \<in> set pre. content_of v (dc_file e) = log_bytes W (dc_records e)"
      "prefix (content_of v (dc_file d)) (log_bytes W (dc_records d))"
      "\<forall>e \<in> set post. content_of v (dc_file e) = [] \<and> synced_of w (dc_file e) = []"
    by (rule crash_settled [OF base st ne out])
  note base' = base [unfolded ds] and fit' = fit [unfolded ds]
  note se = survivors_entries [OF base']
  have post: "\<forall>e \<in> set post. content_of v (dc_file e) = []" using c(3) by blast
  have "durable_log W w ds \<subseteq> set (log_entries W (survivors W v pre d))"
    using se(2) c(3) ds unfolding durable_log_def by blast
  moreover obtain sm' where sm': "apply_log SM (log_entries W (survivors W v pre d)) sm = Some sm'"
    using apply_log_prefix [OF se(1) [folded ds] log] .
  ultimately show ?thesis
    using open_survivors [OF base' c(1,2) post sm' val cut fit', of lock] sm' se(1) [folded ds] by blast
qed

text \<open>The invariant of a log in use gives what the crash lemmas need.\<close>

lemma ok_crash_base:
  assumes W: "wal_types W" and ok: "wal_ok W wal w ds" and cr: "crash_image w v"
  obtains out where "crash_base W (wal_config wal) w ds v" "settled (targets W ds out) w"
    "prefix out (log_bytes W (dc_records (last ds)))" "ds \<noteq> []"
proof -
  have base: "crash_base W (wal_config wal) w ds v" and ne: "ds \<noteq> []"
    using W ok cr by (auto simp: crash_base_def wal_ok_def wal_inv_def wal_stopped_def wal_holds_def)
  obtain out where "settled (targets W ds out) w" "prefix out (log_bytes W (dc_records (last ds)))"
    using ok [unfolded wal_ok_def]
  proof
    assume "\<exists>out. wal_inv W wal w ds out"
    then obtain out where "wal_holds W wal ds out" "flow (targets W ds out) w" unfolding wal_inv_def by blast
    then show thesis using that flow_settled wal_holds_out_prefix by blast
  qed (use that in \<open>auto simp: wal_stopped_def\<close>)
  then show thesis using that base ne by blast
qed

section \<open>Waiting for a flush\<close>

lemma idle_queue:
  assumes "client_ok fc w" and "worker w = Some wk" and "fc_sent_seq fc \<le> top_seq (done_seq (wstate w)) p"
    and "channel w = p @ q"
  shows "q = []"
proof (rule ccontr)
  assume "q \<noteq> []"
  then have q: "hd q \<in> set q" by simp
  have c: "sorted_wrt (<) (map seq (p @ q))" "\<forall>sr \<in> set (p @ q). done_seq (wstate w) < seq sr"
    "top_seq (done_seq (wstate w)) (p @ q) = fc_sent_seq fc"
    using assms(1,2,4) by (auto simp: client_inv_def)
  have "top_seq (done_seq (wstate w)) p < seq (hd q)" using top_seq_strict [OF c(1) q] c(2) q by simp
  also have "\<dots> \<le> fc_sent_seq fc" using top_seq_mem [of "hd q" "p @ q" "done_seq (wstate w)"] q c(3) by simp
  finally show False using assms(3) by simp
qed

lemma flow_idle_landed:
  assumes "flow ts w" and "channel w = []" and "ends_synced w"
  shows "list_all (landed w) ts"
  using assms by (auto simp: flow_def flow_at_def ends_synced_def landed_def)

lemma wait_idle_lands:
  fixes w :: "('cb, 'c) world"
  assumes fl: "flow ts w" and ok: "client_ok fc w" and sy: "ends_synced w"
    and idle: "wait_idle (fc, w) = (Inr (), (fc', w'))"
  shows "list_all (landed w') ts" and "w' = w \<or> w' = run w"
proof -
  obtain wk where wk: "worker w = Some wk" using fl by (auto simp: flow_def)
  have ne: "files wk \<noteq> []" and tx: "tx_alive w" using ok wk by (auto simp: client_inv_def)
  consider "w' = w" "fc_sent_seq fc \<le> done_seq (wstate w)"
    | "w' = run w" "fc_sent_seq fc \<le> done_seq (wstate (run w))"
    using idle by (auto simp: wait_idle_def wait_for_def status_error_def done_seq_def Let_def
        split: if_splits worker_status.splits)
  then show "list_all (landed w') ts"
  proof cases
    case 1
    then have "channel w = []" using idle_queue [OF ok wk, of "[]"] by simp
    then show ?thesis using flow_idle_landed [OF fl _ sy] 1 by simp
  next
    case 2
    obtain p q d wk1 w1 where res: "run_result wk p q d wk1 w w1 (run w)"
      and alive: "worker (run w) = (if q = [] \<and> tx_alive w then Some wk1 else None)"
      by (rule run_cases [OF wk ne])
    have "done_seq (wstate (run w)) = top_seq (done_seq (wstate w)) p" "channel w = p @ q"
      using res by (auto simp: run_result_def accounted_def)
    then have "q = []" using idle_queue [OF ok wk] 2(2) by simp
    then show ?thesis using flow_run_durable(1) [OF fl sy] alive tx 2(1) by simp
  qed
  show "w' = w \<or> w' = run w"
    using idle by (auto simp: wait_idle_def wait_for_def status_error_def Let_def split: if_splits worker_status.splits)
qed

lemma calm_wait_idle:
  fixes w :: "('cb, 'c) world"
  assumes ok: "client_ok fc w" and "calm w" and wk: "worker w = Some wk"
  shows "\<exists>w'. wait_idle (fc, w) = (Inr (), (fc, w')) \<and> calm w' \<and> dir_frame w' = dir_frame w"
proof -
  have ne: "files wk \<noteq> []" and sent: "top_seq (done_seq (wstate w)) (channel w) = fc_sent_seq fc"
    and run: "wp_status (progress (wstate w)) = Running"
    using ok wk by (auto simp: client_inv_def)
  note c = calm_run [OF wk ne assms(2)]
  have "calm (run w)" "dir_frame (run w) = dir_frame w"
    using calm_after_run [OF assms(2)] run_dir [of w] assms(2) wk ne by (auto simp: calm_def)
  then show ?thesis
    using c run sent assms(2) by (auto simp: wait_idle_def wait_for_def status_error_def done_seq_def Let_def)
qed

text \<open>A log whose files have all landed is found again as it is.\<close>

lemma landed_image:
  assumes base: "crash_base W cfg u ds v" and ne: "ds \<noteq> []"
    and l: "list_all (landed u) (map (chunk_target W) ds)"
  shows "log_image W cfg v ds [] []"
proof -
  have ok: "list_all (dc_ok W) ds" and cons: "consecutive W ds"
    using base by (auto simp: crash_base_def)
  have "content_of v (dc_file d) = log_bytes W (dc_records d)" if "d \<in> set ds" for d
    using l that crash_content [OF base] by (auto simp: list_all_iff landed_def)
  then have "\<forall>d \<in> set ds. stored W cfg v [] d"
    using ok crash_on_disk [OF base] by (auto simp: stored_def list_all_iff)
  then show ?thesis
    using crash_log_image [of W cfg u ds "[]" v ds "[]"] base ne cons
    by (simp add: list_all_iff in_set_butlastD)
qed

lemma flushed_image:
  fixes w v :: "('cb, 'c) world"
  assumes W: "wal_types W" and ok: "wal_ok W wal w ds"
    and room: "has_room (wal_client wal) w 1 (length (pending_data (wal_open wal)))"
    and send: "send_pending True cb (wal, w) = (Inr (), (wal1, w1))"
    and idle: "wait_worker_idle (wal1, w1\<lparr>script := sc\<rparr>) = (Inr (), (wal2, w2))" and cr: "crash_image w2 v"
  shows "log_image W (wal_config wal) v ds [] []"
proof -
  note s = wal_ok_flush [OF ok room send]
  let ?w = "w1\<lparr>script := sc\<rparr>"
  have i: "wal_inv W wal1 ?w ds (log_bytes W (dc_records (last ds)))" and sy: "ends_synced ?w"
    using s(4) by (simp_all add: wal_inv_script ends_synced_script)
  note i = i [unfolded wal_inv_def]
  have fl: "flow (targets W ds (log_bytes W (dc_records (last ds)))) ?w" and cl: "client_ok (wal_client wal1) ?w"
    and ne: "ds \<noteq> []"
    using i by (auto simp: wal_holds_def)
  have "wait_idle (wal_client wal1, ?w) = (Inr (), (wal_client wal2, w2))"
    using idle by (auto simp: wait_worker_idle_def split: prod.splits)
  note lands = wait_idle_lands [OF fl cl sy this]
  have "wal_ok W wal1 w2 ds"
    using lands(2) wal_ok_script [OF s(1)] wal_ok_run [OF wal_ok_script [OF s(1)]] by auto
  then have "crash_base W (wal_config wal) w2 ds v" using ok_crash_base [OF W _ cr] s(2) by metis
  then show ?thesis using landed_image [OF _ ne] lands(1) targets_full [OF ne, of W] by simp
qed

text \<open>The worst crash: of every file only the synchronised bytes are left.\<close>

definition power_loss :: "('cb, 'c) world \<Rightarrow> ('cb, 'c) world" where
  "power_loss w = w\<lparr>inodes := (\<lambda>i. map_option (\<lambda>d. d\<lparr>content := synced d\<rparr>) (inodes w i)),
     entries := synced_entries w\<rparr>"

lemma power_loss_image:
  assumes "script w = []" and "panic_on w = (\<lambda>_. False)"
    and "\<And>i. i \<in> snd ` set (synced_entries w) \<Longrightarrow> prefix (synced_of w i) (content_of w i)"
  shows "crash_image w (power_loss w)"
proof -
  have "content_of (power_loss w) i = synced_of w i" "synced_of (power_loss w) i = synced_of w i" for i
    by (simp_all add: power_loss_def inode_def split: option.splits)
  then have "clean (power_loss w) i" "content_of (power_loss w) i = synced_of w i" for i by (simp_all add: clean_def)
  moreover have "entries (power_loss w) = synced_entries w" "synced_entries (power_loss w) = synced_entries w"
    "dirs (power_loss w) = dirs w" "next_ino (power_loss w) = next_ino w" "script (power_loss w) = script w"
    "panic_on (power_loss w) = panic_on w"
    by (simp_all add: power_loss_def)
  ultimately show ?thesis using assms unfolding crash_image_def by simp
qed

lemma safe_disk_prefix: "prefix (synced_of (safe_disk k) 0) (bytes_of test_wal demo_vote)"
  using safe_disk_sel(7) [of k] by (simp add: clean_def)

lemma demo_fits: "checkpoints_fit test_wal demo_sm 24"
proof -
  have "encodable test_wal (Checkpoint [115, 116, 97, 116, 101])"
    "length (bytes_of test_wal (Checkpoint [115, 116, 97, 116, 101])) = 21"
    by (simp_all add: encodable_def bytes_of_def test_vector_checkpoint del: wal_encode.simps)
  then show ?thesis by (simp add: checkpoints_fit_def demo_sm_def vote_chunk_ok)
qed

section \<open>Properties\<close>

lemma accepting_log:
  assumes "\<forall>r cid seg sm. fst (sm_apply SM r cid seg sm)"
  shows "\<exists>sm'. apply_log SM es sm = Some sm'"
proof (induction es arbitrary: sm)
  case (Cons e es)
  obtain cid seg r where e: "e = (cid, seg, r)" by (cases e)
  obtain b sm1 where "sm_apply SM r cid seg sm = (b, sm1)" by (cases "sm_apply SM r cid seg sm")
  then show ?case using assms Cons [of sm1] e by (auto split: bool.splits) (metis fst_conv)
qed simp

text \<open>A log in use, whatever happened to it, is found again after a crash.\<close>

lemma crash_recovers:
  fixes w v :: "('cb, 'c) world"
  assumes W: "wal_types W" and ok: "wal_ok W wal w ds" and cr: "crash_image w v"
    and val: "validate (wal_config wal) = Inr ()" and cut: "truncate_incomplete_record (wal_config wal)"
    and fit: "checkpoints_fit W SM (global_end (oc_chunk (wal_open wal)))"
    and acc: "\<forall>r cid seg sm. fst (sm_apply SM r cid seg sm)"
  shows "\<exists>es sm' wal' v' ds'. open_locked W (wal_config wal) SM lock (sm, v) = (Inr wal', (sm', v')) \<and>
    apply_log SM es sm = Some sm' \<and> prefix es (log_entries W ds) \<and> durable_log W w ds \<subseteq> set es \<and>
    reopened W (wal_config wal) wal' v' ds' es (sm_checkpoint SM sm')"
proof -
  obtain out where "wal_holds W wal ds out" by (rule wal_ok_holds [OF ok])
  then have fit': "checkpoints_fit W SM (dc_end W (last ds))" using fit wal_holds_end by metis
  have log: "apply_log SM (log_entries W ds) sm \<noteq> None" using accepting_log [OF acc] by (metis option.distinct(1))
  obtain out' where cb: "crash_base W (wal_config wal) w ds v" "settled (targets W ds out') w"
    "prefix out' (log_bytes W (dc_records (last ds)))" "ds \<noteq> []"
    by (rule ok_crash_base [OF W ok cr])
  show ?thesis by (rule open_after_crash [OF cb log val cut fit'])
qed

text \<open>
  C3. A crash loses at most records that were not yet on stable storage, and only at the end of the log.
  Take an opened log and use it by any sequence of the operations of \<open>wal_run\<close>, under any faults of the
  kernel (but with no closing that fails after it created its file, and no removal of chunks), and then
  crash: every file keeps at least its synchronised bytes and at most the written ones. The settings are
  valid and allow truncation, the state machine accepts all records, and its checkpoints can be encoded and
  fit behind the log. Then opening the directory again succeeds; the records it replays are a prefix of the
  log that was built, in order and at their positions, and every record that lay in the synchronised
  bytes of its chunk is among them. The log is then in use again: the invariant holds for chunks with
  exactly the replayed records, all of them on stable storage, and at most a new checkpoint behind them.
\<close>

theorem crash_keeps_durable_records:
  fixes w0 w v :: "('cb, 'c) world"
  assumes "wal_types W" and "wal_ok W wal0 w0 ds0" and "wal_run W SM (wal0, w0) rs (wal, w)" and "crash_image w v"
    and "validate (wal_config wal0) = Inr ()" and "truncate_incomplete_record (wal_config wal0)"
    and "checkpoints_fit W SM (global_end (oc_chunk (wal_open wal)))"
    and "\<forall>r cid seg sm. fst (sm_apply SM r cid seg sm)"
  shows "\<exists>ds es sm' wal' v' ds'. wal_ok W wal w ds \<and> log_records ds = log_records ds0 @ rs \<and>
    open_locked W (wal_config wal0) SM lock (sm, v) = (Inr wal', (sm', v')) \<and>
    apply_log SM es sm = Some sm' \<and> prefix es (log_entries W ds) \<and> durable_log W w ds \<subseteq> set es \<and>
    wal_ok W wal' v' ds' \<and> set es \<subseteq> durable_log W v' ds' \<and>
    (log_entries W ds' = es \<or> (\<exists>cid seg. log_entries W ds' = es @ [(cid, seg, Checkpoint (sm_checkpoint SM sm'))]))"
proof -
  obtain ds where ds: "wal_ok W wal w ds" "wal_config wal = wal_config wal0" "log_records ds = log_records ds0 @ rs"
    using wal_run_ok [OF assms(1,3,2)] by (auto simp: run_holds_def)
  from crash_recovers [OF assms(1) ds(1) assms(4) _ _ assms(7,8), of lock sm] assms(5,6) ds
  show ?thesis unfolding reopened_def by metis
qed

theorem crash_keeps_durable_records_witness:
  "\<exists>wal (w :: (nat, byte list) world) es sm' wal' v' ds'.
    open_locked test_wal demo_config demo_sm demo_lock ([], safe_disk 5) = (Inr wal, ([demo_vote, demo_vote], w)) \<and>
    synced_of w 1 = [0, 0, 0, 1, 0] \<and>
    open_locked test_wal demo_config demo_sm demo_lock ([], power_loss w) = (Inr wal', (sm', v')) \<and>
    apply_log demo_sm es [] = Some sm' \<and> wal_ok test_wal wal' v' ds' \<and> set es \<subseteq> durable_log test_wal v' ds'"
proof -
  let ?ds = "[vote_chunk 0 0, vote_chunk 12 1]"
  obtain wal w where op: "open_locked test_wal demo_config demo_sm demo_lock ([], safe_disk 5) =
      (Inr wal, ([demo_vote, demo_vote], w))"
    and inv: "wal_inv test_wal wal w ?ds (log_bytes test_wal (dc_records (last ?ds)))"
    and w: "calm w" "wal_config wal = demo_config" "dir_frame w = dir_frame (safe_disk 5)" "inode w = inode (safe_disk 5)"
    by (rule open_clean_inv [OF test_wal_ok safe_disk_ok(1,3) demo_config_dir(2) demo_replay safe_disk_ok(2)
          safe_disk_entries(2) safe_disk_ok(4)])
  have cr: "crash_image w (power_loss w)"
    using w by (intro power_loss_image) (auto simp: calm_def dir_frame_def safe_disk_entries take_is_prefix safe_disk_prefix)
  have "wal_holds test_wal wal ?ds (log_bytes test_wal (dc_records (last ?ds)))" using inv by (simp only: wal_inv_def)
  from wal_holds_end [OF this] have fit: "checkpoints_fit test_wal demo_sm (global_end (oc_chunk (wal_open wal)))"
    using demo_fits by (simp add: vote_chunk_ok)
  have ok: "wal_ok test_wal wal w ?ds" using inv by (auto simp: wal_ok_def)
  have acc: "\<forall>r cid seg sm. fst (sm_apply demo_sm r cid seg sm)" by (simp add: demo_sm_def)
  have "synced_of w 1 = [0, 0, 0, 1, 0]" using w(4) by (simp add: bytes_of_vote)
  then show ?thesis
    using crash_keeps_durable_records [OF test_wal_ok ok wal_run.start cr _ _ fit acc, of demo_lock "[]"] w(2) op
      demo_config_dir(2) demo_truncates
    by metis
qed

text \<open>
  C1. What was flushed survives. From an opened log, after any sequence of the operations of \<open>wal_run\<close>
  (appends, flushes, waits, attempts to close a chunk, runs of the worker and kernel faults; no closing
  that fails after it created its file, no removal of chunks), a synchronising flush that finds space in
  the channel is sent and waited for, while the kernel may fail in any way. If the flush and the wait
  return \<open>Ok\<close>, the settings are valid and the state machine accepts all records, then after a crash,
  which keeps of every file a prefix of its bytes with at least the synchronised ones, opening finds all
  records of the start and all that were added since, replays exactly these, and the log in memory holds
  the same chunks as before the crash.
\<close>

theorem flushed_log_survives_crash:
  fixes w0 w v :: "('cb, 'c) world"
  assumes "wal_types W" and "wal_ok W wal0 w0 ds0" and "wal_run W SM (wal0, w0) rs (wal, w)"
    and "has_room (wal_client wal) w 1 (length (pending_data (wal_open wal)))"
    and "send_pending True cb (wal, w) = (Inr (), (wal1, w1))"
    and "wait_worker_idle (wal1, w1\<lparr>script := sc\<rparr>) = (Inr (), (wal2, w2))" and "crash_image w2 v"
    and "validate (wal_config wal0) = Inr ()" and "\<forall>r cid seg sm. fst (sm_apply SM r cid seg sm)"
  shows "\<exists>ds sm' wal' v'. wal_ok W wal w ds \<and> log_records ds = log_records ds0 @ rs \<and>
    open_locked W (wal_config wal0) SM lock (sm, v) = (Inr wal', (sm', v')) \<and>
    apply_log SM (log_entries W ds) sm = Some sm' \<and> wal_holds W wal' ds (log_bytes W (dc_records (last ds)))"
proof -
  obtain ds where ds: "wal_ok W wal w ds" "wal_config wal = wal_config wal0" "log_records ds = log_records ds0 @ rs"
    using wal_run_ok [OF assms(1,3,2)] by (auto simp: run_holds_def)
  have im: "log_image W (wal_config wal0) v ds [] []"
    using flushed_image [OF assms(1) ds(1) assms(4-7)] ds(2) by simp
  obtain sm' where log: "apply_log SM (log_entries W ds) sm = Some sm'" using accepting_log [OF assms(9)] by blast
  have pn: "panic_on v = (\<lambda>_. False)" using assms(7) by (simp add: crash_image_def)
  obtain wal' v' where "open_locked W (wal_config wal0) SM lock (sm, v) = (Inr wal', (sm', v'))"
    "wal_holds W wal' ds (log_bytes W (dc_records (last ds)))"
    using open_clean_holds [OF assms(1) im pn assms(8) log] by blast
  then show ?thesis using ds log by blast
qed

theorem flushed_log_survives_crash_witness:
  "\<exists>(v :: (nat, byte list) world) ds sm' wal' v'.
    open_locked test_wal demo_config demo_sm demo_lock ([], v) = (Inr wal', (sm', v')) \<and>
    log_records ds = [demo_vote, demo_vote, demo_vote] \<and> apply_log demo_sm (log_entries test_wal ds) [] = Some sm'"
proof -
  let ?ds = "[vote_chunk 0 0, vote_chunk 12 1]" and ?out = "bytes_of test_wal demo_vote"
  obtain wal0 and w0 :: "(nat, byte list) world" where
    inv: "wal_inv test_wal wal0 w0 ?ds (log_bytes test_wal (dc_records (last ?ds)))"
    and w0: "calm w0" "wal_config wal0 = demo_config" "dir_frame w0 = dir_frame (safe_disk 5)"
      "wal_client wal0 = flush_client_new" "channel w0 = []" "used_bytes w0 = 0"
    by (rule open_clean_inv [OF test_wal_ok safe_disk_ok(1,3) demo_config_dir(2) demo_replay safe_disk_ok(2)
          safe_disk_entries(2) safe_disk_ok(4), where lock = demo_lock])
  have ok: "wal_ok test_wal wal0 w0 ?ds" using inv by (auto simp: wal_ok_def)
  have fits: "dc_end test_wal (last ?ds) + length ?out < 2 ^ 64" by (simp add: vote_chunk_ok bytes_of_vote)
  from wal_inv_append [OF test_wal_ok inv encodable_vote this] obtain wal where
    ap: "wal_append test_wal demo_vote (wal0, w0) = (Inr (), (wal, w0))"
    and inv1: "wal_inv test_wal wal w0 (add_record demo_vote ?ds) ?out" by (auto simp: vote_chunk_def)
  have "wal_holds test_wal wal0 ?ds (log_bytes test_wal (dc_records (last ?ds)))" using inv by (simp only: wal_inv_def)
  from wal_holds_end [OF this] have "global_end (oc_chunk (wal_open wal0)) = 24" by (simp add: vote_chunk_ok)
  then have reach: "wal_run test_wal demo_sm (wal0, w0) ([] @ [demo_vote]) (wal, w0)"
    using ap by (intro wal_run.append [OF wal_run.start ap]) (simp add: bytes_of_vote)
  have "wal_client wal = flush_client_new" "pending_data (wal_open wal) = ?out"
    using ap w0(4) inv1 by (auto simp: wal_append_def wal_inv_def wal_holds_def open_holds_def add_record_def
        vote_chunk_def split: prod.splits sum.splits)
  then have room: "has_room (wal_client wal) w0 (Suc 0) (length (pending_data (wal_open wal)) + 0)"
    using w0 by (simp add: has_room_def CHANNEL_CAPACITY_def flush_client_new_def bytes_of_vote)
  obtain wal1 w1 where sp: "send_pending True None (wal, w0) = (Inr (), (wal1, w1))"
    "wal_inv test_wal wal1 w1 (add_record demo_vote ?ds) (log_bytes test_wal (dc_records (last (add_record demo_vote ?ds))))"
    "calm w1" "True \<longrightarrow> ends_synced w1" "dir_frame w1 = dir_frame w0"
    by (rule send_pending_inv [OF inv1 room w0(1), where sync = True and cb = None])
  have w1: "w1\<lparr>script := []\<rparr> = w1" using sp(3) by (simp add: calm_def)
  note i = sp(2) [unfolded wal_inv_def]
  obtain w2 where idle: "wait_idle (wal_client wal1, w1) = (Inr (), (wal_client wal1, w2))" "calm w2"
    "dir_frame w2 = dir_frame w1"
    using calm_wait_idle [of "wal_client wal1" w1] i sp(3) by (auto simp: flow_def)
  have lands: "list_all (landed w2) (map (chunk_target test_wal) (add_record demo_vote ?ds))"
  proof (rule wait_idle_lands(1) [OF _ _ _ idle(1)])
    have ne: "add_record demo_vote ?ds \<noteq> []" by (simp add: add_record_def)
    show "flow (map (chunk_target test_wal) (add_record demo_vote ?ds)) w1"
      unfolding targets_full [OF ne, symmetric] using i by blast
  qed (use i sp(4) in blast)+
  have "crash_image w2 (power_loss w2)"
    using lands idle(2,3) sp(5) w0(3) by (intro power_loss_image)
      (auto simp: calm_def dir_frame_def safe_disk_entries add_record_def vote_chunk_def landed_def clean_def)
  moreover have "wait_worker_idle (wal1, w1\<lparr>script := []\<rparr>) = (Inr (), (wal1, w2))"
    unfolding w1 using idle(1) by (simp add: wait_worker_idle_def)
  moreover have "\<forall>r cid seg sm. fst (sm_apply demo_sm r cid seg sm)" by (simp add: demo_sm_def)
  ultimately obtain ds sm' wal' v' where
    "open_locked test_wal (wal_config wal0) demo_sm demo_lock ([], power_loss w2) = (Inr wal', (sm', v'))"
    "log_records ds = log_records ?ds @ [] @ [demo_vote]" "apply_log demo_sm (log_entries test_wal ds) [] = Some sm'"
    using flushed_log_survives_crash [OF test_wal_ok ok reach _ sp(1), of "[]" wal1 w2 "power_loss w2" demo_lock "[]"]
      room w0(2) demo_config_dir(2)
    by auto
  moreover have "log_records ?ds = [demo_vote, demo_vote]" by (simp add: log_records_def vote_chunk_def)
  ultimately have "open_locked test_wal demo_config demo_sm demo_lock ([], power_loss w2) = (Inr wal', (sm', v')) \<and>
    log_records ds = [demo_vote, demo_vote, demo_vote] \<and> apply_log demo_sm (log_entries test_wal ds) [] = Some sm'"
    using w0(2) by simp
  then show ?thesis by (intro exI)
qed

end
