(* ===== verification/Purge.thy ===== *)
theory Purge
  imports Crash_Open Open_Fresh
begin

text \<open>
  Removing old chunks: \<open>drain_closed_chunks_while\<close>, \<open>send_remove_chunks\<close> and the worker's
  \<open>RemoveChunks\<close>. The log that is left keeps the invariant, so that all results on logs in use and on
  crashes hold for it; and a result on what the removal does not wait for.
\<close>

section \<open>Draining\<close>

lemma drain_loop_split:
  "drain_loop p m = (map fst (takeWhile (\<lambda>e. p (cc_state (snd e))) m), dropWhile (\<lambda>e. p (cc_state (snd e))) m)"
  by (induction p m rule: drain_loop.induct) auto

lemma closed_match_ids: "list_all2 (closed_match W) m ds \<Longrightarrow> map fst m = map dc_id ds"
  by (induction m ds rule: list_all2_induct) (auto simp: closed_match_def)

lemma consecutive_drop: "consecutive W ds \<Longrightarrow> consecutive W (drop k ds)"
proof (induction k arbitrary: ds)
  case (Suc k)
  then have "consecutive W (tl ds)" by (cases "(W, ds)" rule: consecutive.cases) auto
  then show ?case using Suc.IH [of "tl ds"] by (simp add: drop_Suc)
qed simp

text \<open>The log after some of its closed chunks were drained holds the rest.\<close>

lemma drain_holds:
  assumes h: "wal_holds W wal ds out" and dr: "drain_closed_chunks_while p wal = (ids, wal')"
  shows "wal_holds W wal' (drop (length ids) ds) out" and "ids = map dc_id (take (length ids) ds)"
    and "length ids < length ds" and "wal_client wal' = wal_client wal" and "wal_config wal' = wal_config wal"
    and "wal_open wal' = wal_open wal"
proof -
  let ?q = "\<lambda>e. p (cc_state (snd e))" and ?m = "wal_closed wal"
  have m: "list_all2 (closed_match W) ?m (butlast ds)" and ne: "ds \<noteq> []" using h by (auto simp: wal_holds_def)
  have ids: "ids = map fst (takeWhile ?q ?m)" and wal': "wal' = wal\<lparr>wal_closed := dropWhile ?q ?m\<rparr>"
    using dr by (auto simp: drain_closed_chunks_while_def drain_loop_split)
  define k where "k = length (takeWhile ?q ?m)"
  have k: "length ids = k" "k \<le> length ?m" "dropWhile ?q ?m = drop k ?m" "takeWhile ?q ?m = take k ?m"
    unfolding k_def ids by (simp, rule length_takeWhile_le, rule dropWhile_eq_drop, rule takeWhile_eq_take)
  have len: "length ?m = length (butlast ds)" using m by (rule list_all2_lengthD)
  have "0 < length ds" using ne by simp
  then show lt: "length ids < length ds" using k(1,2) len [unfolded length_butlast] by linarith
  have bl: "butlast (drop k ds) = drop k (butlast ds)" "drop k ds \<noteq> []" "last (drop k ds) = last ds"
    "take k (butlast ds) = take k ds"
    using lt k(1,2) len by (simp_all add: butlast_drop last_drop take_butlast)
  have "list_all2 (closed_match W) (drop k ?m) (butlast (drop k ds))" unfolding bl(1) by (rule list_all2_dropI [OF m])
  moreover have "list_all (dc_ok W) (drop k ds)" using h by (auto simp: wal_holds_def list_all_iff dest: in_set_dropD)
  moreover have "consecutive W (drop k ds)" using h by (intro consecutive_drop) (simp add: wal_holds_def)
  ultimately show "wal_holds W wal' (drop (length ids) ds) out"
    using h bl k by (simp add: wal' wal_holds_def)
  have "map fst (take k ?m) = map dc_id (take k ds)"
    using closed_match_ids [OF list_all2_takeI [OF m, of k]] bl(4) by simp
  then show "ids = map dc_id (take (length ids) ds)" using ids k by simp
  show "wal_client wal' = wal_client wal" "wal_config wal' = wal_config wal" "wal_open wal' = wal_open wal"
    by (simp_all add: wal')
qed

section \<open>Unlinking\<close>

lemma dir_holds_unlink:
  assumes "dir_holds cfg w (d # ds)" and "distinct (map dc_id (d # ds))" and "\<forall>e \<in> set (d # ds). offset (dc_id e) < 2 ^ 64"
  shows "dir_holds cfg (unlink cfg (dc_id d) w) ds"
proof -
  note h = assms(1) [unfolded dir_holds_def]
  have lk: "lookup w (chunk_path cfg (dc_id d)) = Some (dc_file d)" and wf: "wf_fs w" using h by simp_all
  have ms: "mset (chunk_ids_of (dir_names (dir cfg) w)) = mset (map dc_id (d # ds))" using h by blast
  then have "distinct (chunk_ids_of (dir_names (dir cfg) w))" using assms(2) mset_eq_imp_distinct_iff by blast
  then have ids: "chunk_ids_of (dir_names (dir cfg) (unlink cfg (dc_id d) w)) =
      filter (\<lambda>x. x \<noteq> dc_id d) (chunk_ids_of (dir_names (dir cfg) w))"
    using listing_unlink [OF lk] assms(3) by simp
  have "filter (\<lambda>x. x \<noteq> dc_id d) (map dc_id (d # ds)) = map dc_id ds"
    using assms(2) by (auto simp: filter_id_conv) (metis imageI)
  then have "mset (chunk_ids_of (dir_names (dir cfg) (unlink cfg (dc_id d) w))) = mset (map dc_id ds)"
    unfolding ids mset_filter ms by (metis mset_filter)
  moreover have "lookup (unlink cfg (dc_id d) w) (chunk_path cfg (dc_id e)) = Some (dc_file e)" if "e \<in> set ds" for e
  proof -
    have "dc_id d \<notin> dc_id ` set ds" using assms(2) by simp
    then have "dc_id e \<noteq> dc_id d" using that by (metis imageI)
    then have "chunk_path cfg (dc_id e) \<noteq> chunk_path cfg (dc_id d)" using chunk_path_eq_iff assms(3) that by simp
    then show ?thesis using h that by (simp add: unlink_def Let_def list_all_iff)
  qed
  moreover have "wf_fs (unlink cfg (dc_id d) w)" using wf by (rule wf_fs_unlink)
  ultimately show ?thesis using h by (simp add: dir_holds_def list_all_iff unlink_def Let_def)
qed

lemma dir_holds_unlink_all:
  assumes "dir_holds cfg w (as @ ds)" and "distinct (map dc_id (as @ ds))"
    and "\<forall>e \<in> set (as @ ds). offset (dc_id e) < 2 ^ 64"
  shows "dir_holds cfg (fold (unlink cfg) (map dc_id as) w) ds"
  using assms
proof (induction as arbitrary: w)
  case (Cons a as)
  have "dir_holds cfg (unlink cfg (dc_id a) w) (as @ ds)" using Cons.prems by (intro dir_holds_unlink) auto
  from Cons.IH [OF this] Cons.prems(2,3) show ?case by simp
qed simp

lemma fold_unlink:
  "fold (unlink cfg) ids w = (if ids = [] then w else
     let es = filter (\<lambda>e. fst e \<notin> chunk_path cfg ` set ids) (entries w)
     in w\<lparr>entries := es, synced_entries := es\<rparr>)"
  by (induction ids arbitrary: w) (auto simp: unlink_def Let_def conj_commute)

section \<open>The worker removes the files\<close>

lemma run_remove:
  fixes w :: "('cb, 'c) world"
  assumes wk: "worker w = Some wk" "wk_config wk = cfg" and ch: "channel w = [sr]"
    and rq: "req sr = RemoveChunks (map (chunk_path cfg) ids)" and "script w = []" and "tx_alive w"
    and "dir cfg \<in> set (dirs w)" and "distinct (map (chunk_path cfg) ids)"
    and "\<forall>cid \<in> set ids. lookup w (chunk_path cfg cid) \<noteq> None"
  shows "run w = (fold (unlink cfg) ids w)\<lparr>channel := [], wstate := complete (seq sr) (wstate w)\<rparr>"
proof -
  let ?b = "write_batch_new (flush_batch_max_items (wk_config wk))" and ?w = "w\<lparr>channel := []\<rparr>"
  let ?es = "filter (\<lambda>e. fst e \<notin> chunk_path cfg ` set ids) (entries w)"
  let ?w' = "(fold (unlink cfg) ids w)\<lparr>channel := [], wstate := complete (seq sr) (wstate w)\<rparr>"
  have "remove_files (map (chunk_path cfg) ids) ?w = (Inr (), ?w\<lparr>entries := ?es\<rparr>)"
    using remove_files_calm [of ?w "map (chunk_path cfg) ids"] assms(5,8,9) by (simp add: list_all_iff listed_def)
  then have "handle_non_flush_request (req sr) wk ?w = (Inr wk, (fold (unlink cfg) ids w)\<lparr>channel := []\<rparr>)"
    using wk(2) rq assms(5,7) by (auto simp: handle_non_flush_request_def io_bind_app sync_dir_def fold_unlink Let_def)
  moreover have "\<not> is_write sr" using rq by (simp add: is_write_def)
  ultimately have "run_iteration ?b wk w = (Inr (Continue, wk), ?w')"
    using ch by (simp add: run_iteration_def push_seq_request_cases io_bind_app on_state_def fold_unlink Let_def)
  moreover have "run_iteration ?b wk ?w' = (Inr (Waiting, wk), ?w')"
    using assms(6) by (simp add: run_iteration_def fold_unlink Let_def)
  ultimately have "run_inner ?b wk w = (Inr (Waiting, wk), ?w')" using ch
    by (simp add: run_inner.simps [of ?b wk w] run_inner.simps [of ?b wk ?w'])
  then show ?thesis using wk(1) by (simp add: run_def fold_unlink Let_def)
qed

section \<open>A purge keeps the invariant\<close>

text \<open>Sending a request without data to an idle worker.\<close>

lemma send_idle:
  fixes w :: "('cb, 'c) world"
  assumes ok: "client_ok fc w" and ch: "channel w = []" and cm: "calm w" and wk: "worker w = Some wk"
    and rq: "req_data rq = []" and "fc_sent_seq fc + 1 < 2 ^ 64"
  obtains fc' w' sr where "send rq (fc, w) = (Inr (), (fc', w'))" "client_ok fc' w'" "worker w' = Some wk"
    "channel w' = [sr]" "req sr = rq" "inode w' = inode w" "dir_frame w' = dir_frame w" "script w' = []"
    "panic_on w' = (\<lambda>_. False)"
proof -
  have tx: "fc_tx fc" and used: "used_bytes w = 0"
    using ok wk ch by (auto simp: client_inv_def queue_bytes_def)
  obtain r fc' w1 w' where s: "send rq (fc, w) = (r, (fc', w'))" "client_ok fc' w'" "sent rq r fc fc' w1 w'"
    "acquire_wait (length (req_data rq)) w = (Inr (), w1)"
    by (rule send_cases [OF ok tx, of rq]) (use ch used rq assms(6) in \<open>auto simp: CHANNEL_CAPACITY_def\<close>)
  obtain q where w1: "w1 = w\<lparr>wstate := (wstate w)\<lparr>ws_queued_bytes := q\<rparr>\<rparr>"
    using s(4) used by (auto simp: acquire_wait_def acquire_def)
  have enq: "send_enqueue (length (req_data rq)) rq (fc, w1) = (r, (fc', w'))"
    using s(1,4) tx by (simp add: send_def req_data_reserved)
  have room: "length (channel w1) < CHANNEL_CAPACITY" using ch by (simp add: w1 CHANNEL_CAPACITY_def)
  have c1: "calm w1" "worker w1 \<noteq> None" using cm wk by (simp_all add: w1 calm_def)
  have "dir_frame w' = dir_frame w" using send_enqueue_dir [OF room enq] by (simp add: w1)
  moreover have "inode w' = inode w1" using s(3) by (simp add: sent_def)
  then have "inode w' = inode w" by (simp add: w1 fun_eq_iff)
  ultimately show thesis
    using that s(1-3) wk ch send_enqueue_calm(1,2) [OF room enq c1] by (auto simp: sent_def w1)
qed

lemma flow_drop:
  assumes fl: "flow (targets W ds out) w" and "channel w = []" and "k < length ds"
  shows "flow (targets W (drop k ds) out) w"
proof -
  obtain wk pre c post where wk: "worker w = Some wk" "targets W ds out = pre @ c # post" "flow_at wk pre c post w"
    using fl unfolding flow_def by blast
  then have post: "post = []" using assms(2) by (simp add: flow_at_def)
  have "targets W (drop k ds) out = drop k (targets W ds out)"
    using assms(3) by (simp add: targets_def last_drop flip: drop_map butlast_drop) (simp add: butlast_drop drop_map)
  moreover have "k \<le> length pre"
    using assms(3) arg_cong [OF wk(2), of length] post by (simp add: targets_def)
  ultimately have ts: "targets W (drop k ds) out = drop k pre @ c # []" using wk(2) post by simp
  have "distinct (map fst (drop k pre @ [c]))"
    using wk(3) post distinct_drop [of "map fst (pre @ [c])" k] \<open>k \<le> length pre\<close> by (simp add: flow_at_def drop_map)
  moreover have "list_all (landed w) (drop k pre)"
    using wk(3) by (auto simp: flow_at_def list_all_iff dest: in_set_dropD)
  ultimately have "flow_at wk (drop k pre) c [] w" using wk(3) post by (simp add: flow_at_def)
  then show ?thesis unfolding flow_def ts using wk(1) by blast
qed

lemma purge_inv:
  fixes w :: "('cb, 'c) world"
  assumes W: "wal_types W" and inv: "wal_inv W wal w ds out" and cm: "calm w" and ch: "channel w = []"
    and wk: "worker w = Some wk" "wk_config wk = wal_config wal" and "fc_sent_seq (wal_client wal) + 1 < 2 ^ 64"
    and dr: "drain_closed_chunks_while p wal = (ids, wal1)"
  obtains wal2 w2 where "send_remove_chunks ids (wal1, w) = (Inr (), (wal2, w2))"
    "wal_inv W wal2 (run w2) (drop (length ids) ds) out" "calm (run w2)" "inode (run w2) = inode w"
    "wal_config wal2 = wal_config wal" "channel (run w2) = []" "worker (run w2) = Some wk"
    "set (entries (run w2)) \<subseteq> set (entries w)"
proof -
  note i = inv [unfolded wal_inv_def]
  let ?cfg = "wal_config wal" and ?k = "length ids" and ?rq = "RemoveChunks (map (chunk_path (wal_config wal)) ids)"
  note dh = drain_holds [OF i [THEN conjunct1] dr]
  obtain fc' w2 sr where s: "send ?rq (wal_client wal, w) = (Inr (), (fc', w2))" "client_ok fc' w2" "worker w2 = Some wk"
    "channel w2 = [sr]" "req sr = ?rq" "inode w2 = inode w" "dir_frame w2 = dir_frame w" "script w2 = []"
    "panic_on w2 = (\<lambda>_. False)"
    by (rule send_idle [OF _ ch cm wk(1), of "wal_client wal" ?rq]) (use i assms(7) in \<open>auto simp: req_data_def\<close>)
  have ids: "distinct (map dc_id ds)" and ok: "list_all (dc_ok W) ds"
    using i consecutive_sorted [OF W] strict_sorted_iff by (auto simp: wal_holds_def)
  have off: "\<forall>e \<in> set ds. offset (dc_id e) < 2 ^ 64" using ok by (auto simp: list_all_iff dc_ok_def dc_end_def)
  have dir: "dir_holds ?cfg w2 (take ?k ds @ drop ?k ds)"
    unfolding append_take_drop_id dir_holds_cong [OF s(7)] using i by blast
  have sub: "set ids \<subseteq> dc_id ` set ds" using arg_cong [OF dh(2), of set] set_take_subset [of ?k ds] by auto
  have lk: "\<forall>cid \<in> set ids. lookup w2 (chunk_path ?cfg cid) \<noteq> None"
  proof
    fix cid assume "cid \<in> set ids"
    then obtain d where "d \<in> set ds" "cid = dc_id d" using sub by blast
    then show "lookup w2 (chunk_path ?cfg cid) \<noteq> None" using dir by (auto simp: dir_holds_def list_all_iff)
  qed
  have dist: "distinct ids" using distinct_take [OF ids, of ?k] dh(2) by (simp add: take_map)
  have "cid = cid'" if "cid \<in> set ids" "cid' \<in> set ids" "chunk_path ?cfg cid = chunk_path ?cfg cid'" for cid cid'
  proof -
    have "offset cid < 2 ^ 64" "offset cid' < 2 ^ 64" using off that sub by auto
    then show ?thesis using that(3) chunk_path_eq_iff by blast
  qed
  then have "distinct (map (chunk_path ?cfg) ids)" using dist by (auto simp: distinct_map inj_on_def)
  then have run: "run w2 = (fold (unlink ?cfg) ids w2)\<lparr>channel := [], wstate := complete (seq sr) (wstate w2)\<rparr>"
    using s wk(2) dir lk by (intro run_remove) (auto simp: client_inv_def dir_holds_def)
  have ino: "inode (run w2) = inode w" using s(6) by (auto simp: run fold_unlink Let_def fun_eq_iff inode_def)
  have wkr: "worker (run w2) = Some wk" "channel (run w2) = []" using s(3) by (simp_all add: run fold_unlink Let_def)
  have fr: "dir_frame (run w2) = dir_frame (fold (unlink ?cfg) ids w2)" by (simp add: run dir_frame_def)
  have "dir_holds ?cfg (run w2) (drop ?k ds)"
    unfolding dir_holds_cong [OF fr] using dir_holds_unlink_all [OF dir] ids off dh(2) by simp
  moreover have "flow (targets W ds out) (run w2)"
  proof -
    have "flow (targets W ds out) w" using i by blast
    then show ?thesis using flow_cong(2) [OF ino] wkr wk(1) ch by metis
  qed
  then have "flow (targets W (drop ?k ds) out) (run w2)" using wkr(2) dh(3) by (rule flow_drop)
  moreover have "client_ok fc' (run w2)" by (rule client_ok_run(1) [OF s(2)])
  moreover have "wal_holds W (wal1\<lparr>wal_client := fc'\<rparr>) (drop ?k ds) out" using dh(1,3) by (simp add: wal_holds_def)
  ultimately have wi: "wal_inv W (wal1\<lparr>wal_client := fc'\<rparr>) (run w2) (drop ?k ds) out"
    using wkr dh(5) by (simp add: wal_inv_def)
  have "calm (run w2)" using s(8,9) wkr by (auto simp: calm_def run fold_unlink Let_def)
  moreover have "send_remove_chunks ids (wal1, w) = (Inr (), (wal1\<lparr>wal_client := fc'\<rparr>, w2))"
    using s(1) dh(4,5) by (simp add: send_remove_chunks_def send_request_def)
  moreover have "entries w2 = entries w" using s(7) by (simp add: dir_frame_def)
  then have "set (entries (run w2)) \<subseteq> set (entries w)" by (auto simp: run fold_unlink Let_def)
  ultimately show thesis using that wi ino dh(5) wkr by simp
qed

section \<open>Properties\<close>

text \<open>
  C9. Purging the log. Draining takes the longest prefix of the closed chunks whose checkpoints satisfy
  the caller's test, and never the open chunk; after the request to remove them was sent to an idle
  worker and processed, their files are gone from the directory, on stable storage too, the remaining
  files are untouched, and the log is in use as before with exactly the remaining chunks.
\<close>

theorem purge_keeps_rest:
  fixes w :: "('cb, 'c) world"
  assumes "wal_types W" and "wal_inv W wal w ds out" and "calm w" and "channel w = []" and "worker w = Some wk"
    and "wk_config wk = wal_config wal" and "fc_sent_seq (wal_client wal) + 1 < 2 ^ 64"
    and "drain_closed_chunks_while p wal = (ids, wal1)"
  shows "ids = map dc_id (take (length ids) ds) \<and> length ids < length ds \<and>
    ids = map fst (takeWhile (\<lambda>e. p (cc_state (snd e))) (wal_closed wal)) \<and>
    (\<exists>wal2 w2. send_remove_chunks ids (wal1, w) = (Inr (), (wal2, w2)) \<and>
       wal_inv W wal2 (run w2) (drop (length ids) ds) out \<and> calm (run w2) \<and> inode (run w2) = inode w)"
proof -
  have h: "wal_holds W wal ds out" using assms(2) by (simp add: wal_inv_def)
  obtain wal2 w2 where "send_remove_chunks ids (wal1, w) = (Inr (), (wal2, w2))"
    "wal_inv W wal2 (run w2) (drop (length ids) ds) out" "calm (run w2)" "inode (run w2) = inode w"
    by (rule purge_inv [OF assms])
  moreover have "ids = map fst (takeWhile (\<lambda>e. p (cc_state (snd e))) (wal_closed wal))"
    using assms(8) by (auto simp: drain_closed_chunks_while_def drain_loop_split)
  ultimately show ?thesis using drain_holds(2,3) [OF h assms(8)] by blast
qed

text \<open>The log of the two example chunks, opened from a directory whose second file has \<open>k\<close> durable bytes.\<close>

lemma demo_purge:
  obtains wal wal1 and w :: "(nat, byte list) world" and wk where
    "wal_inv test_wal wal w ([vote_chunk 0 0] @ [vote_chunk 12 1]) (bytes_of test_wal demo_vote)" "calm w" "channel w = []"
    "worker w = Some wk" "wk_config wk = wal_config wal" "fc_sent_seq (wal_client wal) + 1 < 2 ^ 64"
    "drain_closed_chunks_while (\<lambda>_. True) wal = (map dc_id [vote_chunk 0 0], wal1)" "wal_config wal = demo_config"
    "inode w = inode (safe_disk k)" "entries w = entries (safe_disk k)"
    "open_locked test_wal demo_config demo_sm demo_lock ([], safe_disk k) = (Inr wal, ([demo_vote, demo_vote], w))"
proof -
  let ?ds = "[vote_chunk 0 0, vote_chunk 12 1]"
  obtain wal and w :: "(nat, byte list) world" where
    op: "open_locked test_wal demo_config demo_sm demo_lock ([], safe_disk k) = (Inr wal, ([demo_vote, demo_vote], w))"
    and inv: "wal_inv test_wal wal w ?ds (log_bytes test_wal (dc_records (last ?ds)))"
    and w: "calm w" "wal_config wal = demo_config" "dir_frame w = dir_frame (safe_disk k)" "inode w = inode (safe_disk k)"
      "wal_client wal = flush_client_new" "channel w = []" "\<exists>wk. worker w = Some wk \<and> wk_config wk = demo_config"
    by (rule open_clean_inv [OF test_wal_ok safe_disk_ok(1,3) demo_config_dir(2) demo_replay safe_disk_ok(2)
          safe_disk_entries(2) safe_disk_ok(4)])
  obtain e where "wal_closed wal = [e]" "fst e = ChunkId 0"
    using inv by (auto simp: wal_inv_def wal_holds_def list_all2_Cons2 closed_match_def vote_chunk_def)
  then have dr: "drain_closed_chunks_while (\<lambda>_. True) wal = (map dc_id [vote_chunk 0 0], wal\<lparr>wal_closed := []\<rparr>)"
    by (simp add: drain_closed_chunks_while_def drain_loop_split vote_chunk_def)
  obtain wk where wk: "worker w = Some wk" "wk_config wk = wal_config wal" using w(2,7) by auto
  have i: "wal_inv test_wal wal w ([vote_chunk 0 0] @ [vote_chunk 12 1]) (bytes_of test_wal demo_vote)"
    using inv by (simp add: vote_chunk_def)
  have en: "entries w = entries (safe_disk k)" using w(3) by (simp add: dir_frame_def)
  have sq: "fc_sent_seq (wal_client wal) + 1 < 2 ^ 64" using w(5) by (simp add: flush_client_new_def)
  show thesis by (rule that [OF i w(1,6) wk sq dr w(2,4) en op])
qed

theorem purge_keeps_rest_witness:
  "\<exists>wal (w :: (nat, byte list) world). wal_inv test_wal wal w [vote_chunk 12 1] (bytes_of test_wal demo_vote)"
proof -
  obtain wal wal1 and w :: "(nat, byte list) world" and wk where d:
    "wal_inv test_wal wal w ([vote_chunk 0 0] @ [vote_chunk 12 1]) (bytes_of test_wal demo_vote)" "calm w" "channel w = []"
    "worker w = Some wk" "wk_config wk = wal_config wal" "fc_sent_seq (wal_client wal) + 1 < 2 ^ 64"
    "drain_closed_chunks_while (\<lambda>_. True) wal = (map dc_id [vote_chunk 0 0], wal1)"
    by (rule demo_purge [of 12])
  from purge_keeps_rest [OF test_wal_ok d] obtain wal2 and w2 :: "(nat, byte list) world" where
    "wal_inv test_wal wal2 (run w2) (drop (length (map dc_id [vote_chunk 0 0]))
       ([vote_chunk 0 0] @ [vote_chunk 12 1])) (bytes_of test_wal demo_vote)" by blast
  then show ?thesis by (intro exI) simp
qed

text \<open>
  C26. The removal does not wait for what replaces the removed chunks. Let the last chunk of a log have no
  byte on stable storage, as after \<open>try_close_full_chunk\<close>, which writes its checkpoint without
  synchronising it, and let all closed chunks be removed by the idle worker. A crash may then leave the
  only remaining file empty; opening succeeds and silently starts a new log at offset 0: no record is
  replayed, whatever was on stable storage before the removal.
\<close>

theorem remove_chunks_outruns_sync:
  fixes w v :: "('cb, 'c) world"
  assumes "wal_types W" and "wal_inv W wal w (ds @ [n]) out" and "calm w" and "channel w = []"
    and "worker w = Some wk" and "wk_config wk = wal_config wal" and "fc_sent_seq (wal_client wal) + 1 < 2 ^ 64"
    and "drain_closed_chunks_while p wal = (map dc_id ds, wal1)"
    and "validate (wal_config wal) = Inr ()" and "encodable W (Checkpoint (sm_checkpoint SM sm))"
    and "length (bytes_of W (Checkpoint (sm_checkpoint SM sm))) < 2 ^ 64"
  shows "\<exists>wal2 w2. send_remove_chunks (map dc_id ds) (wal1, w) = (Inr (), (wal2, w2)) \<and>
    (\<forall>v. crash_image (run w2) v \<and> content_of v (dc_file n) = synced_of w (dc_file n) \<and>
         synced_of w (dc_file n) = [] \<longrightarrow>
       (\<exists>wal' v'. open_locked W (wal_config wal) SM lock (sm, v) = (Inr wal', (sm, v')) \<and>
          wal_holds W wal' [fresh_chunk (next_ino v) (sm_checkpoint SM sm)]
            (bytes_of W (Checkpoint (sm_checkpoint SM sm)))))"
proof -
  obtain wal2 w2 where s: "send_remove_chunks (map dc_id ds) (wal1, w) = (Inr (), (wal2, w2))"
    "wal_inv W wal2 (run w2) (drop (length (map dc_id ds)) (ds @ [n])) out" "wal_config wal2 = wal_config wal"
    by (rule purge_inv [OF assms(1-8)])
  then have i: "wal_inv W wal2 (run w2) [n] out" by simp
  have "\<exists>wal' v'. open_locked W (wal_config wal) SM lock (sm, v) = (Inr wal', (sm, v')) \<and>
      wal_holds W wal' [fresh_chunk (next_ino v) (sm_checkpoint SM sm)] (bytes_of W (Checkpoint (sm_checkpoint SM sm)))"
    if cr: "crash_image (run w2) v" and c: "content_of v (dc_file n) = []" for v
  proof -
    have base: "crash_base W (wal_config wal) (run w2) [n] v"
      using i s(3) assms(1) cr by (simp add: crash_base_def wal_inv_def wal_holds_def)
    have "chunk_on_disk (wal_config wal) (dc_id n) (dc_file n) [] v" using crash_on_disk [OF base, of n] c by simp
    moreover have "mset (chunk_ids_of (dir_names (dir (wal_config wal)) v)) = {#dc_id n#}"
      "dir (wal_config wal) \<in> set (dirs v)" "script v = []"
      using base by (auto simp: crash_base_def crash_image_def dir_holds_def dir_names_def)
    ultimately have "blank_image W (wal_config wal) v [(dc_id n, dc_file n, [])]"
      by (simp add: blank_image_def blank_stored_def blank_def)
    from open_blank [OF assms(1) this assms(9-11) refl, of lock] show ?thesis by (auto simp: fresh_chunk_def)
  qed
  then show ?thesis using s(1) by auto
qed

theorem remove_chunks_outruns_sync_witness:
  "\<exists>wal (w :: (nat, byte list) world) wal1 wal2 w2 v wal' v'.
    open_locked test_wal demo_config demo_sm demo_lock ([], safe_disk 0) = (Inr wal, ([demo_vote, demo_vote], w)) \<and>
    drain_closed_chunks_while (\<lambda>_. True) wal = ([ChunkId 0], wal1) \<and>
    send_remove_chunks [ChunkId 0] (wal1, w) = (Inr (), (wal2, w2)) \<and> crash_image (run w2) v \<and>
    open_locked test_wal demo_config demo_sm demo_lock ([], v) = (Inr wal', ([], v'))"
proof -
  obtain wal wal1 and w :: "(nat, byte list) world" and wk where d:
    "wal_inv test_wal wal w ([vote_chunk 0 0] @ [vote_chunk 12 1]) (bytes_of test_wal demo_vote)" "calm w" "channel w = []"
    "worker w = Some wk" "wk_config wk = wal_config wal" "fc_sent_seq (wal_client wal) + 1 < 2 ^ 64"
    "drain_closed_chunks_while (\<lambda>_. True) wal = (map dc_id [vote_chunk 0 0], wal1)"
    and e: "wal_config wal = demo_config" "inode w = inode (safe_disk 0)" "entries w = entries (safe_disk 0)"
      "open_locked test_wal demo_config demo_sm demo_lock ([], safe_disk 0) = (Inr wal, ([demo_vote, demo_vote], w))"
    by (rule demo_purge [of 0])
  obtain wal2 w2 where p: "send_remove_chunks (map dc_id [vote_chunk 0 0]) (wal1, w) = (Inr (), (wal2, w2))"
    "wal_inv test_wal wal2 (run w2) (drop (length (map dc_id [vote_chunk 0 0])) ([vote_chunk 0 0] @ [vote_chunk 12 1]))
       (bytes_of test_wal demo_vote)" "calm (run w2)" "inode (run w2) = inode w" "set (entries (run w2)) \<subseteq> set (entries w)"
    by (rule purge_inv [OF test_wal_ok d])
  have "synced_entries (run w2) = entries (run w2)" using p(2) by (simp add: wal_inv_def dir_holds_def)
  then have "snd ` set (synced_entries (run w2)) \<subseteq> {0, 1}" using p(5) e(3) by (auto simp: safe_disk_entries)
  then have cr: "crash_image (run w2) (power_loss (run w2))"
    using p(3,4) e(2) by (intro power_loss_image) (auto simp: calm_def safe_disk_prefix)
  have ck: "encodable test_wal (Checkpoint (sm_checkpoint demo_sm []))"
    "length (bytes_of test_wal (Checkpoint (sm_checkpoint demo_sm []))) < 2 ^ 64"
    by (simp_all add: demo_sm_def encodable_def bytes_of_def test_vector_checkpoint del: wal_encode.simps)
  have n: "synced_of w (dc_file (vote_chunk 12 1)) = []" using e(2) by (simp add: vote_chunk_def)
  have "content_of (power_loss (run w2)) (dc_file (vote_chunk 12 1)) = synced_of (run w2) (dc_file (vote_chunk 12 1))"
    by (simp add: power_loss_def inode_def split: option.splits)
  then have "content_of (power_loss (run w2)) (dc_file (vote_chunk 12 1)) = []" using p(4) n by simp
  then obtain wal' v' where "open_locked test_wal demo_config demo_sm demo_lock ([], power_loss (run w2)) = (Inr wal', ([], v'))"
    using remove_chunks_outruns_sync [OF test_wal_ok d _ ck, of demo_lock] p(1) n cr e(1) demo_config_dir(2) by auto
  then show ?thesis using e(4) d(7) p(1) cr by (intro exI conjI) (simp_all add: vote_chunk_def)
qed

end
