(* ===== verification/Wal_Api.thy ===== *)
theory Wal_Api
  imports Wal_Run
begin

text \<open>
  The trait \<open>WAL\<close> of \<open>src/api/wal.rs\<close> as an interface: what its documentation promises of \<open>append\<close> and
  \<open>last_segment\<close>, what a client gets from it that appends several records, and that the log of
  \<open>src/wal/chunked_wal.rs\<close> provides it.
\<close>

section \<open>The interface\<close>

text \<open>
  \<open>holds s rs n\<close>: the log has the records \<open>rs\<close> and ends at the global offset \<open>n\<close>. An appended record
  lies at the old end; a rejected record leaves the log as it was.
\<close>

locale wal_api =
  fixes append :: "'r \<Rightarrow> 's \<Rightarrow> unit res \<times> 's" and last_seg :: "'s \<Rightarrow> segment res"
    and holds :: "'s \<Rightarrow> 'r list \<Rightarrow> nat \<Rightarrow> bool" and size_of :: "'r \<Rightarrow> nat" and good :: "'r \<Rightarrow> bool"
  assumes append_good: "holds s rs n \<Longrightarrow> good r \<Longrightarrow> n + size_of r < 2 ^ 64 \<Longrightarrow>
      \<exists>s'. append r s = (Inr (), s') \<and> holds s' (rs @ [r]) (n + size_of r) \<and> last_seg s' = Inr (Segment n (size_of r))"
    and append_bad: "\<not> good r \<Longrightarrow> \<exists>e. append r s = (Inl (Err e), s)"

text \<open>A client that appends records one after the other and asks for the place of each.\<close>

fun append_each :: "('r \<Rightarrow> 's \<Rightarrow> unit res \<times> 's) \<Rightarrow> ('s \<Rightarrow> segment res) \<Rightarrow> 'r list \<Rightarrow> 's \<Rightarrow> segment list res \<times> 's" where
  "append_each app seg [] s = (Inr [], s)"
| "append_each app seg (r # rs) s =
     (case app r s of
        (Inl e, s') \<Rightarrow> (Inl e, s')
      | (Inr _, s') \<Rightarrow>
         (case seg s' of
            Inl e \<Rightarrow> (Inl e, s')
          | Inr g \<Rightarrow> (case append_each app seg rs s' of (r', s'') \<Rightarrow> (map_sum id ((#) g) r', s''))))"

fun places :: "('r \<Rightarrow> nat) \<Rightarrow> nat \<Rightarrow> 'r list \<Rightarrow> segment list" where
  "places sz n [] = []"
| "places sz n (r # rs) = Segment n (sz r) # places sz (n + sz r) rs"

context wal_api
begin

lemma append_each_good:
  assumes "holds s rs n" and "list_all good qs" and "n + sum_list (map size_of qs) < 2 ^ 64"
  shows "\<exists>s'. append_each append last_seg qs s = (Inr (places size_of n qs), s') \<and>
    holds s' (rs @ qs) (n + sum_list (map size_of qs))"
  using assms
proof (induction qs arbitrary: s rs n)
  case (Cons q qs)
  have "good q" "n + size_of q < 2 ^ 64" using Cons.prems(2,3) by simp_all
  from append_good [OF Cons.prems(1) this] obtain s1 where
    s1: "append q s = (Inr (), s1)" "holds s1 (rs @ [q]) (n + size_of q)" "last_seg s1 = Inr (Segment n (size_of q))" by blast
  from Cons.IH [OF s1(2)] Cons.prems(2,3) show ?case using s1 by (auto simp: add.assoc)
qed simp

text \<open>The first record that is rejected stops the client; what came before it is in the log.\<close>

lemma append_each_bad:
  assumes "holds s rs n" and "list_all good qs" and "n + sum_list (map size_of qs) < 2 ^ 64" and "\<not> good b"
  shows "\<exists>e s'. append_each append last_seg (qs @ b # bs) s = (Inl (Err e), s') \<and>
    holds s' (rs @ qs) (n + sum_list (map size_of qs))"
  using assms
proof (induction qs arbitrary: s rs n)
  case Nil
  then show ?case using append_bad [of b s] by auto
next
  case (Cons q qs)
  have "good q" "n + size_of q < 2 ^ 64" using Cons.prems(2,3) by simp_all
  from append_good [OF Cons.prems(1) this] obtain s1 where
    s1: "append q s = (Inr (), s1)" "holds s1 (rs @ [q]) (n + size_of q)" "last_seg s1 = Inr (Segment n (size_of q))" by blast
  from Cons.IH [OF s1(2)] Cons.prems(2-4) show ?case using s1 by (auto simp: add.assoc)
qed

end

section \<open>The log provides it\<close>

definition log_holds :: "('a, 'c) wal_types \<Rightarrow> ('cb, 'c) wal_state \<Rightarrow> ('a, 'c) wal_record list \<Rightarrow> nat \<Rightarrow> bool" where
  "log_holds W s rs n = (\<exists>ds out. wal_inv W (fst s) (snd s) ds out \<and> log_records ds = rs \<and> dc_end W (last ds) = n)"

definition record_size :: "('a, 'c) wal_types \<Rightarrow> ('a, 'c) wal_record \<Rightarrow> nat" where
  "record_size W r = length (bytes_of W r)"

lemma last_segment_holds:
  assumes "wal_holds W wal (add_record r ds) out" and "ds \<noteq> []"
  shows "wal_last_segment wal = Inr (Segment (dc_end W (last ds)) (length (bytes_of W r)))"
proof -
  let ?d = "last ds" and ?e = "last (add_record r ds)"
  have h: "open_holds W (offset (dc_id ?d)) (dc_records ?d @ [r]) out (wal_open wal)"
    using assms by (simp add: wal_holds_def add_record_def)
  then have c: "global_offsets (oc_chunk (wal_open wal)) =
      offsets_from (offset (dc_id ?d)) (rec_sizes W (dc_records ?d @ [r]))"
    and room: "offset (dc_id ?d) + length (log_bytes W (dc_records ?d)) + length (bytes_of W r) < 2 ^ 64"
    by (simp_all add: open_holds_def)
  let ?c = "loaded W (dc_id ?d) (chunk_file (oc_chunk (wal_open wal))) (dc_records ?d @ [r])
    (truncated (oc_chunk (wal_open wal)))"
  have eq: "oc_chunk (wal_open wal) = ?c" using c by (cases "oc_chunk (wal_open wal)") (simp add: loaded_def)
  have "last_segment ?c = record_segment ?c (length (dc_records ?d))"
    using last_segment_record_segment [of ?c] by (simp add: records_count_def loaded_def)
  also have "\<dots> = Inr (Segment (dc_end W ?d) (length (bytes_of W r)))"
    using record_segment_loaded [of "length (dc_records ?d)" "dc_records ?d @ [r]" "dc_id ?d" W] room
    by (simp add: dc_end_def)
  finally show ?thesis by (simp add: wal_last_segment_def eq [symmetric])
qed

sublocale wal_types \<subseteq> log: wal_api "wal_append W" "\<lambda>s. wal_last_segment (fst s)" "log_holds W" "record_size W" "encodable W"
proof unfold_locales
  fix s rs n r
  assume h: "log_holds W s rs n" and "encodable W r" and "n + record_size W r < 2 ^ 64"
  obtain wal w where s: "s = (wal, w)" by (cases s)
  obtain ds out where ds: "wal_inv W wal w ds out" "log_records ds = rs" "dc_end W (last ds) = n"
    using h by (auto simp: log_holds_def s)
  then have ne: "ds \<noteq> []" by (simp add: wal_inv_def wal_holds_def)
  obtain wal' where ap: "wal_append W r (wal, w) = (Inr (), (wal', w))" "wal_inv W wal' w (add_record r ds) out"
    using wal_inv_append [OF wal_types_axioms ds(1) \<open>encodable W r\<close>] \<open>n + record_size W r < 2 ^ 64\<close> ds(3)
    by (auto simp: record_size_def)
  have "dc_end W (last (add_record r ds)) = n + record_size W r"
    using ds(3) by (simp add: add_record_def dc_end_def record_size_def)
  then have "log_holds W (wal', w) (rs @ [r]) (n + record_size W r)"
    using ap(2) log_records_add [OF ne] ds(2) by (auto simp: log_holds_def)
  moreover have "wal_holds W wal' (add_record r ds) out" using ap(2) by (simp only: wal_inv_def)
  from last_segment_holds [OF this ne] have "wal_last_segment wal' = Inr (Segment n (record_size W r))"
    using ds(3) by (simp add: record_size_def)
  ultimately show "\<exists>s'. wal_append W r s = (Inr (), s') \<and> log_holds W s' (rs @ [r]) (n + record_size W r) \<and>
      wal_last_segment (fst s') = Inr (Segment n (record_size W r))"
    using ap(1) s by auto
next
  show "\<exists>e. wal_append W r s = (Inl (Err e), s)" if "\<not> encodable W r" for r s
    using wal_append_rejected [OF that, of "fst s" "snd s"] by simp
qed

context wal_types
begin

lemmas append_each_encodable = log.append_each_good
lemmas append_each_rejected = log.append_each_bad

end

section \<open>Properties\<close>

text \<open>
  C14. Appending several records to a log in use and asking for \<open>last_segment\<close> after each: every call
  succeeds, the answers are the places of the records, one behind the other from the old end of the log
  on with the lengths of their encodings, and the log then holds these records after the old ones. If
  there is a record that cannot be encoded, its call fails, and the log holds exactly what was appended
  before it.
\<close>

theorem append_places_records:
  fixes s :: "('cb, 'c) wal_state"
  assumes "wal_types W" and "log_holds W s rs n" and "list_all (encodable W) qs"
    and "n + sum_list (map (record_size W) qs) < 2 ^ 64"
  shows "(\<exists>s'. append_each (wal_append W) (\<lambda>s. wal_last_segment (fst s)) qs s = (Inr (places (record_size W) n qs), s') \<and>
      log_holds W s' (rs @ qs) (n + sum_list (map (record_size W) qs))) \<and>
    (\<forall>b bs. \<not> encodable W b \<longrightarrow>
      (\<exists>e s'. append_each (wal_append W) (\<lambda>s. wal_last_segment (fst s)) (qs @ b # bs) s = (Inl (Err e), s') \<and>
        log_holds W s' (rs @ qs) (n + sum_list (map (record_size W) qs))))"
  using wal_types.append_each_encodable [OF assms] wal_types.append_each_rejected [OF assms] by blast

theorem append_places_records_witness:
  "\<exists>(s :: (nat, byte list) wal_state) s'.
    append_each (wal_append test_wal) (\<lambda>s. wal_last_segment (fst s)) [demo_vote, demo_vote] s =
      (Inr [Segment 24 12, Segment 36 12], s')"
proof -
  obtain wal and w :: "(nat, byte list) world" where
    "wal_inv test_wal wal w [vote_chunk 0 0, vote_chunk 12 1]
       (log_bytes test_wal (dc_records (last [vote_chunk 0 0, vote_chunk 12 1])))"
    by (rule open_clean_inv [OF test_wal_ok safe_disk_ok(1,3) demo_config_dir(2) demo_replay safe_disk_ok(2)
          safe_disk_entries(2) safe_disk_ok(4)])
  then have "log_holds test_wal (wal, w) [demo_vote, demo_vote] 24"
    by (auto simp: log_holds_def log_records_def vote_chunk_ok intro!: exI)
      (simp add: vote_chunk_def)
  moreover have "list_all (encodable test_wal) [demo_vote, demo_vote]" by (simp add: encodable_vote)
  moreover have "record_size test_wal demo_vote = 12" by (simp add: record_size_def bytes_of_vote)
  ultimately show ?thesis
    using append_places_records [OF test_wal_ok, of "(wal, w)" "[demo_vote, demo_vote]" 24 "[demo_vote, demo_vote]"]
    by auto
qed

end
