(* ===== verification/Shutdown.thy ===== *)
theory Shutdown
  imports Crash_Open
begin

text \<open>
  Shutting a log down: everything that was appended is handed over, the worker processes it, synchronises
  it and ends. Afterwards the whole log is on stable storage.
\<close>

section \<open>The last run of the worker\<close>

lemma closed_run:
  fixes w :: "('cb, 'c) world"
  assumes ok: "client_ok fc w" and pl: "list_all plain (channel w)" and fl: "flow ts w" and sy: "ends_synced w"
  defines "u \<equiv> w\<lparr>tx_alive := False\<rparr>"
  shows "worker (run u) = None" and "dir_frame (run u) = dir_frame w"
    and "wait_for (fc_sent_seq fc) (wstate (run u)) = Some (Inr ()) \<Longrightarrow> list_all (landed (run u)) ts"
    and "calm w \<Longrightarrow> wait_for (fc_sent_seq fc) (wstate (run u)) = Some (Inr ())"
proof -
  obtain wk where wk: "worker w = Some wk" using fl by (auto simp: flow_def)
  have ne: "files wk \<noteq> []" and sent: "top_seq (done_seq (wstate w)) (channel w) = fc_sent_seq fc"
    using ok wk by (auto simp: client_inv_def)
  have u: "worker u = Some wk" "channel u = channel w" "wstate u = wstate w" "dir_frame u = dir_frame w"
    using wk by (simp_all add: u_def dir_frame_def)
  have fu: "flow ts u" "ends_synced u"
    using flow_cong(2) [of u w ts] fl sy u(1,2) wk by (simp_all add: u_def fun_eq_iff inode_def)
  obtain p q d wk1 w1 where res: "run_result wk p q d wk1 u w1 (run u)"
    and alive: "worker (run u) = (if q = [] \<and> tx_alive u then Some wk1 else None)"
    by (rule run_cases [OF u(1) ne])
  have split: "done_seq (wstate (run u)) = top_seq (done_seq (wstate w)) p" "channel w = p @ q"
    using res u(2,3) by (auto simp: run_result_def accounted_def)
  show "worker (run u) = None" using alive by (simp add: u_def)
  show "dir_frame (run u) = dir_frame w" using run_dir [of u] u ne pl by simp
  show "list_all (landed (run u)) ts" if "wait_for (fc_sent_seq fc) (wstate (run u)) = Some (Inr ())"
  proof -
    have "fc_sent_seq fc \<le> done_seq (wstate (run u))"
      using that by (auto simp: wait_for_def status_error_def done_seq_def split: if_splits worker_status.splits)
    then have "q = []" using idle_queue [OF ok wk, of p q] split by simp
    then show ?thesis using flow_run_lands(1) [OF fu u(1) res] by simp
  qed
  show "wait_for (fc_sent_seq fc) (wstate (run u)) = Some (Inr ())" if "calm w"
  proof -
    have "calm u" using that by (simp add: u_def calm_def)
    then have "done_seq (wstate (run u)) = fc_sent_seq fc" using calm_run [OF u(1) ne] u(2,3) sent by auto
    then show ?thesis by (simp add: wait_for_def done_seq_def)
  qed
qed

text \<open>Waiting when the worker has ended: nothing happens any more.\<close>

lemma wait_worker_idle_ended:
  assumes "worker w = None"
  shows "\<exists>r. wait_worker_idle (wal, w) = (r, (wal, w)) \<and>
    (r = Inr () \<longleftrightarrow> wait_for (fc_sent_seq (wal_client wal)) (wstate w) = Some (Inr ()))"
  using assms by (auto simp: wait_worker_idle_def wait_idle_def Let_def run_stopped split: option.splits)

lemma send_pending_handle:
  "send_pending sync cb (wal, w) = (r, (wal', w')) \<Longrightarrow> worker_handle wal' = worker_handle wal"
  by (auto simp: send_pending_def take_pending_data_def send_request_def Let_def split: prod.splits)

text \<open>The end of \<open>shutdown\<close> after the last flush was sent: the sender is closed and the thread joined.\<close>

lemma close_and_join:
  fixes w :: "('cb, 'c) world"
  assumes W: "wal_types W" and inv: "wal_inv W wal w ds (log_bytes W (dc_records (last ds)))" and sy: "ends_synced w"
  defines "u \<equiv> run (w\<lparr>tx_alive := False\<rparr>)" and "wal2 \<equiv> wal\<lparr>wal_client := (wal_client wal)\<lparr>fc_tx := False\<rparr>\<rparr>"
  obtains r where "wait_worker_idle (wal2, u) = (r, (wal2, u))" "worker u = None" "calm w \<longrightarrow> r = Inr ()"
    "r = Inr () \<longrightarrow> list_all (landed u) (map (chunk_target W) ds)"
    "\<forall>v. r = Inr () \<and> crash_image u v \<longrightarrow> log_image W (wal_config wal) v ds [] []"
proof -
  note i = inv [unfolded wal_inv_def]
  have ne: "ds \<noteq> []" using i by (simp add: wal_holds_def)
  have fl: "flow (map (chunk_target W) ds) w" and cl: "client_ok (wal_client wal) w" and pl: "list_all plain (channel w)"
    using i by (simp_all add: targets_full [OF ne, of W])
  note c = closed_run [OF cl pl fl sy, folded u_def]
  obtain r where r: "wait_worker_idle (wal2, u) = (r, (wal2, u))"
    "r = Inr () \<longleftrightarrow> wait_for (fc_sent_seq (wal_client wal)) (wstate u) = Some (Inr ())"
    using wait_worker_idle_ended [OF c(1), of wal2] by (auto simp: wal2_def)
  have "log_image W (wal_config wal) v ds [] []" if "r = Inr ()" "crash_image u v" for v
  proof -
    have "dir_holds (wal_config wal) u ds" unfolding dir_holds_cong [OF c(2)] using i by blast
    then have "crash_base W (wal_config wal) u ds v"
      using i W that(2) by (simp add: crash_base_def wal_holds_def)
    then show ?thesis using landed_image [OF _ ne] c(3) r(2) that(1) by blast
  qed
  then show thesis using that r c by blast
qed

section \<open>Properties\<close>

text \<open>
  C10. Shutting down a log in use (\<open>wal_ok\<close>: the worker runs or has failed) whose worker was not yet
  joined, with space for one more request in the channel and the counters (without it see
  \<open>full_channel_failure_hangs\<close>). It returns and ends the worker, whatever system calls fail, and a second
  shutdown, as the one in \<open>drop\<close>, returns \<open>Ok\<close> and does nothing. On a disk without faults it returns
  \<open>Ok\<close>; and whenever it returns \<open>Ok\<close>, every byte of every record that was appended, also of those that were
  never flushed, is in its file and on stable storage, so that after any crash the directory is the image
  of exactly this log.
\<close>

theorem shutdown_makes_durable:
  fixes w :: "('cb, 'c) world"
  assumes "wal_types W" and "wal_ok W wal w ds" and "worker_handle wal"
    and "has_room (wal_client wal) w 1 (length (pending_data (wal_open wal)))"
  shows "\<exists>r wal' w'. shutdown (wal, w) = (r, (wal', w')) \<and> worker w' = None \<and>
    shutdown (wal', w') = (Inr (), (wal', w')) \<and> (calm w \<and> worker w \<noteq> None \<longrightarrow> r = Inr ()) \<and>
    (r = Inr () \<longrightarrow>
      list_all (\<lambda>d. content_of w' (dc_file d) = log_bytes W (dc_records d) \<and> clean w' (dc_file d)) ds \<and>
      (\<forall>v. crash_image w' v \<longrightarrow> log_image W (wal_config wal) v ds [] []))"
proof -
  let ?wal = "wal\<lparr>worker_handle := False\<rparr>"
  have same: "wal_inv W ?wal w ds out = wal_inv W wal w ds out" "wal_stopped W ?wal w ds = wal_stopped W wal w ds" for out
    by (simp_all add: wal_inv_def wal_stopped_def wal_holds_def)
  have ok: "wal_ok W ?wal w ds" using assms(2) by (simp add: wal_ok_def same)
  have room: "has_room (wal_client ?wal) w 1 (length (pending_data (wal_open ?wal)))" using assms(4) by simp
  obtain r1 wal1 w1 where s: "send_pending True None (?wal, w) = (r1, (wal1, w1))"
    by (cases "send_pending True None (?wal, w)") auto
  note f = wal_ok_flush [OF ok room s]
  have again: "shutdown (wal1\<lparr>wal_client := fc\<rparr>, v) = (Inr (), (wal1\<lparr>wal_client := fc\<rparr>, v))" for fc and v :: "('cb, 'c) world"
    using send_pending_handle [OF s] by (simp add: shutdown_def)
  show ?thesis
  proof (cases "r1 = Inr ()")
    case True
    let ?wal2 = "wal1\<lparr>wal_client := (wal_client wal1)\<lparr>fc_tx := False\<rparr>\<rparr>" and ?u = "run (w1\<lparr>tx_alive := False\<rparr>)"
    have f1: "wal_inv W wal1 w1 ds (log_bytes W (dc_records (last ds)))" "ends_synced w1" "calm w \<longrightarrow> calm w1"
      using f(4) [OF True] by simp_all
    obtain r where r: "wait_worker_idle (?wal2, ?u) = (r, (?wal2, ?u))" "worker ?u = None" "calm w1 \<longrightarrow> r = Inr ()"
      "r = Inr () \<longrightarrow> list_all (landed ?u) (map (chunk_target W) ds)"
      "\<forall>v. r = Inr () \<and> crash_image ?u v \<longrightarrow> log_image W (wal_config wal1) v ds [] []"
      by (rule close_and_join [OF assms(1) f1(1,2)])
    have "shutdown (wal, w) = (r, (?wal2, ?u))"
      using assms(3) s True r(1) by (simp add: shutdown_def close_def)
    then show ?thesis
      using r(2-5) again f1(3) f(2) by (intro exI conjI) (auto simp: list_all_iff landed_def)
  next
    case False
    then have st: "r1 = Inl (Err Other)" "worker w1 = None" "calm w \<longrightarrow> worker w = None"
      using f(5) by (simp_all add: wal_stopped_def)
    let ?wal2 = "wal1\<lparr>wal_client := (wal_client wal1)\<lparr>fc_tx := False\<rparr>\<rparr>" and ?u = "w1\<lparr>tx_alive := False\<rparr>"
    have "shutdown (wal, w) = (Inl (Err Other), (?wal2, ?u))"
      using assms(3) s st by (simp add: shutdown_def close_def run_stopped)
    then show ?thesis using again [of "(wal_client wal1)\<lparr>fc_tx := False\<rparr>" ?u] st(2,3) by auto
  qed
qed

theorem shutdown_makes_durable_witness:
  "\<exists>wal (w :: (nat, byte list) world) wal' w'.
    open_locked test_wal demo_config demo_sm demo_lock ([], safe_disk 5) = (Inr wal, ([demo_vote, demo_vote], w)) \<and>
    shutdown (wal, w) = (Inr (), (wal', w')) \<and> worker w' = None \<and>
    content_of w' 1 = bytes_of test_wal demo_vote \<and> clean w' 1"
proof -
  let ?ds = "[vote_chunk 0 0, vote_chunk 12 1]"
  obtain wal and w :: "(nat, byte list) world" where
    op: "open_locked test_wal demo_config demo_sm demo_lock ([], safe_disk 5) = (Inr wal, ([demo_vote, demo_vote], w))"
    and inv: "wal_inv test_wal wal w ?ds (log_bytes test_wal (dc_records (last ?ds)))"
    and w: "calm w" "wal_client wal = flush_client_new" "channel w = []" "used_bytes w = 0" "worker_handle wal"
    by (rule open_clean_inv [OF test_wal_ok safe_disk_ok(1,3) demo_config_dir(2) demo_replay safe_disk_ok(2)
          safe_disk_entries(2) safe_disk_ok(4)])
  have "pending_data (wal_open wal) = []" using inv by (simp add: wal_inv_def wal_holds_def open_holds_def)
  then have room: "has_room (wal_client wal) w 1 (length (pending_data (wal_open wal)))"
    using w by (simp add: has_room_def CHANNEL_CAPACITY_def flush_client_new_def)
  have ok: "wal_ok test_wal wal w ?ds" and alive: "worker w \<noteq> None" 
    using inv by (auto simp: wal_ok_def) (auto simp: wal_inv_def flow_def)
  from shutdown_makes_durable [OF test_wal_ok ok w(5) room] w(1) alive obtain wal' w' where
    sd: "shutdown (wal, w) = (Inr (), (wal', w'))" "worker w' = None"
    and l: "list_all (\<lambda>d. content_of w' (dc_file d) = log_bytes test_wal (dc_records d) \<and> clean w' (dc_file d)) ?ds" by blast
  have "content_of w' 1 = bytes_of test_wal demo_vote" "clean w' 1" using l by (simp_all add: vote_chunk_def)
  then show ?thesis using op sd by blast
qed

end
