(* ===== verification/Lifetime.thy ===== *)
theory Lifetime
  imports Crash_Open
begin

text \<open>
  The whole life of a log, through any number of crashes. What was synchronised stays synchronised while
  the log is used as in \<open>wal_run\<close>, under any faults of the kernel; together with the recovery after a crash
  this shows that a record once on stable storage stays in the log through such uses and any crashes.
\<close>

section \<open>Stable storage grows\<close>

text \<open>The worker has a current file, and no removal of chunks is on its way.\<close>

definition steady :: "('cb, 'c) world \<Rightarrow> bool" where
  "steady w = ((\<forall>wk. worker w = Some wk \<longrightarrow> files wk \<noteq> []) \<and> list_all plain (channel w))"

definition sync_grows :: "('cb, 'c) world \<Rightarrow> ('cb, 'c) world \<Rightarrow> bool" where
  "sync_grows w w' = (next_ino w \<le> next_ino w' \<and>
     (\<forall>i < next_ino w. prefix (synced_of w i) (content_of w i) \<longrightarrow>
        prefix (synced_of w i) (synced_of w' i) \<and> prefix (synced_of w' i) (content_of w' i)))"

lemma sync_grows_refl [simp]: "sync_grows w w"
  by (simp add: sync_grows_def)

lemma sync_grows_trans: "sync_grows w w1 \<Longrightarrow> sync_grows w1 w2 \<Longrightarrow> sync_grows w w2"
  unfolding sync_grows_def by (meson less_le_trans prefix_order.trans order_trans)

lemma sync_grows_same: "inode w' = inode w \<Longrightarrow> next_ino w' = next_ino w \<Longrightarrow> sync_grows w w'"
  by (simp add: sync_grows_def)

lemma sync_grows_run:
  assumes "steady w"
  shows "steady (run w)" and "sync_grows w (run w)"
proof -
  have "steady (run w) \<and> sync_grows w (run w)"
  proof (cases "worker w")
    case None
    then show ?thesis using assms by (simp add: run_def)
  next
    case (Some wk)
    then have ne: "files wk \<noteq> []" using assms by (simp add: steady_def)
    obtain p q d wk1 w1 where res: "run_result wk p q d wk1 w w1 (run w)"
      and alive: "worker (run w) = (if q = [] \<and> tx_alive w then Some wk1 else None)"
      by (rule run_cases [OF Some ne])
    have pr: "files wk1 \<noteq> []" "channel (run w) = []"
      "\<And>i. content_of w1 i = content_of w i @ routed (cur_file wk) p i"
      "\<And>i. sync_moves (content_of w i) (synced_of w i) (synced_of w1 i) (content_of w1 i)"
      and gr: "\<And>i. content_of (run w) i = content_of w1 i @ (if i = cur_file wk1 then d else [])"
      "\<And>i. synced_of (run w) i = synced_of w1 i \<or> synced_of (run w) i = content_of (run w) i"
      using res unfolding run_result_def processed_def grown_def by blast+
    have grow: "prefix (synced_of w i) (synced_of (run w) i)" if "prefix (synced_of w i) (content_of w i)" for i
    proof -
      have "prefix (content_of w i) (content_of w1 i)" "prefix (content_of w1 i) (content_of (run w) i)"
        using pr(3) gr(1) by simp_all
      then show ?thesis
        using that pr(4) [of i] gr(2) [of i] unfolding sync_moves_def by (metis prefix_order.refl prefix_order.trans)
    qed
    have "dir_frame (run w) = dir_frame w" using assms by (intro run_dir) (simp_all add: steady_def)
    then have "next_ino (run w) = next_ino w" by (simp add: dir_frame_def)
    then have "sync_grows w (run w)" using grow run_result_moves(2) [OF res] by (simp add: sync_grows_def)
    then show ?thesis using alive pr(1,2) by (simp add: steady_def)
  qed
  then show "steady (run w)" "sync_grows w (run w)" by blast+
qed

text \<open>The operations of the log keep what is on stable storage.\<close>

definition keeps :: "('s \<Rightarrow> ('cb, 'c) world) \<Rightarrow> ('s, 'a) io \<Rightarrow> bool" where
  "keeps pr m = (\<forall>s. steady (pr s) \<longrightarrow> steady (pr (snd (m s))) \<and> sync_grows (pr s) (pr (snd (m s))))"

named_theorems keeps_intros "operations that keep what is on stable storage"

lemma keeps_bind [keeps_intros]:
  assumes "keeps pr m" and "\<And>x. keeps pr (k x)"
  shows "keeps pr (io_bind m k)"
  unfolding keeps_def
proof (intro allI impI)
  fix s assume st: "steady (pr s)"
  obtain r s1 where m: "m s = (r, s1)" by (cases "m s")
  have 1: "steady (pr s1)" "sync_grows (pr s) (pr s1)" using assms(1) st m unfolding keeps_def by (metis snd_conv)+
  show "steady (pr (snd (io_bind m k s))) \<and> sync_grows (pr s) (pr (snd (io_bind m k s)))"
  proof (cases r)
    case (Inl e)
    then show ?thesis using m 1 by (simp add: io_bind_app)
  next
    case (Inr x)
    have "steady (pr (snd (k x s1)))" "sync_grows (pr s1) (pr (snd (k x s1)))"
      using assms(2) 1(1) unfolding keeps_def by blast+
    then show ?thesis using m Inr sync_grows_trans [OF 1(2)] by (simp add: io_bind_app)
  qed
qed

lemma keeps_lift [keeps_intros]: "keeps pr (io_lift r)"
  by (simp add: keeps_def)

lemma keeps_case:
  assumes "keeps pr m" and "steady (pr s)" and "m s = (r, s')"
  shows "steady (pr s')" and "sync_grows (pr s) (pr s')"
  using assms unfolding keeps_def by (metis snd_conv)+

lemma steady_cong:
  "worker w' = worker w \<Longrightarrow> channel w' = channel w \<Longrightarrow> steady w' = steady w"
  by (simp add: steady_def)

lemma keeps_acquire_wait: "keeps (\<lambda>w. w) (acquire_wait n)"
  unfolding keeps_def
proof (intro allI impI)
  fix w :: "('cb, 'c) world" assume st: "steady w"
  note r = sync_grows_run [OF st]
  have "sync_grows v (v\<lparr>wstate := x\<rparr>)" "steady (v\<lparr>wstate := x\<rparr>) = steady v" for v :: "('cb, 'c) world" and x
    by (auto simp: steady_def intro: sync_grows_same)
  then show "steady (snd (acquire_wait n w)) \<and> sync_grows w (snd (acquire_wait n w))"
    using st r by (auto simp: acquire_wait_def Let_def split: option.split intro: sync_grows_trans)
qed

lemma keeps_channel_send:
  fixes sr :: "('cb, 'c) seq_request"
  assumes "\<And>p. req sr \<noteq> RemoveChunks p"
  shows "keeps (\<lambda>w. w) (channel_send sr)"
  unfolding keeps_def
proof (intro allI impI)
  fix w :: "('cb, 'c) world" assume st: "steady w"
  define v where "v = (if length (channel w) < CHANNEL_CAPACITY then w else run w)"
  have v: "steady v" "sync_grows w v" using st sync_grows_run [OF st] by (simp_all add: v_def)
  have "steady (v\<lparr>channel := channel v @ [sr]\<rparr>)" using v(1) plain_snoc [of "channel v" sr] assms by (simp add: steady_def)
  moreover have "sync_grows v (v\<lparr>channel := channel v @ [sr]\<rparr>)" by (rule sync_grows_same) (simp_all add: fun_eq_iff inode_def)
  ultimately show "steady (snd (channel_send sr w)) \<and> sync_grows w (snd (channel_send sr w))"
    using v sync_grows_trans [OF v(2)] by (simp add: channel_send_def Let_def flip: v_def)
qed

lemma keeps_instant_now: "keeps (\<lambda>w. w) instant_now"
  unfolding keeps_def
proof (intro allI impI)
  fix w :: "('cb, 'c) world" assume st: "steady w"
  obtain t w' where "instant_now w = (Inr t, w')" "frame w' = frame w" "inode w' = inode w" by (rule instant_now_step)
  moreover from this(2) have "next_ino w' = next_ino w" "worker w' = worker w" "channel w' = channel w" by (simp_all add: frame_def)
  ultimately show "steady (snd (instant_now w)) \<and> sync_grows w (snd (instant_now w))"
    using st by (simp add: sync_grows_same steady_cong [of w' w])
qed

lemma keeps_send:
  fixes rq :: "('cb, 'c) worker_request"
  assumes "\<And>p. rq \<noteq> RemoveChunks p"
  shows "keeps snd (send rq)"
  unfolding keeps_def
proof (intro allI impI)
  fix s :: "flush_client \<times> ('cb, 'c) world"
  assume "steady (snd s)"
  then obtain fc w where s: "s = (fc, w)" and st: "steady w" by (cases s) auto
  let ?n = "case rq of Write x \<Rightarrow> length (wr_data x) | _ \<Rightarrow> 0"
  obtain r w1 where aq: "acquire_wait ?n w = (r, w1)" by (cases "acquire_wait ?n w")
  note a = keeps_case [OF keeps_acquire_wait st aq]
  let ?m = "\<lambda>n. io_bind instant_now (\<lambda>now. channel_send \<lparr> seq = n, queued_at = now, req = rq \<rparr>)"
  have "keeps (\<lambda>w. w) (?m n)" for n
    by (intro keeps_bind keeps_instant_now keeps_channel_send) (simp add: assms)
  then have m: "steady (snd (?m n w1)) \<and> sync_grows w1 (snd (?m n w1))" for n using a(1) unfolding keeps_def by blast
  have rel: "steady (snd (on_queued_bytes f v)) = steady v" "sync_grows v (snd (on_queued_bytes f v))"
    for f and v :: "('cb, 'c) world"
    by (auto simp: on_queued_bytes_def on_state_def steady_def intro: sync_grows_same)
  have "steady (snd (snd (send_enqueue n rq (fc, w1)))) \<and> sync_grows w1 (snd (snd (send_enqueue n rq (fc, w1))))" for n
    using m [of "fc_sent_seq (fc\<lparr>fc_sent_seq := u64_add (fc_sent_seq fc) 1\<rparr>)"] rel
    by (auto simp: send_enqueue_def Let_def split: prod.split sum.split failure.split intro: sync_grows_trans)
  then show "steady (snd (snd (send rq s))) \<and> sync_grows (snd s) (snd (snd (send rq s)))"
    using s st aq a sync_grows_trans [OF a(2)] by (auto simp: send_def Let_def split: sum.split)
qed

lemma keeps_send_request [keeps_intros]:
  fixes rq :: "('cb, 'c) worker_request"
  assumes "\<And>p. rq \<noteq> RemoveChunks p"
  shows "keeps snd (send_request rq)"
  using keeps_send [OF assms] unfolding keeps_def
  by (auto simp: send_request_def split: prod.splits) (metis prod.sel)+

lemma keeps_send_pending [keeps_intros]: "keeps snd (send_pending sync cb)"
proof -
  have "keeps snd (send_request (Write x))" for x by (rule keeps_send_request) simp
  then show ?thesis
    by (auto simp: keeps_def send_pending_def Let_def split: prod.splits)
qed

lemma keeps_wal_append [keeps_intros]: "keeps snd (wal_append W r)"
  by (auto simp: keeps_def wal_append_def split: prod.splits sum.splits)

lemma keeps_create_empty [keeps_intros]: "keeps snd (on_world (create_empty cfg cid))"
  unfolding keeps_def
proof (intro allI impI)
  fix s :: "'a \<times> ('cb, 'c) world"
  assume st: "steady (snd s)"
  obtain r w' where cr: "create_empty cfg cid (snd s) = (r, w')" by (cases "create_empty cfg cid (snd s)")
  have "steady w' \<and> sync_grows (snd s) w'"
    using cr st
    by (auto simp: create_empty_def create_file_def sync_dir_def open_create_new_def syscall_def io_bind_app new_file_def
        set_inode_def steady_def sync_grows_def inode_def split: list.splits sys_outcome.splits if_splits)
  then show "steady (snd (snd (on_world (create_empty cfg cid) s))) \<and>
      sync_grows (snd s) (snd (snd (on_world (create_empty cfg cid) s)))"
    using cr by (cases s) (simp add: on_world_def)
qed

lemma keeps_wait [keeps_intros]: "keeps snd wait_worker_idle"
  unfolding keeps_def
proof (intro allI impI)
  fix s :: "'c chunked_wal \<times> ('cb, 'c) world"
  assume st: "steady (snd s)"
  obtain r wal' w' where "wait_worker_idle (fst s, snd s) = (r, (wal', w'))"
    by (cases "wait_worker_idle (fst s, snd s)") auto
  then show "steady (snd (snd (wait_worker_idle s))) \<and> sync_grows (snd s) (snd (snd (wait_worker_idle s)))"
    using wait_worker_idle_world(2) [of "fst s" "snd s" r wal' w'] st sync_grows_run [OF st] by auto
qed

definition kept :: "('cb, 'c) world \<Rightarrow> 'a res \<times> 's \<times> ('cb, 'c) world \<Rightarrow> bool" where
  "kept w r = (steady (snd (snd r)) \<and> sync_grows w (snd (snd r)))"

lemma keeps_split:
  assumes "\<And>wal w. steady w \<Longrightarrow> kept w (g wal w)"
  shows "keeps snd (\<lambda>(wal, w). g wal w)"
  using assms by (auto simp: keeps_def kept_def)

lemma keeps_at: "keeps snd m \<Longrightarrow> steady w \<Longrightarrow> kept w (m (x, w))"
  unfolding keeps_def kept_def by (metis snd_conv)

lemma kept_same: "steady w \<Longrightarrow> kept w (r, (x, w))"
  by (simp add: kept_def)

lemma kept_if: "kept w p \<Longrightarrow> kept w q \<Longrightarrow> kept w (if b then p else q)"
  by simp

lemma keeps_try_close: "keeps snd (try_close_full_chunk W SM sm)"
  unfolding try_close_full_chunk_def Let_def
  by (intro keeps_split kept_if kept_same keeps_at keeps_intros worker_request.distinct) (assumption | simp)+

lemma wal_run_grows:
  assumes "wal_run W SM s rs s'" and "steady (snd s)"
  shows "steady (snd s') \<and> sync_grows (snd s) (snd s')"
  using assms(1)
proof (induction rule: wal_run.induct)
  case start
  then show ?case using assms(2) by simp
next
  case (append rs wal w r s')
  then show ?case using keeps_case [OF keeps_wal_append _ append(2)] sync_grows_trans by auto
next
  case (rejected rs wal w r e s')
  then show ?case using keeps_case [OF keeps_wal_append _ rejected(2)] sync_grows_trans by auto
next
  case (flush rs wal w sync cb res s')
  then show ?case using keeps_case [OF keeps_send_pending _ flush(2)] sync_grows_trans by auto
next
  case (waits rs wal w res s')
  then show ?case using keeps_case [OF keeps_wait _ waits(2)] sync_grows_trans by auto
next
  case (close_full rs wal w ck sm res s')
  then show ?case using keeps_case [OF keeps_try_close _ close_full(4)] sync_grows_trans by auto
next
  case (close_fails rs wal w ck sm e wal' w')
  then show ?case using keeps_case [OF keeps_try_close _ close_fails(4)] sync_grows_trans by auto
next
  case (not_full rs wal w sm res s')
  then show ?case using keeps_case [OF keeps_try_close _ not_full(3)] sync_grows_trans by auto
next
  case (worker_runs rs wal w)
  then show ?case using sync_grows_run [of w] sync_grows_trans by auto
next
  case (kernel_faults rs wal w sc)
  have "sync_grows w (w\<lparr>script := sc\<rparr>)" by (rule sync_grows_same) (simp_all add: fun_eq_iff)
  moreover have "steady (w\<lparr>script := sc\<rparr>) = steady w" by (simp add: steady_def)
  ultimately show ?case using kernel_faults.IH sync_grows_trans by auto
qed

section \<open>Durable records stay\<close>

lemma wal_ok_steady:
  assumes "wal_ok W wal w ds"
  shows "steady w"
  using assms by (auto simp: wal_ok_def wal_inv_def wal_stopped_def steady_def client_inv_def)

lemma wal_ok_synced:
  assumes W: "wal_types W" and ok: "wal_ok W wal w ds" and d: "d \<in> set ds"
  shows "dc_file d < next_ino w" and "prefix (synced_of w (dc_file d)) (content_of w (dc_file d))"
proof -
  have dh: "dir_holds (wal_config wal) w ds" using ok by (auto simp: wal_ok_def wal_inv_def wal_stopped_def)
  show "dc_file d < next_ino w" by (rule inv_files_below [OF dh d])
  obtain out where st: "settled (targets W ds out) w"
    using ok flow_settled by (auto simp: wal_ok_def wal_inv_def wal_stopped_def)
  have ne: "ds \<noteq> []" using d by auto
  have "prefix (synced_of w (fst t)) (content_of w (fst t))" if "t \<in> set (targets W ds out)" for t
    using st that by (auto simp: settled_def list_all_iff landed_def untouched_def clean_def)
  moreover have "dc_file d \<in> fst ` set (targets W ds out)" using fst_targets [OF ne] d by blast
  ultimately show "prefix (synced_of w (dc_file d)) (content_of w (dc_file d))" by auto
qed

lemma records_within_length: "length (log_bytes W (records_within W rs k)) \<le> k"
proof (induction rs arbitrary: k)
  case (Cons r rs)
  from Cons.IH [of "k - length (bytes_of W r)"] show ?case by (cases "length (bytes_of W r) \<le> k") simp_all
qed simp

lemma durable_grows:
  assumes "dc_id e = dc_id d" and "dc_file e = dc_file d" and "prefix (dc_records d) (dc_records e)"
    and "prefix (synced_of w (dc_file d)) (synced_of w' (dc_file d))"
  shows "set (durable_entries W w d) \<subseteq> set (durable_entries W w' e)"
proof -
  let ?k = "length (synced_of w (dc_file d))" and ?k' = "length (synced_of w' (dc_file d))"
  let ?rs = "records_within W (dc_records d) ?k"
  have "prefix ?rs (dc_records e)" using records_within_prefix assms(3) prefix_order.trans by blast
  moreover have "length (log_bytes W ?rs) \<le> ?k" by (rule records_within_length)
  ultimately have "prefix ?rs (records_within W (dc_records e) ?k')"
    using prefix_length_le [OF assms(4)] by (intro records_within_contains) auto
  then have "prefix (dc_entries W (cut_chunk W ?k d)) (dc_entries W (cut_chunk W ?k' e))"
    using dc_entries_prefix [of ?rs "cut_chunk W ?k' e" W] assms(1,2) by (simp add: cut_chunk_def dc_entries_def)
  then show ?thesis using assms(2) by (simp add: durable_entries_def set_mono_prefix)
qed

lemma durable_log_grows:
  assumes W: "wal_types W" and ok: "wal_ok W wal w ds" and sy: "sync_grows w w'" and "chunks_grow ds ds'"
  shows "durable_log W w ds \<subseteq> durable_log W w' ds'"
proof
  fix x assume "x \<in> durable_log W w ds"
  then obtain d where d: "d \<in> set ds" "x \<in> set (durable_entries W w d)" by (auto simp: durable_log_def)
  obtain e where e: "e \<in> set ds'" "dc_id e = dc_id d" "dc_file e = dc_file d" "prefix (dc_records d) (dc_records e)"
    using assms(4) d(1) by (auto simp: chunks_grow_def)
  have "prefix (synced_of w (dc_file d)) (synced_of w' (dc_file d))"
    using sy wal_ok_synced [OF W ok d(1)] by (simp add: sync_grows_def)
  then have "x \<in> set (durable_entries W w' e)" using durable_grows [OF e(2-4)] d(2) by blast
  then show "x \<in> durable_log W w' ds'" using e(1) by (auto simp: durable_log_def)
qed

text \<open>The life of a log: it is used, crashes, is opened again, and so on.\<close>

inductive wal_life :: "('a, 'c) wal_types \<Rightarrow> ('a, 'c, 'sm) state_machine \<Rightarrow> ('cb, 'c) wal_state \<Rightarrow> ('cb, 'c) wal_state \<Rightarrow> bool"
  for W :: "('a, 'c) wal_types" and SM :: "('a, 'c, 'sm) state_machine" and s :: "('cb, 'c) wal_state" where
  born: "wal_life W SM s s"
| used: "wal_life W SM s s1 \<Longrightarrow> wal_run W SM s1 rs s2 \<Longrightarrow> wal_life W SM s s2"
| crashed: "wal_life W SM s (wal, w) \<Longrightarrow> crash_image w v \<Longrightarrow>
    checkpoints_fit W SM (global_end (oc_chunk (wal_open wal))) \<Longrightarrow>
    open_locked W (wal_config wal) SM lock (sm, v) = (Inr wal', (sm', v')) \<Longrightarrow> wal_life W SM s (wal', v')"

lemma wal_life_ok:
  fixes s s' :: "('cb, 'c) wal_state"
  assumes W: "wal_types W" and "wal_life W SM s s'" and ok: "wal_ok W (fst s) (snd s) ds"
    and cfg: "validate (wal_config (fst s)) = Inr ()" "truncate_incomplete_record (wal_config (fst s))"
    and acc: "\<forall>r cid seg sm. fst (sm_apply SM r cid seg sm)"
  shows "\<exists>ds'. wal_ok W (fst s') (snd s') ds' \<and> wal_config (fst s') = wal_config (fst s) \<and>
    durable_log W (snd s) ds \<subseteq> durable_log W (snd s') ds'"
  using assms(2)
proof (induction rule: wal_life.induct)
  case born
  then show ?case using ok by blast
next
  case (used s1 rs s2)
  then obtain ds1 where ds1: "wal_ok W (fst s1) (snd s1) ds1" "wal_config (fst s1) = wal_config (fst s)"
    "durable_log W (snd s) ds \<subseteq> durable_log W (snd s1) ds1" by blast
  have run: "wal_run W SM (fst s1, snd s1) rs s2" using used(2) by simp
  obtain ds2 where ds2: "wal_ok W (fst s2) (snd s2) ds2" "wal_config (fst s2) = wal_config (fst s1)" "chunks_grow ds1 ds2"
    using wal_run_ok [OF W run ds1(1)] by (auto simp: run_holds_def)
  have "sync_grows (snd s1) (snd s2)" using wal_run_grows [OF used(2) wal_ok_steady [OF ds1(1)]] by blast
  then have "durable_log W (snd s1) ds1 \<subseteq> durable_log W (snd s2) ds2" by (rule durable_log_grows [OF W ds1(1) _ ds2(3)])
  then show ?case using ds1(2,3) ds2(1,2) by (intro exI [of _ ds2]) auto
next
  case (crashed wal w v lock sm wal' sm' v')
  then obtain ds1 where ds1: "wal_ok W wal w ds1" "wal_config wal = wal_config (fst s)"
    "durable_log W (snd s) ds \<subseteq> durable_log W w ds1" by auto
  from crash_recovers [OF W ds1(1) crashed(2) _ _ crashed(3) acc, of lock sm] cfg ds1(2)
  obtain es sm2 wal2 v2 ds2 where r: "open_locked W (wal_config wal) SM lock (sm, v) = (Inr wal2, (sm2, v2))"
    "durable_log W w ds1 \<subseteq> set es" "reopened W (wal_config wal) wal2 v2 ds2 es (sm_checkpoint SM sm2)" by auto
  have "wal2 = wal'" "v2 = v'" using r(1) crashed(4) by simp_all
  then show ?case using r(2,3) ds1(2,3) by (intro exI [of _ ds2]) (auto simp: reopened_def)
qed

section \<open>Properties\<close>

text \<open>
  C2. Once durable, always in the log. From any state of a log in use, let the log live on (\<open>wal_life\<close>): it is
  used, crashes, is opened again, is used, crashes, any number of times. Each use is a \<open>wal_run\<close>, under any
  faults of the kernel, but without a closing that fails after it created its file and without removal of
  chunks; at each crash the files keep a prefix of their bytes with at least the synchronised ones, and
  the checkpoints of the state machine fit behind the log. The settings are valid and allow truncation,
  and the state machine accepts all records. Then in every later state the log is in use again with the
  same settings, and every record that was on stable storage is a record of the log, in the same chunk
  and at the same position, and still on stable storage.
\<close>

theorem durable_for_ever:
  fixes w w' :: "('cb, 'c) world"
  assumes "wal_types W" and "wal_ok W wal w ds" and "wal_life W SM (wal, w) (wal', w')"
    and "validate (wal_config wal) = Inr ()" and "truncate_incomplete_record (wal_config wal)"
    and "\<forall>r cid seg sm. fst (sm_apply SM r cid seg sm)"
  shows "\<exists>ds'. wal_ok W wal' w' ds' \<and> wal_config wal' = wal_config wal \<and>
    durable_log W w ds \<subseteq> durable_log W w' ds'"
  using wal_life_ok [OF assms(1,3), of ds] assms(2,4-6) by simp

theorem durable_for_ever_witness:
  "\<exists>wal (w :: (nat, byte list) world) wal' v' ds'.
    open_locked test_wal demo_config demo_sm demo_lock ([], safe_disk 5) = (Inr wal, ([demo_vote, demo_vote], w)) \<and>
    wal_life test_wal demo_sm (wal, w) (wal', v') \<and> wal_ok test_wal wal' v' ds' \<and>
    (ChunkId 0, Segment 0 12, demo_vote) \<in> durable_log test_wal v' ds'"
proof -
  let ?ds = "[vote_chunk 0 0, vote_chunk 12 1]"
  obtain wal and w :: "(nat, byte list) world" where
    op: "open_locked test_wal demo_config demo_sm demo_lock ([], safe_disk 5) = (Inr wal, ([demo_vote, demo_vote], w))"
    and inv: "wal_inv test_wal wal w ?ds (log_bytes test_wal (dc_records (last ?ds)))"
    and w: "calm w" "wal_config wal = demo_config" "dir_frame w = dir_frame (safe_disk 5)" "inode w = inode (safe_disk 5)"
    by (rule open_clean_inv [OF test_wal_ok safe_disk_ok(1,3) demo_config_dir(2) demo_replay safe_disk_ok(2)
          safe_disk_entries(2) safe_disk_ok(4)])
  have cr: "crash_image w (power_loss w)"
    using w by (intro power_loss_image) (auto simp: calm_def dir_frame_def safe_disk_entries take_is_prefix safe_disk_prefix)
  have "wal_holds test_wal wal ?ds (log_bytes test_wal (dc_records (last ?ds)))" using inv by (simp only: wal_inv_def)
  from wal_holds_end [OF this] have fit: "checkpoints_fit test_wal demo_sm (global_end (oc_chunk (wal_open wal)))"
    using demo_fits by (simp add: vote_chunk_ok)
  have ok: "wal_ok test_wal wal w ?ds" using inv by (auto simp: wal_ok_def)
  have acc: "\<forall>r cid seg sm. fst (sm_apply demo_sm r cid seg sm)" by (simp add: demo_sm_def)
  have cfg: "validate (wal_config wal) = Inr ()" "truncate_incomplete_record (wal_config wal)"
    using w(2) demo_config_dir(2) demo_truncates by simp_all
  obtain sm' wal' v' where re: "open_locked test_wal (wal_config wal) demo_sm demo_lock ([], power_loss w) = (Inr wal', (sm', v'))"
    using crash_recovers [OF test_wal_ok ok cr cfg fit acc, of demo_lock "[]"] by blast
  have life: "wal_life test_wal demo_sm (wal, w) (wal', v')" by (rule wal_life.crashed [OF wal_life.born cr fit re])
  obtain ds' where "wal_ok test_wal wal' v' ds'" "durable_log test_wal w ?ds \<subseteq> durable_log test_wal v' ds'"
    using durable_for_ever [OF test_wal_ok ok life cfg acc] by blast
  moreover have "(ChunkId 0, Segment 0 12, demo_vote) \<in> durable_log test_wal w ?ds"
    using w(4) safe_disk_sel(7) [of 5]
    by (simp add: durable_log_def durable_entries_def dc_entries_def vote_chunk_def cut_chunk_def clean_def bytes_of_vote)
  ultimately show ?thesis using op life by blast
qed

end
