(* ===== verification/Close_Failure.thy ===== *)
theory Close_Failure
  imports Wal_Run
begin

text \<open>
  What a failure inside \<open>try_close_full_chunk\<close> (\<open>src/wal/chunked_wal.rs\<close>) leaves behind. The function
  changes the log in several steps and undoes none of them: when the checkpoint is rejected, the old chunk
  is in neither place, and when the new file cannot be committed, it stays in the directory.
\<close>

section \<open>A rejected checkpoint\<close>

lemma closed_get_last:
  assumes "wal_types W" and "wal_holds W wal ds out"
  shows "bt_get (wal_closed wal) (dc_id (last ds)) = None"
proof -
  have "\<forall>j \<in> fst ` set (wal_closed wal). j < dc_id (last ds)" by (rule closed_keys_below [OF assms])
  then show ?thesis by (auto simp: bt_get_def map_of_eq_None_iff)
qed

lemma validate_positive:
  "validate c = Inr () \<Longrightarrow> 0 < chunk_max_records c \<and> 0 < chunk_max_size c"
  by (auto simp: validate_def res_bind_def reject_zero_def getter_defs default_defs
      split: sum.splits if_splits option.splits)

lemma empty_chunk_not_full:
  assumes "validate (wal_config wal) = Inr ()" and "oc_chunk (wal_open wal) = oc_chunk (from_file cid f)"
    and "offset cid < 2 ^ 64"
  shows "\<not> is_open_chunk_full wal"
  using assms(1,2,3) validate_positive [OF assms(1)]
  by (simp add: is_open_chunk_full_def from_file_def records_count_def chunk_size_def end_offset_def u64_sub_def)

lemma close_rejected:
  fixes w :: "('cb, 'c) world"
  assumes W: "wal_types W" and inv: "wal_inv W wal w ds out" and calm: "calm w" and full: "is_open_chunk_full wal"
    and bad: "\<not> encodable W (Checkpoint (sm_checkpoint SM sm))"
    and room: "has_room (wal_client wal) w 2 (length (pending_data (wal_open wal)))"
  obtains e wal' w' where "try_close_full_chunk W SM sm (wal, w) = (Inl (Err e), (wal', w'))"
    "wal_closed wal' = wal_closed wal" "wal_open wal' = from_file (ChunkId (dc_end W (last ds))) (next_ino w)"
    "wal_config wal' = wal_config wal"
proof -
  let ?cfg = "wal_config wal" and ?cid = "ChunkId (dc_end W (last ds))" and ?ck = "sm_checkpoint SM sm"
  have dh: "dir_holds ?cfg w ds" and h: "wal_holds W wal ds out" and live: "wal_live W wal w ds out"
    using inv by (simp_all add: wal_inv_live) (simp add: wal_live_def)
  have ok: "dc_ok W (last ds)" using h by (auto simp: wal_holds_def list_all_iff)
  have room': "has_room (wal_client wal) w (Suc 1) (length (pending_data (wal_open wal)) + 0)"
    using room by (simp add: numeral_2_eq_2)
  show thesis
  proof (cases rule: send_live_cases [OF live room', where sync = True and cb = None])
    case (2 wal1 w1)
    then show ?thesis using calm by simp
  next
    case p1: (1 wal1 w1)
    have d1: "next_ino w1 = next_ino w" "entries w1 = entries w" "dirs w1 = dirs w" using p1(7) by (simp_all add: dir_frame_def)
    have h1: "wal_holds W wal1 ds (log_bytes W (dc_records (last ds)))" using p1(2) by (simp add: wal_live_def)
    obtain seg where seg: "last_segment (oc_chunk (wal_open wal1)) = Inr seg" "seg_end seg = dc_end W (last ds)"
      using last_segment_loaded wal_holds_open [OF h1] ok by metis
    have below: "\<forall>d \<in> set ds. dc_file d < next_ino w1" using inv_files_below [OF dh] d1 by simp
    have dir: "dir (wal_config wal1) \<in> set (dirs w1)" using dh d1 p1(6) by (simp add: dir_holds_def)
    have free: "lookup w1 (chunk_path (wal_config wal1) ?cid) = None" using inv_end_free [OF W h dh] d1 p1(6) by simp
    have sy: "ends_synced w1" and calm1: "calm w1" using p1(3,4) calm by simp_all
    have rm: "has_room (wal_client wal1) w1 (Suc 0) 0" using p1(5) by simp
    note tc = full p1(1,6) seg d1 try_close_full_chunk_def io_bind_app Let_def on_world_def from_file_def
    show ?thesis
    proof (cases rule: new_file_cases [OF W p1(2) below dir sy rm free refl [of
        "file_entry_new (dc_end W (last ds)) (next_ino w1) (Some ?ck)"]])
      case p2: (1 fc2 wm w2)
      obtain e where "wal_append W (Checkpoint ?ck) (wal1\<lparr>wal_client := fc2, wal_open := from_file ?cid (next_ino w)\<rparr>, w2) =
          (Inl (Err e), (wal1\<lparr>wal_client := fc2, wal_open := from_file ?cid (next_ino w)\<rparr>, w2))"
        using wal_append_rejected [OF bad] by metis
      then show ?thesis
        using that [of e "wal1\<lparr>wal_client := fc2, wal_open := from_file ?cid (next_ino w)\<rparr>" w2] p2(1,2)
          send_pending_keeps_closed [OF p1(1)] by (simp add: tc)
    qed (use calm1 in simp_all)
  qed
qed

section \<open>A file that was left behind\<close>

lemma flow_new_file:
  assumes "flow ts w" and "\<forall>t \<in> set ts. fst t < next_ino w"
  shows "flow ts (new_file p w)"
proof (rule flow_other_files(1) [OF assms(1)])
  show "\<forall>f \<in> fst ` set ts. inode (new_file p w) f = inode w f"
    using assms(2) by (auto simp: new_file_def inode_def set_inode_def)
qed (simp_all add: new_file_def set_inode_def)

lemma wal_live_new_file:
  assumes "wal_live W wal w ds (log_bytes W (dc_records (last ds)))" and "\<forall>d \<in> set ds. dc_file d < next_ino w"
  shows "wal_live W wal (new_file p w) ds (log_bytes W (dc_records (last ds)))"
proof -
  have "ds \<noteq> []" using assms(1) by (simp add: wal_live_def wal_holds_def)
  then have "flow (targets W ds (log_bytes W (dc_records (last ds)))) (new_file p w)"
    using assms flow_new_file [of "map (chunk_target W) ds" w p] by (auto simp: wal_live_def targets_full)
  moreover have "channel (new_file p w) = channel w" "worker (new_file p w) = worker w"
    "wstate (new_file p w) = wstate w" "tx_alive (new_file p w) = tx_alive w"
    by (simp_all add: new_file_def set_inode_def)
  ultimately show ?thesis using assms(1) by (simp add: wal_live_def client_inv_def split: option.splits)
qed

text \<open>What is known after such a failure, before the owner of the log goes on.\<close>

lemma close_left_file:
  fixes w :: "('cb, 'c) world"
  assumes W: "wal_types W" and inv: "wal_inv W wal w ds out" and full: "is_open_chunk_full wal"
    and ck: "encodable W (Checkpoint (sm_checkpoint SM sm))"
      "dc_end W (last ds) + length (bytes_of W (Checkpoint (sm_checkpoint SM sm))) < 2 ^ 64"
    and room: "has_room (wal_client wal) w 3
      (length (pending_data (wal_open wal)) + length (bytes_of W (Checkpoint (sm_checkpoint SM sm))))"
    and res: "try_close_full_chunk W SM sm (wal, w) = (Inl er, (wal1, w1))"
    and left: "entries w1 \<noteq> entries w" and alive: "worker w1 \<noteq> None"
  obtains v sc where "w1 = (new_file (chunk_path (wal_config wal) (ChunkId (dc_end W (last ds)))) v)\<lparr>script := sc\<rparr>"
    "wal_inv W wal1 v ds (log_bytes W (dc_records (last ds)))" "wal_config wal1 = wal_config wal"
    "is_open_chunk_full wal1" "next_ino v = next_ino w" "wal_holds W wal ds out"
proof -
  let ?cfg = "wal_config wal" and ?ck = "sm_checkpoint SM sm" and ?n = "next_chunk W ds (next_ino w) (sm_checkpoint SM sm)"
  have dh: "dir_holds ?cfg w ds" and h: "wal_holds W wal ds out" and live: "wal_live W wal w ds out"
    using inv by (simp_all add: wal_inv_live) (simp add: wal_live_def)
  have below: "\<forall>d \<in> set ds. dc_file d < next_ino w" using inv_files_below [OF dh] by blast
  have dir: "dir ?cfg \<in> set (dirs w)" using dh by (simp add: dir_holds_def)
  have free: "lookup w (chunk_path ?cfg (dc_id ?n)) = None" using inv_end_free [OF W h dh] by (simp add: next_chunk_def)
  have room': "has_room (wal_client wal) w (Suc 2) (length (pending_data (wal_open wal)) + length (bytes_of W (Checkpoint ?ck)))"
    using room by (simp add: numeral_3_eq_3 numeral_2_eq_2)
  have sent: "wal_inv W wal' v ds (log_bytes W (dc_records (last ds))) \<and> wal_config wal' = ?cfg \<and>
      entries v = entries w \<and> next_ino v = next_ino w"
    if s: "send_pending True None (wal, w) = (Inr (), (wal', v))" for wal' v
  proof (cases rule: send_pending_cases [OF inv room', where sync = True and cb = None])
    case (1 wal2 v2)
    then have "wal2 = wal'" "v2 = v" using s by simp_all
    moreover have "entries v2 = entries w" "next_ino v2 = next_ino w" using 1(7) by (simp_all add: dir_frame_def)
    ultimately show ?thesis using 1(2,6) by simp
  next
    case 2
    then show ?thesis using s by simp
  qed
  have still: "is_open_chunk_full wal'" if "send_pending True None (wal, w) = (Inr (), (wal', v))" for wal' v
    using full sent [OF that] send_pending_chunk [OF that] by (simp add: is_open_chunk_full_def)
  show thesis
  proof (cases rule: close_live_cases [OF W live full below dir refl ck room refl free])
    case (3 e wal' v sc)
    then show ?thesis using res left sent [OF 3(2)] by simp
  next
    case (4 e wal' v sc)
    then show ?thesis using that res sent [OF 4(2)] still [OF 4(2)] h by (simp add: next_chunk_def)
  qed (use res alive in simp_all)
qed

text \<open>The same offset again: the name is taken.\<close>

lemma close_name_taken:
  fixes w :: "('cb, 'c) world"
  assumes W: "wal_types W" and live: "wal_live W wal w ds out" and calm: "calm w" and full: "is_open_chunk_full wal"
    and room: "has_room (wal_client wal) w 1 (length (pending_data (wal_open wal)))"
    and taken: "lookup w (chunk_path (wal_config wal) (ChunkId (dc_end W (last ds)))) \<noteq> None"
  shows "\<exists>s. try_close_full_chunk W SM sm (wal, w) = (Inl (Err AlreadyExists), s)"
proof -
  have room': "has_room (wal_client wal) w (Suc 0) (length (pending_data (wal_open wal)) + 0)" using room by simp
  have ok: "dc_ok W (last ds)" using live by (auto simp: wal_live_def wal_holds_def list_all_iff)
  show ?thesis
  proof (cases rule: send_live_cases [OF live room', where sync = True and cb = None])
    case (1 wal1 w1)
    have h1: "wal_holds W wal1 ds (log_bytes W (dc_records (last ds)))" using 1(2) by (simp add: wal_live_def)
    obtain seg where seg: "last_segment (oc_chunk (wal_open wal1)) = Inr seg" "seg_end seg = dc_end W (last ds)"
      using last_segment_loaded wal_holds_open [OF h1] ok by metis
    have "entries w1 = entries w" "script w1 = []" using 1(3,7) calm by (simp_all add: dir_frame_def calm_def)
    then have "create_empty (wal_config wal1) (ChunkId (dc_end W (last ds))) w1 = (Inl (Err AlreadyExists), w1)"
      using taken 1(6) by (simp add: create_empty_def create_file_def open_create_new_def io_bind_app)
    then show ?thesis
      using full 1(1) seg by (simp add: try_close_full_chunk_def io_bind_app Let_def on_world_def)
  qed (use calm in simp)
qed

text \<open>A file between two chunks that do not leave a place for it.\<close>

lemma open_refuses_between:
  fixes w :: "('cb, 'c) world"
  assumes W: "wal_types W" and st: "list_all (stored W cfg w []) ds" and "consecutive W ds" and ne: "ds \<noteq> []"
    and "stored W cfg w rest l" and srt: "sorted_wrt (<) (map dc_id ds @ [cid, dc_id l])"
    and gap: "offset cid \<noteq> dc_end W (last ds)" and dir: "dir cfg \<in> set (dirs w)"
    and names: "mset (chunk_ids_of (dir_names (dir cfg) w)) = mset (map dc_id ds @ [cid, dc_id l])"
    and pn: "panic_on w = (\<lambda>_. False)" and "validate cfg = Inr ()"
    and replay: "apply_log SM (log_entries W ds) sm = Some sm'"
  shows "\<exists>w'. open_locked W cfg SM lock (sm, w) = (Inl (Err InvalidData), (sm', w'))"
proof -
  have "\<exists>evs'. open_loop W cfg SM tail_id (cid # [] @ [dc_id l]) closed
      (if ds = [] then None else Some (dc_end W (last ds))) ck (sm', w\<lparr>events := evs\<rparr>) =
      (Inl (Err InvalidData), (sm', w\<lparr>events := evs'\<rparr>))" for tail_id closed ck evs
    using ne gap by (intro exI [of _ evs]) (simp add: io_bind_app ensure_consecutive_chunks_def)
  note fails = this
  have "\<exists>w'. open_locked W cfg SM lock (sm, w) = (Inl (Err InvalidData), (sm', w')) \<and>
      inodes w' = inodes w \<and> entries w' = entries w"
    by (rule open_fails_after [OF W st assms(3,5) _ dir _ pn assms(11) replay fails])
      (use srt names in simp_all)
  then show ?thesis by blast
qed

text \<open>After an undisturbed run of the worker, every file has all its bytes.\<close>

lemma calm_run_written:
  fixes w :: "('cb, 'c) world"
  assumes fl: "flow ts w" and cl: "client_ok fc w" and calm: "calm w" and "t \<in> set ts"
  shows "content_of (run w) (fst t) = snd t"
proof -
  obtain wk pre c post where wk: "worker w = Some wk" "ts = pre @ c # post" "flow_at wk pre c post w"
    using fl unfolding flow_def by blast
  then have ne: "files wk \<noteq> []" and tx: "tx_alive w" using cl by (auto simp: client_inv_def)
  obtain p q d wk1 w1 where res: "run_result wk p q d wk1 w w1 (run w)"
    and alive: "worker (run w) = (if q = [] \<and> tx_alive w then Some wk1 else None)"
    by (rule run_cases [OF wk(1) ne])
  have "worker (run w) \<noteq> None" using calm_run [OF wk(1) ne calm] tx by auto
  then have q: "q = []" using alive by (auto split: if_splits)
  obtain init c1 postq where ts: "pre @ c # post = (pre @ init) @ c1 # postq" "new_files q = map fst postq"
    "list_all (landed (run w)) (pre @ init)" "q = [] \<longrightarrow> content_of (run w) (fst c1) = snd c1"
    by (rule flow_at_run [OF wk(3) res])
  then show ?thesis using q assms(4) wk(2) by (auto simp: list_all_iff landed_def)
qed

text \<open>More records do not make a full chunk less full.\<close>

lemma open_holds_size:
  assumes "open_holds W start rs out oc"
  shows "records_count (oc_chunk oc) = length rs" and "chunk_size (oc_chunk oc) = length (log_bytes W rs)"
proof -
  have c: "global_offsets (oc_chunk oc) = offsets_from start (rec_sizes W rs)" "start + length (log_bytes W rs) < 2 ^ 64"
    using assms by (simp_all add: open_holds_def)
  show "records_count (oc_chunk oc) = length rs" using c by (simp add: records_count_def rec_sizes_def)
  have "last (global_offsets (oc_chunk oc)) = start + length (log_bytes W rs)"
    using open_holds_end [OF assms] by (simp add: global_end_def)
  moreover have "hd (global_offsets (oc_chunk oc)) = start" using c(1) by (cases "rec_sizes W rs") simp_all
  ultimately show "chunk_size (oc_chunk oc) = length (log_bytes W rs)"
    using c(2) by (simp add: chunk_size_def end_offset_def offset_simps)
qed

lemma append_stays_full:
  assumes "wal_holds W wal ds out" and "wal_holds W wal' (add_record r ds) out'" and "wal_config wal' = wal_config wal"
    and "is_open_chunk_full wal"
  shows "is_open_chunk_full wal'"
proof -
  have "open_holds W (offset (dc_id (last ds))) (dc_records (last ds)) out (wal_open wal)"
    "open_holds W (offset (dc_id (last ds))) (dc_records (last ds) @ [r]) out' (wal_open wal')"
    using assms(1,2) by (simp_all add: wal_holds_def add_record_def)
  note s = open_holds_size [OF this(1)] open_holds_size [OF this(2)]
  show ?thesis using assms(3,4) by (auto simp: is_open_chunk_full_def s Let_def)
qed

text \<open>The directory after the file that was left behind and the file of the next chunk.\<close>

lemma two_files_listed:
  assumes "dir_holds cfg v ds" and "offset a < 2 ^ 64" and "offset b < 2 ^ 64"
    and "dir_frame w = dir_frame (with_file cfg b ((new_file (chunk_path cfg a) v)\<lparr>script := sc\<rparr>))"
  shows "mset (chunk_ids_of (dir_names (dir cfg) w)) = mset (map dc_id ds @ [a, b])"
    and "dir cfg \<in> set (dirs w)"
    and "d \<in> set ds \<Longrightarrow> lookup w (chunk_path cfg (dc_id d)) = Some (dc_file d)"
    and "lookup v (chunk_path cfg b) = None \<Longrightarrow> a \<noteq> b \<Longrightarrow> lookup w (chunk_path cfg b) = Some (Suc (next_ino v))"
proof -
  have e: "entries w = entries v @ [(chunk_path cfg a, next_ino v), (chunk_path cfg b, Suc (next_ino v))]"
    and d: "dirs w = dirs v"
    using assms(4) by (simp_all add: dir_frame_def with_file_def)
  have "chunk_ids_of (dir_names (dir cfg) w) = chunk_ids_of (dir_names (dir cfg) v) @ [a, b]"
    using assms(2,3) by (simp add: chunk_ids_entries e entry_ids_chunk_path)
  then show "mset (chunk_ids_of (dir_names (dir cfg) w)) = mset (map dc_id ds @ [a, b])"
    using assms(1) by (simp add: dir_holds_def)
  show "dir cfg \<in> set (dirs w)" using assms(1) d by (simp add: dir_holds_def)
  show "lookup w (chunk_path cfg (dc_id d)) = Some (dc_file d)" if "d \<in> set ds"
    using assms(1) that by (simp add: e map_add_def dir_holds_def list_all_iff)
  show "lookup w (chunk_path cfg b) = Some (Suc (next_ino v))" if "lookup v (chunk_path cfg b) = None" "a \<noteq> b"
    using that assms(2,3) by (simp add: e map_add_def chunk_path_eq_iff)
qed

text \<open>The next closing, behind one more record, succeeds.\<close>

lemma close_behind_left:
  fixes v :: "('cb, 'c) world"
  assumes W: "wal_types W" and inv: "wal_inv W wal v ds (log_bytes W (dc_records (last ds)))" and full: "is_open_chunk_full wal"
    and r: "encodable W r" and ck: "ck = sm_checkpoint SM sm" "encodable W (Checkpoint ck)"
      "dc_end W (last ds) + length (bytes_of W r) + length (bytes_of W (Checkpoint ck)) < 2 ^ 64"
    and u: "u = (new_file (chunk_path (wal_config wal) (ChunkId (dc_end W (last ds)))) v)\<lparr>script := []\<rparr>"
    and pn: "panic_on u = (\<lambda>_. False)"
    and room: "has_room (wal_client wal) u 3 (length (bytes_of W r) + length (bytes_of W (Checkpoint ck)))"
    and es: "es = add_record r ds" "n = next_chunk W es (Suc (next_ino v)) ck"
  obtains wal2 wal3 w3 where "wal_append W r (wal, u) = (Inr (), (wal2, u))"
    "try_close_full_chunk W SM sm (wal2, u) = (Inr (Some ck), (wal3, w3))"
    "wal_live W wal3 w3 (es @ [n]) (log_bytes W (dc_records n))" "calm w3"
    "dir_frame w3 = dir_frame (with_file (wal_config wal) (dc_id n) u)" "lookup v (chunk_path (wal_config wal) (dc_id n)) = None"
    "dir_holds (wal_config wal) v es" "offset (dc_id n) = dc_end W (last ds) + length (bytes_of W r)"
proof -
  let ?cfg = "wal_config wal" and ?L = "log_bytes W (dc_records (last ds))"
  have dh: "dir_holds ?cfg v ds" and h: "wal_holds W wal ds ?L" and live: "wal_live W wal v ds ?L"
    using inv by (simp_all add: wal_inv_live) (simp add: wal_live_def)
  have ne: "ds \<noteq> []" using h by (simp add: wal_holds_def)
  have belowv: "\<forall>d \<in> set ds. dc_file d < next_ino v" using inv_files_below [OF dh] by blast
  have liveu: "wal_live W wal u ds ?L"
    unfolding u wal_live_script by (rule wal_live_new_file [OF live belowv])
  have calm: "calm u" using liveu pn u by (simp add: calm_def wal_live_def)
  have endr: "dc_end W (last es) = dc_end W (last ds) + length (bytes_of W r)"
    by (simp add: es add_record_def dc_end_def)
  obtain op where ap: "wal_append W r (wal, u) = (Inr (), (wal\<lparr>wal_open := op\<rparr>, u))"
    "wal_holds W (wal\<lparr>wal_open := op\<rparr>) es ?L"
    using wal_holds_append [OF W h r] ck(3) es by auto
  let ?wal2 = "wal\<lparr>wal_open := op\<rparr>"
  have tg: "targets W es out = targets W ds out" for out by (simp add: es targets_def add_record_def)
  have live2: "wal_live W ?wal2 u es ?L" using liveu ap(2) tg by (simp add: wal_live_def)
  have full2: "is_open_chunk_full ?wal2" by (rule append_stays_full [OF h ap(2) [unfolded es] _ full]) simp
  have "?L @ pending_data op = ?L @ bytes_of W r"
    using ap(2) by (simp add: wal_holds_def open_holds_def es add_record_def)
  then have pend: "pending_data op = bytes_of W r" by simp
  have room2: "has_room (wal_client ?wal2) u 3 (length (pending_data (wal_open ?wal2)) + length (bytes_of W (Checkpoint ck)))"
    using room pend by simp
  have dhes: "dir_holds ?cfg v es"
    using dh ne by (cases ds rule: rev_cases) (simp_all add: dir_holds_def es add_record_def)
  have free: "lookup v (chunk_path ?cfg (dc_id n)) = None"
    using inv_end_free [OF W ap(2) dhes] by (simp add: es(2) next_chunk_def)
  have okes: "dc_ok W (last es)" using ap(2) by (auto simp: wal_holds_def list_all_iff)
  have pos: "0 < length (bytes_of W r)"
    using wal_types.bytes_of_decode(2) [OF W r] by linarith
  have off: "offset (dc_id n) = dc_end W (last ds) + length (bytes_of W r)" using endr by (simp add: es(2) next_chunk_def)
  have "chunk_path ?cfg (dc_id n) \<noteq> chunk_path ?cfg (ChunkId (dc_end W (last ds)))"
    using off pos ck(3) by (subst chunk_path_eq_iff) (auto)
  then have freeu: "lookup u (chunk_path (wal_config ?wal2) (dc_id n)) = None"
    using free by (simp add: u map_add_def)
  have belowu: "\<forall>d \<in> set es. dc_file d < next_ino u"
    using inv_files_below [OF dhes] u by (auto intro: less_SucI)
  have diru: "dir (wal_config ?wal2) \<in> set (dirs u)" using dh u by (simp add: dir_holds_def)
  have endck: "dc_end W (last es) + length (bytes_of W (Checkpoint ck)) < 2 ^ 64" using ck(3) endr by simp
  have n: "n = next_chunk W es (next_ino u) ck" using es(2) u by simp
  show thesis
  proof (cases rule: close_live_cases [OF W live2 full2 belowu diru ck(1,2) endck room2 n freeu])
    case (1 wal' w')
    then show ?thesis using that [OF ap(1) 1(1,2)] calm free dhes off by simp
  qed (use calm in simp_all)
qed

text \<open>What the worker then writes cannot be opened.\<close>

lemma broken_log_refused:
  fixes w :: "('cb, 'c) world"
  assumes W: "wal_types W" and live: "wal_live W wal w (es @ [n]) (log_bytes W (dc_records n))" and calm: "calm w"
    and df: "dir_frame w = dir_frame (with_file cfg (dc_id n)
      ((new_file (chunk_path cfg (ChunkId (dc_end W (last ds)))) v)\<lparr>script := []\<rparr>))"
    and free: "lookup v (chunk_path cfg (dc_id n)) = None" and dh: "dir_holds cfg v es"
    and off: "offset (dc_id n) = dc_end W (last ds) + length (bytes_of W r)" and "validate cfg = Inr ()"
    and replay: "apply_log SM (log_entries W es) sm = Some sm'"
    and es: "es = add_record r ds" and n: "dc_file n = Suc (next_ino v)" and r: "encodable W r" and ne: "ds \<noteq> []"
    and ok0: "dc_ok W (last ds)"
  shows "\<exists>w'. open_locked W cfg SM lock (sm, run w) = (Inl (Err InvalidData), (sm', w'))"
proof -
  let ?a = "ChunkId (dc_end W (last ds))" and ?w = "run w"
  have h: "wal_holds W wal (es @ [n]) (log_bytes W (dc_records n))" and cl: "client_ok (wal_client wal) w"
    and fl: "flow (map (chunk_target W) (es @ [n])) w" and pl: "list_all plain (channel w)"
    using live targets_full [of "es @ [n]" W] by (simp_all add: wal_live_def)
  have cons: "consecutive W (es @ [n])" and ok: "list_all (dc_ok W) (es @ [n])" using h by (simp_all add: wal_holds_def)
  have files: "files wk \<noteq> []" if "worker w = Some wk" for wk using client_files [OF cl that] .
  have calm': "calm ?w" and fr: "dir_frame ?w = dir_frame w"
    using calm_after_run [OF calm] run_dir [of w] files pl by blast+
  have len: "0 < length (bytes_of W r)" using wal_types.bytes_of_decode(2) [OF W r] by linarith
  have lt: "?a < dc_id n" using off len by (cases "dc_id n") (simp add: less_chunk_id_def)
  have offs: "offset ?a < 2 ^ 64" "offset (dc_id n) < 2 ^ 64" using ok0 ok off by (auto simp: dc_ok_def dc_end_def)
  note d = two_files_listed [OF dh offs fr [unfolded df]]
  have content: "content_of ?w (dc_file d) = log_bytes W (dc_records d)" if "d \<in> set (es @ [n])" for d
    using calm_run_written [OF fl cl calm, of "chunk_target W d"] that by auto
  have st: "stored W cfg ?w [] d" if "d \<in> set (es @ [n])" for d
  proof -
    have "lookup ?w (chunk_path cfg (dc_id d)) = Some (dc_file d)"
      using that d(3) d(4) [OF free] n lt by auto
    moreover have "dc_ok W d" using ok that by (auto simp: list_all_iff)
    ultimately show ?thesis
      using calm' content [OF that] by (simp add: stored_def chunk_on_disk_def calm_def dc_ok_def dc_end_def)
  qed
  have ende: "dc_end W (last es) = dc_end W (last ds) + length (bytes_of W r)" "es \<noteq> []"
    by (simp_all add: es add_record_def dc_end_def)
  have conses: "consecutive W es" by (rule consecutive_prefix [OF cons])
  have "sorted_wrt (<) (map dc_id (es @ [n]))" by (rule consecutive_sorted [OF W cons ok])
  moreover have "dc_id (last es) < ?a"
    using dc_end_greater [OF W ok0] by (simp add: es add_record_def less_chunk_id_def)
  ultimately have srt: "sorted_wrt (<) (map dc_id es @ [?a, dc_id n])"
    using lt ende(2) by (cases es rule: rev_cases) (auto simp: sorted_wrt_append)
  have "list_all (stored W cfg ?w []) es" "stored W cfg ?w [] n" using st by (simp_all add: list_all_iff)
  moreover have "offset ?a \<noteq> dc_end W (last es)" using ende len by simp
  moreover have "panic_on ?w = (\<lambda>_. False)" using calm' by (simp add: calm_def)
  ultimately show ?thesis
    using open_refuses_between [OF W _ conses ende(2) _ srt _ d(2,1) _ assms(8) replay] by blast
qed

text \<open>An example: a log whose chunks take one record, opened on two chunks of one record each.\<close>

definition one_record_config :: config where
  "one_record_config = demo_config\<lparr>cfg_chunk_max_records := Some 1\<rparr>"

lemma one_record_config:
  "dir one_record_config = dir demo_config" "validate one_record_config = Inr ()" "chunk_max_records one_record_config = 1"
  "chunk_path one_record_config = chunk_path demo_config"
  by (simp_all add: one_record_config_def demo_config_def config_new_def validate_def reject_zero_def res_bind_def
      getter_defs default_defs MAX_READ_BUFFER_SIZE_def chunk_path_def fun_eq_iff)

abbreviation two_chunks :: "(byte list, byte list) disk_chunk list" where
  "two_chunks \<equiv> [vote_chunk 0 0, vote_chunk 12 1]"

definition full_log :: "byte list chunked_wal \<Rightarrow> (nat, byte list) world \<Rightarrow> bool" where
  "full_log wal w =
     (wal_inv test_wal wal w two_chunks (bytes_of test_wal demo_vote) \<and> calm w \<and> is_open_chunk_full wal \<and>
      wal_config wal = one_record_config \<and> wal_client wal = flush_client_new \<and> channel w = [] \<and> used_bytes w = 0 \<and>
      pending_data (wal_open wal) = [] \<and> worker w \<noteq> None)"

lemma full_log_exists: "\<exists>wal w. full_log wal w"
proof -
  have im: "log_image test_wal one_record_config (safe_disk 12) two_chunks [] []"
    using safe_disk_ok(1) [of 12]
    by (simp add: log_image_def dir_image_def stored_def chunk_on_disk_def one_record_config(1,4) demo_config_dir(1))
  obtain wal and w :: "(nat, byte list) world" where
    inv: "wal_inv test_wal wal w two_chunks (log_bytes test_wal (dc_records (last two_chunks)))"
    and w: "calm w" "wal_config wal = one_record_config" "wal_client wal = flush_client_new" "channel w = []" "used_bytes w = 0"
    by (rule open_clean_inv [OF test_wal_ok im safe_disk_ok(3) one_record_config(2) demo_replay safe_disk_ok(2)
          safe_disk_entries(2) safe_disk_ok(4)])
  have L: "log_bytes test_wal (dc_records (last two_chunks)) = bytes_of test_wal demo_vote"
    by (simp add: vote_chunk_def)
  have inv': "wal_inv test_wal wal w two_chunks (bytes_of test_wal demo_vote)" using inv L by simp
  then have h: "open_holds test_wal 12 [demo_vote] (bytes_of test_wal demo_vote) (wal_open wal)"
    by (simp add: wal_inv_def wal_holds_def vote_chunk_def)
  then have "pending_data (wal_open wal) = []" by (simp add: open_holds_def)
  moreover have "is_open_chunk_full wal"
    using open_holds_size(1) [OF h] w(2) by (simp add: is_open_chunk_full_def one_record_config Let_def)
  moreover have "worker w \<noteq> None" using inv' by (auto simp: wal_inv_def flow_def)
  ultimately show ?thesis using inv' w unfolding full_log_def by blast
qed

text \<open>Sending to an idle worker needs no system call.\<close>

lemma send_pending_idle:
  fixes w :: "('cb, 'c) world"
  assumes "wal_client wal = flush_client_new" and "channel w = []" and "used_bytes w = 0" and "worker w \<noteq> None"
    and "pending_data (wal_open wal) = []"
  obtains wal' w' where "send_pending sync cb (wal, w) = (Inr (), (wal', w'))" "script w' = script w" "panic_on w' = panic_on w"
    "dir_frame w' = dir_frame w" "inodes w' = inodes w" "worker w' = worker w" "length (channel w') = 1" "used_bytes w' = 0"
    "fc_sent_seq (wal_client wal') = 1" "oc_chunk (wal_open wal') = oc_chunk (wal_open wal)" "wal_config wal' = wal_config wal"
proof -
  have clk: "\<exists>t w'. instant_now w = (Inr t, w') \<and> script w' = script w \<and> panic_on w' = panic_on w \<and> dir_frame w' = dir_frame w \<and>
      inodes w' = inodes w \<and> worker w' = worker w \<and> channel w' = channel w \<and> wstate w' = wstate w" for w :: "('cb, 'c) world"
    by (auto simp: instant_now_def dir_frame_def split: list.splits)
  let ?q = "(ws_queued_bytes (wstate w))\<lparr>qb_used := u64_add 0 0\<rparr>"
  let ?w = "w\<lparr>wstate := (wstate w)\<lparr>ws_queued_bytes := ?q\<rparr>\<rparr>"
  have acq: "acquire_wait 0 w = (Inr (), ?w)" using assms(3) by (simp add: acquire_wait_def acquire_def)
  obtain t w1 where "instant_now ?w = (Inr t, w1)" "script w1 = script w" "panic_on w1 = panic_on w" "dir_frame w1 = dir_frame w"
      "inodes w1 = inodes w" "worker w1 = worker w" "channel w1 = channel w" "wstate w1 = wstate ?w"
    using clk [of ?w] by (auto simp: dir_frame_def)
  then show thesis
    using that acq assms
    by (simp add: send_pending_send send_def send_enqueue_def channel_send_def io_bind_app flush_client_new_def Let_def
        CHANNEL_CAPACITY_def u64_add_def dir_frame_def)
qed

section \<open>Properties\<close>

text \<open>
  C28. A chunk can get lost for its readers. When the checkpoint of the state machine cannot be encoded,
  closing a full chunk fails although every system call succeeds, and the log is left with a new empty
  open chunk behind the full one, which is in neither place: reading any record of it fails with
  \<open>NotFound\<close>, from the log and from a reader of its closed chunks. Asking for the last segment panics. Closing again has no
  effect, with whatever checkpoint: the new chunk is not full.
\<close>

theorem failed_close_loses_chunk:
  fixes w :: "('cb, 'c) world"
  assumes "wal_types W" and "wal_inv W wal w ds out" and "calm w" and "is_open_chunk_full wal"
    and "\<not> encodable W (Checkpoint (sm_checkpoint SM sm))" and "validate (wal_config wal) = Inr ()"
    and "has_room (wal_client wal) w 2 (length (pending_data (wal_open wal)))"
  shows "\<exists>e wal' w'. try_close_full_chunk W SM sm (wal, w) = (Inl (Err e), (wal', w')) \<and>
    open_chunk_id wal' = ChunkId (dc_end W (last ds)) \<and>
    (\<forall>seg. load_record W wal' (dc_id (last ds)) seg w' = (Inl (Err NotFound), w')) \<and>
    (\<forall>seg. closed_read_record W (closed_chunk_reader wal') (dc_id (last ds)) seg w' = (Inl (Err NotFound), w')) \<and>
    wal_last_segment wal' = Inl Panic \<and>
    (\<forall>sm2 w2. try_close_full_chunk W SM sm2 (wal', w2 :: ('cb, 'c) world) = (Inr None, (wal', w2)))"
proof -
  obtain e wal' w' where c: "try_close_full_chunk W SM sm (wal, w) = (Inl (Err e), (wal', w'))"
    "wal_closed wal' = wal_closed wal" "wal_open wal' = from_file (ChunkId (dc_end W (last ds))) (next_ino w)"
    "wal_config wal' = wal_config wal"
    by (rule close_rejected [OF assms(1-5,7)])
  have h: "wal_holds W wal ds out" using assms(2) by (simp add: wal_inv_def)
  then have "dc_ok W (last ds)" by (auto simp: wal_holds_def list_all_iff)
  then have "\<not> is_open_chunk_full wal'"
    using c(3,4) assms(6) by (intro empty_chunk_not_full) (auto simp: dc_ok_def)
  then show ?thesis
    using c closed_get_last [OF assms(1) h]
    by (intro exI [of _ e] exI [of _ wal'] exI [of _ w'])
       (simp add: load_record_def closed_read_record_def closed_chunk_reader_def io_fail_def wal_last_segment_def
         last_segment_def from_file_def open_chunk_id_def get_chunk_id_def try_close_full_chunk_def)
qed

text \<open>A state that is too long for its encoding.\<close>

definition long_state :: "byte list" where
  "long_state = replicate (2 ^ 32) 0"

lemma long_state_rejected: "\<not> encodable test_wal (Checkpoint long_state)"
proof -
  have "length long_state = 2 ^ 32" by (simp only: long_state_def length_replicate)
  then show ?thesis by (auto simp: encodable_def test_wal_def test_checkpoint_def str_encode_def)
qed

theorem failed_close_loses_chunk_witness:
  "\<exists>e wal wal' (w :: (nat, byte list) world) w'. full_log wal w \<and>
    try_close_full_chunk test_wal (demo_sm\<lparr>sm_checkpoint := (\<lambda>_. long_state)\<rparr>) [] (wal, w) = (Inl (Err e), (wal', w')) \<and>
    load_record test_wal wal' (ChunkId 12) (Segment 12 12) w' = (Inl (Err NotFound), w')"
proof -
  obtain wal w where f: "full_log wal w" using full_log_exists by blast
  note f' = f [unfolded full_log_def]
  have "\<not> encodable test_wal (Checkpoint (sm_checkpoint (demo_sm\<lparr>sm_checkpoint := (\<lambda>_. long_state)\<rparr>) []))"
    using long_state_rejected by simp
  moreover have "validate (wal_config wal) = Inr ()" using f' one_record_config by simp
  moreover have "has_room (wal_client wal) w 2 (length (pending_data (wal_open wal)))"
    using f' by (simp add: has_room_def CHANNEL_CAPACITY_def flush_client_new_def)
  moreover have "dc_id (last two_chunks) = ChunkId 12" by (simp add: vote_chunk_def)
  ultimately show ?thesis
    using failed_close_loses_chunk [OF test_wal_ok, of wal w two_chunks "bytes_of test_wal demo_vote"] f f' by metis
qed

text \<open>
  C27. A failure to commit the directory while a chunk is closed makes the log unusable later. Suppose closing
  a full chunk failed under some faults, the file of the new chunk is there all the same, and the worker
  runs. Then, although every later system call succeeds: closing again at once fails with
  \<open>AlreadyExists\<close>. And if one more record is appended first, closing succeeds, the worker writes all
  files, and the resulting directory is refused by \<open>open\<close> with \<open>InvalidData\<close>, because the file that was left
  behind lies between two chunks.
\<close>

theorem failed_commit_breaks_log:
  fixes w :: "('cb, 'c) world"
  assumes "wal_types W" and "wal_inv W wal w ds out" and "is_open_chunk_full wal" and "validate (wal_config wal) = Inr ()"
    and "encodable W (Checkpoint (sm_checkpoint SM sm))"
    and "dc_end W (last ds) + length (bytes_of W (Checkpoint (sm_checkpoint SM sm))) < 2 ^ 64"
    and "has_room (wal_client wal) w 3
      (length (pending_data (wal_open wal)) + length (bytes_of W (Checkpoint (sm_checkpoint SM sm))))"
    and "try_close_full_chunk W SM sm (wal, w) = (Inl er, (wal1, w1))" and "entries w1 \<noteq> entries w" and "worker w1 \<noteq> None"
    and u: "u = w1\<lparr>script := []\<rparr>" and "panic_on u = (\<lambda>_. False)"
    and r: "encodable W r" and ck: "ck = sm_checkpoint SM sm2" "encodable W (Checkpoint ck)"
    and fits: "dc_end W (last ds) + length (bytes_of W r) + length (bytes_of W (Checkpoint ck)) < 2 ^ 64"
    and room: "has_room (wal_client wal1) u 3 (length (bytes_of W r) + length (bytes_of W (Checkpoint ck)))"
    and replay: "apply_log SM (log_entries W (add_record r ds)) sm0 = Some sm0'"
  shows "(\<exists>s. try_close_full_chunk W SM sm2 (wal1, u) = (Inl (Err AlreadyExists), s)) \<and>
    (\<exists>wal2 wal3 w3 w4. wal_append W r (wal1, u) = (Inr (), (wal2, u)) \<and>
       try_close_full_chunk W SM sm2 (wal2, u) = (Inr (Some ck), (wal3, w3)) \<and>
       open_locked W (wal_config wal) SM lock (sm0, run w3) = (Inl (Err InvalidData), (sm0', w4)))"
proof -
  let ?cfg = "wal_config wal" and ?a = "ChunkId (dc_end W (last ds))" and ?es = "add_record r ds"
  obtain v sc where v: "w1 = (new_file (chunk_path ?cfg ?a) v)\<lparr>script := sc\<rparr>"
    "wal_inv W wal1 v ds (log_bytes W (dc_records (last ds)))" "wal_config wal1 = ?cfg" "is_open_chunk_full wal1"
    by (rule close_left_file [OF assms(1-3,5-10)])
  have uv: "u = (new_file (chunk_path (wal_config wal1) ?a) v)\<lparr>script := []\<rparr>" using v(1,3) u by simp
  have dh: "dir_holds ?cfg v ds" and live: "wal_live W wal1 v ds (log_bytes W (dc_records (last ds)))"
    using v(2,3) by (simp_all add: wal_inv_live)
  have below: "\<forall>d \<in> set ds. dc_file d < next_ino v" using inv_files_below [OF dh] by blast
  have liveu: "wal_live W wal1 u ds (log_bytes W (dc_records (last ds)))"
    unfolding uv wal_live_script by (rule wal_live_new_file [OF live below])
  have calmu: "calm u" using liveu assms(12) u by (simp add: calm_def wal_live_def)
  have "log_bytes W (dc_records (last ds)) @ pending_data (wal_open wal1) = log_bytes W (dc_records (last ds)) @ []"
    using live by (simp add: wal_live_def wal_holds_def open_holds_def)
  then have "has_room (wal_client wal1) u 1 (length (pending_data (wal_open wal1)))"
    using room by (simp add: has_room_def)
  moreover have "lookup u (chunk_path (wal_config wal1) ?a) \<noteq> None"
    by (auto simp: uv map_add_def split: option.splits)
  ultimately have taken: "\<exists>s. try_close_full_chunk W SM sm2 (wal1, u) = (Inl (Err AlreadyExists), s)"
    by (rule close_name_taken [OF assms(1) liveu calmu v(4)])
  let ?n = "next_chunk W ?es (Suc (next_ino v)) ck"
  obtain wal2 wal3 w3 where c: "wal_append W r (wal1, u) = (Inr (), (wal2, u))"
    "try_close_full_chunk W SM sm2 (wal2, u) = (Inr (Some ck), (wal3, w3))"
    "wal_live W wal3 w3 (?es @ [?n]) (log_bytes W (dc_records ?n))" "calm w3"
    "dir_frame w3 = dir_frame (with_file (wal_config wal1) (dc_id ?n) u)"
    "lookup v (chunk_path (wal_config wal1) (dc_id ?n)) = None" "dir_holds (wal_config wal1) v ?es"
    "offset (dc_id ?n) = dc_end W (last ds) + length (bytes_of W r)"
    by (rule close_behind_left [OF assms(1) v(2,4) r ck fits uv assms(12) room refl refl])
  have ne: "ds \<noteq> []" "dc_ok W (last ds)" using live by (auto simp: wal_live_def wal_holds_def list_all_iff)
  have "\<exists>w4. open_locked W ?cfg SM lock (sm0, run w3) = (Inl (Err InvalidData), (sm0', w4))"
    by (rule broken_log_refused [OF assms(1) c(3,4) _ c(6-8) [unfolded v(3)] assms(4) replay])
      (use c(5) uv v(3) r ne in \<open>simp_all add: next_chunk_def\<close>)
  then show ?thesis using taken c(1,2) by blast
qed

text \<open>The third of the next system calls, the synchronisation of the directory, fails once.\<close>

lemma commit_fails:
  assumes "full_log wal w"
  obtains wal1 w1 where "try_close_full_chunk test_wal demo_sm sm (wal, w\<lparr>script := [Done, Done, Fault Other]\<rparr>) = (Inl (Err Other), (wal1, w1))"
    "entries w1 \<noteq> entries w" "worker w1 \<noteq> None" "panic_on w1 = (\<lambda>_. False)"
    "length (channel w1) = 1" "used_bytes w1 = 0" "fc_sent_seq (wal_client wal1) = 1"
proof -
  let ?w = "w\<lparr>script := [Done, Done, Fault Other]\<rparr>"
  note f = assms [unfolded full_log_def]
  have pd: "pending_data (wal_open wal) = []" and fc: "wal_client wal = flush_client_new" using f by blast+
  obtain wal1 w1 where s: "send_pending True None (wal, ?w) = (Inr (), (wal1, w1))" "script w1 = script ?w" "panic_on w1 = panic_on ?w"
    "dir_frame w1 = dir_frame ?w" "inodes w1 = inodes ?w" "worker w1 = worker ?w" "length (channel w1) = 1" "used_bytes w1 = 0"
    "fc_sent_seq (wal_client wal1) = 1" "oc_chunk (wal_open wal1) = oc_chunk (wal_open wal)" "wal_config wal1 = wal_config wal"
    by (rule send_pending_idle [OF fc _ _ _ pd, of ?w]) (use f in simp_all)
  have i: "wal_holds test_wal wal two_chunks (bytes_of test_wal demo_vote)" "dir_holds one_record_config w two_chunks"
    using f by (auto simp: wal_inv_def)
  have "dc_ok test_wal (last two_chunks)" using vote_chunk_ok by simp
  then obtain seg where seg: "last_segment (oc_chunk (wal_open wal)) = Inr seg" "seg_end seg = dc_end test_wal (last two_chunks)"
    using last_segment_loaded wal_holds_open [OF i(1)] by metis
  have e: "dc_end test_wal (last two_chunks) = 24" using vote_chunk_ok(2) [of 12 1] by simp
  have "lookup w (chunk_path one_record_config (ChunkId 24)) = None"
    using inv_end_free [OF test_wal_ok i] vote_chunk_ok(2) [of 12 1] by simp
  then have free: "lookup w1 (chunk_path one_record_config (ChunkId 24)) = None" using s(4) by (simp add: dir_frame_def)
  have dir: "dir one_record_config \<in> set (dirs w1)" using i(2) s(4) by (simp add: dir_frame_def dir_holds_def)
  then have par: "parent_exists w1 (chunk_path one_record_config (ChunkId 24))"
    by (auto simp: parent_exists_def list_ex_iff chunk_path_def intro!: bexI [of _ "dir one_record_config"])
  let ?v = "(new_file (chunk_path one_record_config (ChunkId 24)) w1)\<lparr>script := []\<rparr>"
  have "create_empty one_record_config (ChunkId 24) w1 = (Inl (Err Other), ?v)"
    using s(2) free par dir
    by (cases w1) (simp add: create_empty_def create_file_def sync_dir_def open_create_new_def syscall_def io_bind_app new_file_def
        set_inode_def parent_exists_def fs.defs world.defs)
  then have "try_close_full_chunk test_wal demo_sm sm (wal, ?w) = (Inl (Err Other), (wal1, ?v))"
    using f s(1,10,11) seg e by (simp add: try_close_full_chunk_def io_bind_app on_world_def Let_def)
  moreover have "entries ?v \<noteq> entries w" using s(4) by (simp add: dir_frame_def)
  ultimately show thesis
    using that s f by (simp add: new_file_def set_inode_def calm_def)
qed

theorem failed_commit_breaks_log_witness:
  "\<exists>wal wal1 wal2 wal3 (w :: (nat, byte list) world) w1 w3 w4. full_log wal w \<and>
    try_close_full_chunk test_wal demo_sm [] (wal, w\<lparr>script := [Done, Done, Fault Other]\<rparr>) = (Inl (Err Other), (wal1, w1)) \<and>
    try_close_full_chunk test_wal demo_sm [] (wal2, w1\<lparr>script := []\<rparr>) = (Inr (Some (sm_checkpoint demo_sm [])), (wal3, w3)) \<and>
    open_locked test_wal one_record_config demo_sm demo_lock ([], run w3) =
      (Inl (Err InvalidData), ([demo_vote, demo_vote, demo_vote], w4))"
proof -
  obtain wal and w :: "(nat, byte list) world" where f: "full_log wal w" using full_log_exists by blast
  note f' = f [unfolded full_log_def]
  let ?w = "w\<lparr>script := [Done, Done, Fault Other]\<rparr>"
  obtain wal1 w1 where c: "try_close_full_chunk test_wal demo_sm [] (wal, ?w) = (Inl (Err Other), (wal1, w1))"
    "entries w1 \<noteq> entries w" "worker w1 \<noteq> None" "panic_on w1 = (\<lambda>_. False)"
    "length (channel w1) = 1" "used_bytes w1 = 0" "fc_sent_seq (wal_client wal1) = 1"
    by (rule commit_fails [OF f])
  have inv: "wal_inv test_wal wal ?w two_chunks (bytes_of test_wal demo_vote)" using f' by (simp add: wal_inv_script)
  have ck: "encodable test_wal (Checkpoint (sm_checkpoint demo_sm st))"
    "length (bytes_of test_wal (Checkpoint (sm_checkpoint demo_sm st))) = 21" for st
    by (simp_all add: demo_sm_def encodable_def bytes_of_def test_vector_checkpoint del: wal_encode.simps)
  have val: "validate (wal_config wal) = Inr ()" "wal_config wal = one_record_config" using f' one_record_config by simp_all
  have e: "dc_end test_wal (last two_chunks) = 24" using vote_chunk_ok(2) [of 12 1] by simp
  have room1: "has_room (wal_client wal) ?w 3 (length (pending_data (wal_open wal)) + length (bytes_of test_wal (Checkpoint (sm_checkpoint demo_sm []))))"
    using f' ck by (simp add: has_room_def CHANNEL_CAPACITY_def flush_client_new_def)
  have room2: "has_room (wal_client wal1) (w1\<lparr>script := []\<rparr>) 3
      (length (bytes_of test_wal demo_vote) + length (bytes_of test_wal (Checkpoint (sm_checkpoint demo_sm []))))"
    using c(5-7) ck by (simp add: has_room_def CHANNEL_CAPACITY_def bytes_of_vote)
  have rep: "apply_log demo_sm (log_entries test_wal (add_record demo_vote two_chunks)) [] = Some [demo_vote, demo_vote, demo_vote]"
    by (simp add: add_record_def dc_entries_def vote_chunk_def demo_sm_def)
  have full: "is_open_chunk_full wal" using f' by blast
  have "\<exists>wal2 wal3 w3 w4. wal_append test_wal demo_vote (wal1, w1\<lparr>script := []\<rparr>) = (Inr (), (wal2, w1\<lparr>script := []\<rparr>)) \<and>
      try_close_full_chunk test_wal demo_sm [] (wal2, w1\<lparr>script := []\<rparr>) = (Inr (Some (sm_checkpoint demo_sm [])), (wal3, w3)) \<and>
      open_locked test_wal (wal_config wal) demo_sm demo_lock ([], run w3) =
        (Inl (Err InvalidData), ([demo_vote, demo_vote, demo_vote], w4))"
    using failed_commit_breaks_log [OF test_wal_ok inv full val(1) ck(1) _ room1 c(1) _ c(3) refl _ encodable_vote refl ck(1) _ room2 rep]
      e c(2,4) ck(2) by (simp add: bytes_of_vote)
  then show ?thesis unfolding val(2) using f c(1) by blast
qed

end
