(* ===== verification/Spec2Isabelle.thy ===== *)
theory Spec2Isabelle
  imports Purge Wal_Api Shutdown Lifetime Close_Failure
begin

text \<open>
  A verification of \<open>chunked-wal\<close>, a write-ahead log whose records are kept in a sequence of chunk files
  and written by a background thread.

  The program. \<open>ChunkedWal\<close> (\<open>src/wal/chunked_wal.rs\<close>) owns the log: one open chunk, to which records are
  appended in memory, and an ordered map of closed chunks. A chunk (\<open>src/chunk/\<close>) is a file named after
  the global offset at which it starts; its records follow each other without gaps, and the next chunk
  starts where it ends, with a checkpoint of the state machine as first record. The owner hands the
  pending bytes of the open chunk to the flush worker (\<open>src/wal/flush_worker.rs\<close>) as requests with
  ascending sequence numbers through a bounded channel, with a budget of bytes
  (\<open>src/wal/queued_bytes.rs\<close>) and a client that counts and waits (\<open>src/wal/flush_client.rs\<close>). The worker
  collects writes into batches, writes each batch with vectored writes, synchronises the files when a
  request asks for it, answers callbacks and reports progress. Opening a directory
  (\<open>src/file_lock.rs\<close>, \<open>ChunkedWal::open\<close>) lists the chunk files, discards successors that never got a
  first record, loads every chunk, cuts off a torn end of the last one and replays all records into the
  state machine.

  Foundations.
  \<^item> \<open>Prelude\<close>: results with errors, panics and waiting for ever as values (\<open>Err\<close>, \<open>Panic\<close>, \<open>Hang\<close>), the
    state-and-failure combinators \<open>io_bind\<close>, \<open>io_lift\<close>, 64-bit offsets with their wrap-around.
  \<^item> \<open>File_System\<close>: the part of \<open>std::fs\<close> the code uses. Files keep their bytes and the bytes on stable
    storage, the directory its current and committed entries; \<open>script\<close> lists the kernel's answers to the
    next calls (success, short write, error), so that statements over any script cover every I/O fault.
  \<^item> \<open>Ordered_Map\<close>: \<open>BTreeMap\<close> as an ordered association list, with its interface as a locale.

  The data of the log.
  \<^item> \<open>Num_Format\<close> (\<open>src/num.rs\<close>) and \<open>Config\<close> (\<open>src/config.rs\<close>, \<open>src/errors.rs\<close>, \<open>src/chunk/chunk_id.rs\<close>):
    settings, validation, chunk identifiers, file names and their parser.
  \<^item> \<open>Wal_Record\<close> (\<open>src/wal/wal_record.rs\<close>, \<open>src/api/wal_types.rs\<close>): the record codec. The user's codecs and
    the checksum are parameters; the locales \<open>codec\<close>, \<open>action_codec\<close>, \<open>checksum\<close> state what the code
    relies on, \<open>wal_types\<close> puts them together, and the sublocale \<open>record_codec\<close> is what it provides.
    \<open>Test_Wal\<close> gives the type set that the repository's tests use, on which the laws hold.
  \<^item> \<open>Record_Iterator\<close> (\<open>src/offset_reader.rs\<close>, \<open>src/chunk/record_iterator.rs\<close>): decoding a file.
  \<^item> \<open>Chunk\<close>, \<open>Chunk_Load\<close> (\<open>src/chunk/mod.rs\<close>): the offset index (interface \<open>record_index\<close>), loading with
    truncation, the scan of trailing zeros, positional reads, and what loading returns for intact, cut
    and damaged files.
  \<^item> \<open>Open_Chunk\<close> (\<open>src/chunk/open_chunk.rs\<close>, \<open>src/chunk/closed_chunk.rs\<close>, \<open>src/stat.rs\<close>,
    \<open>src/wal/closed_chunk_reader.rs\<close>): the pending buffer, creating chunk files, closed chunks.

  The flush worker.
  \<^item> \<open>Flush_Request\<close> (requests, batches, file entries), \<open>Flush_Metrics\<close> (\<open>src/wal/batch_metrics.rs\<close>,
    \<open>src/wal/atomic_flush_metrics.rs\<close>), \<open>Flush_State\<close> (byte budget with the interface \<open>byte_budget\<close>,
    progress and failure), \<open>Flush_Worker\<close> (writing, synchronising, one turn of the loop).
  \<^item> \<open>Flush_Loop\<close>, \<open>Flush_Thread\<close>: what a batch, a turn and a whole run do to files, callbacks, progress and
    budget, under any script. \<open>run\<close> lets the worker process everything that is in the channel.
  \<^item> \<open>Flush_Client\<close> (\<open>src/wal/flush_client.rs\<close>): sending and waiting; \<open>client_inv\<close> relates the client's
    counters, the channel, the budget and the worker.
  \<^item> \<open>Flush_Calm\<close> (runs without faults succeed) and \<open>Flush_Dir\<close> (runs leave the directory alone).

  The log.
  \<^item> \<open>File_Lock\<close> (\<open>src/file_lock.rs\<close>), \<open>Chunked_Wal\<close> (\<open>src/wal/chunked_wal.rs\<close>): all operations of the log.
  \<^item> \<open>Recovery\<close>, \<open>Recovery_Open\<close>, \<open>Open_Fresh\<close>: opening. \<open>log_image\<close> says that a directory holds
    consecutive chunks with given records, perhaps with a torn end and with successors that have no
    record; \<open>log_entries\<close> lists its records with their places and \<open>apply_log\<close> is their replay. Opening is
    shown to be exactly this replay, to refuse gaps, and to panic at an empty chunk file where a later
    one follows. A lock that was passed to a failing opening is dropped (\<open>holding_lock\<close>).
  \<^item> \<open>Write_Flow\<close>: the files of a log as targets that the queued requests complete one after the other
    (\<open>flow\<close>), and what is known when the worker has failed (\<open>settled\<close>).
  \<^item> \<open>Wal_Inv\<close>, \<open>Open_Inv\<close>, \<open>Wal_Run\<close>, \<open>Wal_Api\<close>: the invariant \<open>wal_inv\<close> of a log in use relates the
    memory of the owner, the channel, the files and the directory to the abstract log, a list of chunks
    with their records; \<open>wal_stopped\<close> is what remains of it when the worker has failed, \<open>wal_ok\<close> is either
    of them. Opening establishes it, each operation refines its effect on that list; \<open>wal_run\<close> is the
    transition system of a log in use: appends, flushes, waits, closings and worker runs in any order,
    while the kernel may fail any system call at any time. Not part of it are sends into a full channel
    (see \<open>Flush_Client\<close>), closings that fail after they created their file (see \<open>Close_Failure\<close>, which shows
    that they can break the log), the removal of chunks (\<open>Purge\<close>) and shutting down (\<open>Shutdown\<close>), so
    that the results over \<open>wal_run\<close> say nothing of logs in which these happen. The locale \<open>wal_api\<close> is the
    trait of \<open>src/api/wal.rs\<close>, provided by the log.
  \<^item> \<open>Crash\<close>, \<open>Crash_Open\<close>, \<open>Lifetime\<close>, \<open>Shutdown\<close>, \<open>Purge\<close>: crashes, any number of them, shutting down, and
    removing old chunks. A crash (\<open>crash_image\<close>) keeps of every file a prefix, with at least the
    synchronised and at most the written bytes; zeros that a file system puts behind them are not part
    of it (loading and opening files with such ends is covered in \<open>Chunk_Load\<close> and \<open>Recovery_Open\<close>). The
    main results, for uses that are a \<open>wal_run\<close>: after a flush that was waited for nothing is lost; after
    a use under faults and a crash opening finds a prefix of the log with every durable record, and the
    log is in use again; so a record once durable stays in the log (\<open>wal_life\<close>). \<open>Purge\<close> also shows that
    removing chunks can lose a log in a crash. \<open>Lifetime\<close> proves that stable storage only grows with a
    small calculus (\<open>keeps\<close>) over the operations.
  \<^item> \<open>Close_Failure\<close>: what a failure in the middle of closing a full chunk leaves behind: a chunk that no
    reader finds, or a file that keeps the directory from being opened again. It uses \<open>wal_live\<close>, the
    invariant without the part about the directory.

  How concurrency is modelled. The owner and the worker share the channel and the progress. The owner's
  operations are steps; the worker's \<open>run\<close> happens between them (\<open>wal_run\<close>) and inside those that wait:
  for space in the budget or the channel, for progress, or for the thread to end. A wait that the worker
  cannot end is the value \<open>Hang\<close>. A run processes all that is queued; a crash or failure in the middle of
  a run is a run whose script has an error there, for a failed worker writes no more. Times come from a
  list of clock ticks, and the panics of user callbacks from \<open>panic_on\<close>.

  Termination. There is no fuel: the loops are functions with termination proofs (the script, the queue
  or the bytes left get shorter), so that every operation is total and each result is a value.

  Not modelled. Log lines, \<open>Debug\<close> and \<open>Display\<close> of records and requests, and the texts of errors (their
  kinds are); buffer capacities; read errors inside the \<open>BufReader\<close> of the record iterator; names that are
  not UTF-8; spawning the thread and rendering a panic payload; the percentile computation of the
  histogram library, a parameter of the snapshot. The state machine, the user's record types and the
  checksum are parameters. The tests, examples and benchmarks of the repository are not modelled.
\<close>

end
